(* ===== verification/Rhino_Prelude.thy ===== *)
theory Rhino_Prelude
  imports Main "HOL-Library.Word"
begin

text \<open>
  Shared vocabulary of the development: addresses, machine integers, the one list
  operation that three kernel components write as the same loop (walk a sorted list,
  insert before the first element that satisfies a test), and the generic lemmas on
  lists and words the component theories use.
\<close>

section \<open>Types\<close>

text \<open>
  An address is a 32-bit word and 0 is the null pointer. The kernel's objects live in
  typed heaps (functions from addresses), one per C struct type, so a null test is a
  comparison with 0 and a dereference is an application.
\<close>

type_synonym ptr = "32 word"
type_synonym byte = "8 word"
type_synonym tick_t = "64 word"
type_synonym size_t = "32 word"

abbreviation NULL :: ptr where
  "NULL \<equiv> 0"

named_theorems kdefs \<open>definitions of kernel operations, unfolded in component proofs\<close>
named_theorems kframe \<open>which state components an operation leaves alone\<close>
named_theorems kinv_intro \<open>operations that keep the kernel invariant\<close>

section \<open>Insertion before the first element that satisfies a test\<close>

text \<open>
  The loop \<^verbatim>\<open>for (q = head->next; q != head; q = q->next) if (P q) break; klist_insert(q, e)\<close>
  on the sequence of the list's elements.
\<close>

fun insert_before :: "('a \<Rightarrow> bool) \<Rightarrow> 'a \<Rightarrow> 'a list \<Rightarrow> 'a list" where
  "insert_before P e [] = [e]"
| "insert_before P e (q # qs) = (if P q then e # q # qs else q # insert_before P e qs)"

lemma set_insert_before [simp]: "set (insert_before P e xs) = insert e (set xs)"
  by (induction xs) auto

lemma length_insert_before [simp]: "length (insert_before P e xs) = Suc (length xs)"
  by (induction xs) auto

lemma insert_before_neq_Nil [simp]: "insert_before P e xs \<noteq> []"
  by (cases xs) auto

lemma distinct_insert_before [simp]:
  "distinct (insert_before P e xs) \<longleftrightarrow> e \<notin> set xs \<and> distinct xs"
  by (induction xs) auto

lemma sorted_insert_before:
  fixes key :: "'a \<Rightarrow> 'b::linorder"
  assumes "sorted (map key xs)" and "\<And>q. q \<in> set xs \<Longrightarrow> P q \<longleftrightarrow> key e < key q"
  shows "sorted (map key (insert_before P e xs))"
  using assms
proof (induction xs)
  case Nil
  then show ?case by simp
next
  case (Cons q qs)
  then have IH: "sorted (map key (insert_before P e qs))" by simp
  show ?case
  proof (cases "P q")
    case True
    with Cons.prems have "key e < key q" by simp
    with True Cons.prems(1) show ?thesis by (auto simp: less_imp_le intro: order.trans)
  next
    case False
    with Cons.prems have "key q \<le> key e" by auto
    with False IH Cons.prems(1) show ?thesis by auto
  qed
qed

lemma insert_before_decomp:
  obtains ys zs where "xs = ys @ zs" and "insert_before P e xs = ys @ e # zs"
    and "\<forall>y \<in> set ys. \<not> P y" and "zs = [] \<or> P (hd zs)"
proof -
  have "\<exists>ys zs. xs = ys @ zs \<and> insert_before P e xs = ys @ e # zs \<and>
      (\<forall>y \<in> set ys. \<not> P y) \<and> (zs = [] \<or> P (hd zs))"
  proof (induction xs)
    case Nil
    show ?case by simp
  next
    case (Cons q qs)
    show ?case
    proof (cases "P q")
      case True
      then show ?thesis by (intro exI [of _ "[]"] exI [of _ "q # qs"]) simp
    next
      case False
      from Cons.IH obtain ys zs where "qs = ys @ zs" "insert_before P e qs = ys @ e # zs"
        "\<forall>y \<in> set ys. \<not> P y" "zs = [] \<or> P (hd zs)" by blast
      with False show ?thesis by (intro exI [of _ "q # ys"] exI [of _ zs]) simp
    qed
  qed
  with that show thesis by blast
qed

section \<open>Sorted lists and removal\<close>

lemma set_remove1_distinct: "distinct xs \<Longrightarrow> set (remove1 x xs) = set xs - {x}"
  by (rule set_remove1_eq)

lemma sorted_map_remove1:
  fixes key :: "'a \<Rightarrow> 'b::linorder"
  shows "sorted (map key xs) \<Longrightarrow> sorted (map key (remove1 x xs))"
  by (rule sorted_map_remove1)

lemma sorted_hd_min:
  fixes key :: "'a \<Rightarrow> 'b::linorder"
  shows "sorted (map key xs) \<Longrightarrow> x \<in> set xs \<Longrightarrow> key (hd xs) \<le> key x"
  by (cases xs) auto

lemma remove1_Nil_iff: "distinct xs \<Longrightarrow> x \<in> set xs \<Longrightarrow> remove1 x xs = [] \<longleftrightarrow> xs = [x]"
  by (cases xs) (auto simp: remove1_idem split: if_splits)

lemma in_set_rotate1 [simp]: "x \<in> set (rotate1 xs) \<longleftrightarrow> x \<in> set xs"
  by simp

text \<open>
  Unlinking the first node of a ring after moving the ring's entry one step on is the
  same as unlinking it in place.
\<close>

lemma remove1_rotate1_hd:
  "distinct (x # xs) \<Longrightarrow> remove1 x (rotate1 (x # xs)) = xs"
  by (simp add: remove1_append)

section \<open>One element of a list\<close>

text \<open>
  \<open>placed t c xs ys\<close>: \<open>ys\<close> has the elements of \<open>xs\<close>, with \<open>t\<close> among them exactly if \<open>c\<close>.
\<close>

definition placed :: "'a \<Rightarrow> bool \<Rightarrow> 'a list \<Rightarrow> 'a list \<Rightarrow> bool" where
  "placed t c xs ys \<longleftrightarrow>
     distinct ys \<and> (\<forall>u. u \<in> set ys \<longleftrightarrow> (if u = t then c else u \<in> set xs))"

lemma placed_same: "distinct xs \<Longrightarrow> c = (t \<in> set xs) \<Longrightarrow> placed t c xs xs"
  by (auto simp: placed_def)

lemma placed_remove1: "distinct xs \<Longrightarrow> \<not> c \<Longrightarrow> placed t c xs (remove1 t xs)"
  by (auto simp: placed_def)

lemma placed_insert_before:
  "distinct xs \<Longrightarrow> t \<notin> set xs \<Longrightarrow> c \<Longrightarrow> placed t c xs (insert_before P t xs)"
  by (auto simp: placed_def)

lemma placed_move: "distinct xs \<Longrightarrow> c \<Longrightarrow> placed t c xs (insert_before P t (remove1 t xs))"
  by (auto simp: placed_def)

lemma placed_insert:
  "distinct (xs @ ys) \<Longrightarrow> t \<notin> set (xs @ ys) \<Longrightarrow> c \<Longrightarrow> placed t c (xs @ ys) (xs @ t # ys)"
  by (auto simp: placed_def)

lemma sorted_map_cong:
  "sorted (map f xs) \<Longrightarrow> (\<And>x. x \<in> set xs \<Longrightarrow> g x = f x) \<Longrightarrow> sorted (map g xs)"
  by (metis map_cong)

section \<open>Integers of a port\<close>

text \<open>
  The port of the kernel to a processor (not part of this repository) fixes the widths of
  some unsigned counters. Such a counter is a number bounded by the type's largest value;
  incrementing and decrementing wrap around.
\<close>

definition cinc :: "nat \<Rightarrow> nat \<Rightarrow> nat" where
  "cinc m x = (if x = m then 0 else x + 1)"

definition cdec :: "nat \<Rightarrow> nat \<Rightarrow> nat" where
  "cdec m x = (if x = 0 then m else x - 1)"

lemma cinc_le: "x \<le> m \<Longrightarrow> cinc m x \<le> m"
  by (simp add: cinc_def)

lemma cdec_le: "x \<le> m \<Longrightarrow> cdec m x \<le> m"
  by (auto simp: cdec_def)

lemma cdec_cinc: "x \<le> m \<Longrightarrow> cdec m (cinc m x) = x"
  by (auto simp: cinc_def cdec_def)

end
