(* ===== verification/Klist.thy ===== *)
theory Klist
  imports Rhino_Prelude
begin

text \<open>
  The intrusive circular doubly linked list of \<^verbatim>\<open>k_list.h\<close>, at the level of its pointers:
  a heap of \<^verbatim>\<open>next\<close> and \<^verbatim>\<open>prev\<close> links, the six operations as the sequence of assignments
  the C code makes, and the representation predicate \<open>is_klist h lh xs\<close> (from the head
  \<open>lh\<close> the links run through the nodes \<open>xs\<close> and back, in both directions). The lemmas
  show that every operation is the expected operation on the sequence \<open>xs\<close> and leaves
  disjoint lists alone. The kernel theories work on these sequences.
\<close>

section \<open>The operations\<close>

record 'n klinks =
  nxt :: "'n \<Rightarrow> 'n"
  prv :: "'n \<Rightarrow> 'n"

definition klist_init :: "'n klinks \<Rightarrow> 'n \<Rightarrow> 'n klinks" where
  "klist_init h list_head =
     (let h = h\<lparr>nxt := (nxt h)(list_head := list_head)\<rparr>
      in h\<lparr>prv := (prv h)(list_head := list_head)\<rparr>)"

definition is_klist_empty :: "'n klinks \<Rightarrow> 'n \<Rightarrow> bool" where
  "is_klist_empty h list = (nxt h list = list)"

definition klist_insert :: "'n klinks \<Rightarrow> 'n \<Rightarrow> 'n \<Rightarrow> 'n klinks" where
  "klist_insert h head element =
     (let h = h\<lparr>prv := (prv h)(element := prv h head)\<rparr>;
          h = h\<lparr>nxt := (nxt h)(element := head)\<rparr>;
          h = h\<lparr>nxt := (nxt h)(prv h head := element)\<rparr>
      in h\<lparr>prv := (prv h)(head := element)\<rparr>)"

definition klist_add :: "'n klinks \<Rightarrow> 'n \<Rightarrow> 'n \<Rightarrow> 'n klinks" where
  "klist_add h head element =
     (let h = h\<lparr>prv := (prv h)(element := head)\<rparr>;
          h = h\<lparr>nxt := (nxt h)(element := nxt h head)\<rparr>;
          h = h\<lparr>prv := (prv h)(nxt h head := element)\<rparr>
      in h\<lparr>nxt := (nxt h)(head := element)\<rparr>)"

definition klist_rm :: "'n klinks \<Rightarrow> 'n \<Rightarrow> 'n klinks" where
  "klist_rm h element =
     (let h = h\<lparr>nxt := (nxt h)(prv h element := nxt h element)\<rparr>
      in h\<lparr>prv := (prv h)(nxt h element := prv h element)\<rparr>)"

definition klist_rm_init :: "'n klinks \<Rightarrow> 'n \<Rightarrow> 'n klinks" where
  "klist_rm_init h element =
     (let h = h\<lparr>nxt := (nxt h)(prv h element := nxt h element)\<rparr>;
          h = h\<lparr>prv := (prv h)(nxt h element := prv h element)\<rparr>;
          h = h\<lparr>prv := (prv h)(element := element)\<rparr>
      in h\<lparr>nxt := (nxt h)(element := prv h element)\<rparr>)"

text \<open>
  The scan that \<^verbatim>\<open>pend_list_add\<close>, \<^verbatim>\<open>tick_list_pri_insert\<close> and \<^verbatim>\<open>timer_list_pri_insert\<close>
  share: follow \<^verbatim>\<open>next\<close> from \<open>q\<close> until the end marker or a node that passes the test.
  On a broken list it may not return.
\<close>

partial_function (option) klist_scan :: "'n klinks \<Rightarrow> ('n \<Rightarrow> bool) \<Rightarrow> 'n \<Rightarrow> 'n \<Rightarrow> 'n option" where
  "klist_scan h P list_end q =
     (if q = list_end then Some q
      else if P q then Some q
      else klist_scan h P list_end (nxt h q))"

definition klist_sorted_insert :: "'n klinks \<Rightarrow> ('n \<Rightarrow> bool) \<Rightarrow> 'n \<Rightarrow> 'n \<Rightarrow> 'n klinks option" where
  "klist_sorted_insert h P head element =
     map_option (\<lambda>q. klist_insert h q element) (klist_scan h P head (nxt h head))"

section \<open>Representation\<close>

definition link :: "'n klinks \<Rightarrow> 'n \<Rightarrow> 'n \<Rightarrow> bool" where
  "link h a b \<longleftrightarrow> nxt h a = b \<and> prv h b = a"

fun chain :: "'n klinks \<Rightarrow> 'n \<Rightarrow> 'n list \<Rightarrow> 'n \<Rightarrow> bool" where
  "chain h a [] b = link h a b"
| "chain h a (x # xs) b = (link h a x \<and> chain h x xs b)"

definition is_klist :: "'n klinks \<Rightarrow> 'n \<Rightarrow> 'n list \<Rightarrow> bool" where
  "is_klist h lh xs \<longleftrightarrow> chain h lh xs lh \<and> distinct (lh # xs)"

lemma chain_append [simp]:
  "chain h a (xs @ x # ys) b \<longleftrightarrow> chain h a xs x \<and> chain h x ys b"
  by (induction xs arbitrary: a) auto

lemma chain_cong:
  assumes "chain h a xs b"
    and "\<And>x. x \<in> set (a # xs) \<Longrightarrow> nxt h' x = nxt h x"
    and "\<And>x. x \<in> set (xs @ [b]) \<Longrightarrow> prv h' x = prv h x"
  shows "chain h' a xs b"
  using assms by (induction xs arbitrary: a) (auto simp: link_def)

lemma chain_last: "chain h a xs b \<Longrightarrow> prv h b = last (a # xs)"
  by (induction xs arbitrary: a) (auto simp: link_def)

lemma chain_first: "chain h a xs b \<Longrightarrow> nxt h a = hd (xs @ [b])"
  by (cases xs) (auto simp: link_def)

lemma is_klist_rotate: "is_klist h x (y # ys) \<Longrightarrow> is_klist h y (ys @ [x])"
  by (auto simp: is_klist_def)

lemma is_klist_rotate_back: "is_klist h y (ys @ [x]) \<Longrightarrow> is_klist h x (y # ys)"
  by (auto simp: is_klist_def)

text \<open>Any node of the ring can serve as its entry.\<close>

lemma is_klist_from: "is_klist h lh (ys @ q # zs) \<Longrightarrow> is_klist h q (zs @ lh # ys)"
  by (auto simp: is_klist_def)

lemma is_klist_from_back: "is_klist h q (zs @ lh # ys) \<Longrightarrow> is_klist h lh (ys @ q # zs)"
  by (auto simp: is_klist_def)

section \<open>Each operation on the sequence\<close>

lemma klist_init_rep: "is_klist (klist_init h l) l []"
  by (simp add: is_klist_def klist_init_def link_def Let_def)

lemma is_klist_empty_rep: "is_klist h lh xs \<Longrightarrow> is_klist_empty h lh \<longleftrightarrow> xs = []"
  by (cases xs) (auto simp: is_klist_empty_def is_klist_def link_def)

lemma klist_first_rep: "is_klist h lh (x # xs) \<Longrightarrow> nxt h lh = x"
  by (simp add: is_klist_def link_def)

lemma klist_insert_rep:
  assumes "is_klist h lh xs" and "e \<notin> set (lh # xs)"
  shows "is_klist (klist_insert h lh e) lh (xs @ [e])"
proof (cases xs rule: rev_cases)
  case Nil
  with assms show ?thesis
    by (auto simp: is_klist_def link_def klist_insert_def Let_def)
next
  case (snoc ys y)
  with assms have c: "chain h lh ys y" and l: "link h y lh"
    and d: "distinct (lh # ys @ [y, e])" by (auto simp: is_klist_def)
  from l have p: "prv h lh = y" by (simp add: link_def)
  have "chain (klist_insert h lh e) lh ys y"
    using c by (rule chain_cong) (use d p in \<open>auto simp: klist_insert_def Let_def\<close>)
  moreover have "link (klist_insert h lh e) y e" and "link (klist_insert h lh e) e lh"
    using d p by (auto simp: link_def klist_insert_def Let_def)
  ultimately show ?thesis using snoc d by (auto simp: is_klist_def)
qed

lemma klist_add_rep:
  assumes "is_klist h lh xs" and "e \<notin> set (lh # xs)"
  shows "is_klist (klist_add h lh e) lh (e # xs)"
proof (cases xs)
  case Nil
  with assms show ?thesis
    by (auto simp: is_klist_def link_def klist_add_def Let_def)
next
  case (Cons y ys)
  with assms have c: "chain h y ys lh" and l: "link h lh y"
    and d: "distinct (lh # e # y # ys)" by (auto simp: is_klist_def)
  from l have p: "nxt h lh = y" by (simp add: link_def)
  have "chain (klist_add h lh e) y ys lh"
    using c by (rule chain_cong) (use d p in \<open>auto simp: klist_add_def Let_def\<close>)
  moreover have "link (klist_add h lh e) lh e" and "link (klist_add h lh e) e y"
    using d p by (auto simp: link_def klist_add_def Let_def)
  ultimately show ?thesis using Cons d by (auto simp: is_klist_def)
qed

lemma klist_insert_at_rep:
  assumes "is_klist h lh (ys @ q # zs)" and "e \<notin> set (lh # ys @ q # zs)"
  shows "is_klist (klist_insert h q e) lh (ys @ e # q # zs)"
proof -
  from assms(1) have "is_klist h q (zs @ lh # ys)" by (rule is_klist_from)
  then have "is_klist (klist_insert h q e) q ((zs @ lh # ys) @ [e])"
    by (rule klist_insert_rep) (use assms(2) in auto)
  then show ?thesis using is_klist_from_back [of "klist_insert h q e" q zs lh "ys @ [e]"] by simp
qed

lemma klist_rm_rep:
  assumes "is_klist h lh (ys @ e # zs)"
  shows "is_klist (klist_rm h e) lh (ys @ zs)"
proof -
  let ?a = "last (lh # ys)" and ?b = "hd (zs @ [lh])"
  from assms have c1: "chain h lh ys e" and c2: "chain h e zs lh"
    and d: "distinct (lh # ys @ e # zs)" by (auto simp: is_klist_def)
  from c1 have p: "prv h e = ?a" by (rule chain_last)
  from c2 have n: "nxt h e = ?b" by (rule chain_first)
  have rm: "nxt (klist_rm h e) = (nxt h)(?a := ?b)" "prv (klist_rm h e) = (prv h)(?b := ?a)"
    using p n d by (auto simp: klist_rm_def Let_def fun_eq_iff split: if_splits)
  have "chain (klist_rm h e) lh (ys @ zs) lh"
  proof (cases ys rule: rev_cases)
    case Nil
    show ?thesis
    proof (cases zs)
      case Nil
      with \<open>ys = []\<close> rm show ?thesis by (simp add: link_def)
    next
      case (Cons z zs')
      with c2 have "chain h z zs' lh" by simp
      then have "chain (klist_rm h e) z zs' lh"
        by (rule chain_cong) (use d rm Cons \<open>ys = []\<close> in auto)
      with rm Cons \<open>ys = []\<close> show ?thesis by (simp add: link_def)
    qed
  next
    case (snoc ys' y)
    with c1 have "chain h lh ys' y" by simp
    then have 1: "chain (klist_rm h e) lh ys' y"
      by (rule chain_cong) (use d rm snoc in \<open>cases zs; auto\<close>)+
    show ?thesis
    proof (cases zs)
      case Nil
      with 1 snoc rm show ?thesis by (simp add: link_def)
    next
      case (Cons z zs')
      with c2 have "chain h z zs' lh" by simp
      then have "chain (klist_rm h e) z zs' lh"
        by (rule chain_cong) (use d rm Cons snoc in auto)
      with 1 rm Cons snoc show ?thesis by (simp add: link_def)
    qed
  qed
  with d show ?thesis by (auto simp: is_klist_def)
qed

lemma klist_rm_init_rep:
  assumes "is_klist h lh (ys @ e # zs)"
  shows "is_klist (klist_rm_init h e) lh (ys @ zs)" and "is_klist (klist_rm_init h e) e []"
proof -
  from assms have d: "distinct (lh # ys @ e # zs)" by (simp add: is_klist_def)
  from assms have rm: "is_klist (klist_rm h e) lh (ys @ zs)" by (rule klist_rm_rep)
  have nxt: "x \<noteq> e \<Longrightarrow> nxt (klist_rm_init h e) x = nxt (klist_rm h e) x"
    and prv: "x \<noteq> e \<Longrightarrow> prv (klist_rm_init h e) x = prv (klist_rm h e) x" for x
    by (simp_all add: klist_rm_init_def klist_rm_def Let_def)
  from rm have "chain (klist_rm h e) lh (ys @ zs) lh" by (simp add: is_klist_def)
  then have "chain (klist_rm_init h e) lh (ys @ zs) lh"
    by (rule chain_cong) (use d in \<open>auto intro: nxt prv\<close>)
  with d show "is_klist (klist_rm_init h e) lh (ys @ zs)" by (auto simp: is_klist_def)
  show "is_klist (klist_rm_init h e) e []"
    by (simp add: is_klist_def link_def klist_rm_init_def Let_def)
qed

section \<open>Disjoint lists are left alone\<close>

lemma is_klist_prev_in:
  assumes "is_klist h lh xs" and "q \<in> set (lh # xs)"
  shows "prv h q \<in> set (lh # xs)"
proof (cases "q = lh")
  case True
  with assms show ?thesis using chain_last [of h lh xs lh] by (auto simp: is_klist_def)
next
  case False
  with assms obtain ys zs where "xs = ys @ q # zs" by (auto dest: split_list)
  with assms show ?thesis using chain_last [of h lh ys q] by (auto simp: is_klist_def)
qed

lemma is_klist_next_in:
  assumes "is_klist h lh xs" and "q \<in> set (lh # xs)"
  shows "nxt h q \<in> set (lh # xs)"
proof (cases "q = lh")
  case True
  with assms show ?thesis using chain_first [of h lh xs lh] by (cases xs) (auto simp: is_klist_def)
next
  case False
  with assms obtain ys zs where xs: "xs = ys @ q # zs" by (auto dest: split_list)
  with assms show ?thesis using chain_first [of h q zs lh] by (cases zs) (auto simp: is_klist_def)
qed

lemma klist_insert_frame:
  assumes "is_klist h l xs" and "is_klist h k ws" and "set (l # xs) \<inter> set (k # ws) = {}"
    and "q \<in> set (l # xs)" and "e \<notin> set (k # ws)"
  shows "is_klist (klist_insert h q e) k ws"
proof -
  from assms(1,4) have "prv h q \<in> set (l # xs)" by (rule is_klist_prev_in)
  with assms have "\<And>x. x \<in> set (k # ws) \<Longrightarrow> nxt (klist_insert h q e) x = nxt h x"
    and "\<And>x. x \<in> set (ws @ [k]) \<Longrightarrow> prv (klist_insert h q e) x = prv h x"
    by (auto simp: klist_insert_def Let_def)
  then have "chain (klist_insert h q e) k ws k"
    using assms(2) by (intro chain_cong [of h k ws k "klist_insert h q e"]) (auto simp: is_klist_def)
  with assms(2) show ?thesis by (simp add: is_klist_def)
qed

lemma klist_rm_frame:
  assumes "is_klist h l xs" and "is_klist h k ws" and "set (l # xs) \<inter> set (k # ws) = {}"
    and "e \<in> set xs"
  shows "is_klist (klist_rm h e) k ws"
proof -
  from assms(4) have "e \<in> set (l # xs)" by simp
  with assms(1) have "prv h e \<in> set (l # xs)" "nxt h e \<in> set (l # xs)"
    by (rule is_klist_prev_in, rule is_klist_next_in)
  with assms(3) have "\<And>x. x \<in> set (k # ws) \<Longrightarrow> nxt (klist_rm h e) x = nxt h x"
    and "\<And>x. x \<in> set (ws @ [k]) \<Longrightarrow> prv (klist_rm h e) x = prv h x"
    by (auto simp: klist_rm_def Let_def)
  then have "chain (klist_rm h e) k ws k"
    using assms(2) by (intro chain_cong [of h k ws k "klist_rm h e"]) (auto simp: is_klist_def)
  with assms(2) show ?thesis by (simp add: is_klist_def)
qed

section \<open>The interface the kernel relies on\<close>

text \<open>
  The kernel moves nodes between disjoint lists (ready rings, wait lists of kernel objects,
  the tick list). What it needs of the list operations is this contract; the lemmas proved
  from it are the two movements the kernel makes: waking one waiter and draining a list.
\<close>

locale klist_interface =
  fixes rep :: "'h \<Rightarrow> 'n \<Rightarrow> 'n list \<Rightarrow> bool"
    and ins :: "'h \<Rightarrow> 'n \<Rightarrow> 'n \<Rightarrow> 'h"
    and rm :: "'h \<Rightarrow> 'n \<Rightarrow> 'h"
    and first :: "'h \<Rightarrow> 'n \<Rightarrow> 'n"
  assumes rep_distinct: "rep h l xs \<Longrightarrow> distinct (l # xs)"
    and first_rep: "rep h l (x # xs) \<Longrightarrow> first h l = x"
    and ins_tail: "rep h l xs \<Longrightarrow> e \<notin> set (l # xs) \<Longrightarrow> rep (ins h l e) l (xs @ [e])"
    and ins_at: "rep h l (ys @ q # zs) \<Longrightarrow> e \<notin> set (l # ys @ q # zs)
      \<Longrightarrow> rep (ins h q e) l (ys @ e # q # zs)"
    and ins_frame: "rep h l xs \<Longrightarrow> rep h k ws \<Longrightarrow> set (l # xs) \<inter> set (k # ws) = {}
      \<Longrightarrow> q \<in> set (l # xs) \<Longrightarrow> e \<notin> set (k # ws) \<Longrightarrow> rep (ins h q e) k ws"
    and rm_rep: "rep h l (ys @ e # zs) \<Longrightarrow> rep (rm h e) l (ys @ zs)"
    and rm_frame: "rep h l xs \<Longrightarrow> rep h k ws \<Longrightarrow> set (l # xs) \<inter> set (k # ws) = {}
      \<Longrightarrow> e \<in> set xs \<Longrightarrow> rep (rm h e) k ws"
begin

lemma rm_remove1:
  assumes "rep h l xs" and "e \<in> set xs"
  shows "rep (rm h e) l (remove1 e xs)"
proof -
  from assms(2) obtain ys zs where xs: "xs = ys @ e # zs" and "e \<notin> set ys"
    by (auto dest: split_list_first)
  with assms(1) show ?thesis by (auto simp: remove1_append intro: rm_rep)
qed

lemma move:
  assumes l: "rep h l xs" and k: "rep h k ws" and dj: "set (l # xs) \<inter> set (k # ws) = {}"
    and e: "e \<in> set xs"
  shows "rep (ins (rm h e) k e) l (remove1 e xs)" and "rep (ins (rm h e) k e) k (ws @ [e])"
proof -
  from l have d: "distinct (l # xs)" by (rule rep_distinct)
  from l e have 1: "rep (rm h e) l (remove1 e xs)" by (rule rm_remove1)
  from l k dj e have 2: "rep (rm h e) k ws" by (rule rm_frame)
  show "rep (ins (rm h e) k e) k (ws @ [e])"
    using 2 dj e by (intro ins_tail) auto
  have "e \<notin> set (l # remove1 e xs)" using d e by auto
  moreover have "set (k # ws) \<inter> set (l # remove1 e xs) = {}"
    using dj set_remove1_subset [of e xs] by auto
  ultimately show "rep (ins (rm h e) k e) l (remove1 e xs)"
    using ins_frame [OF 2 1, of k e] by simp
qed

text \<open>The loop \<^verbatim>\<open>while (!is_klist_empty(head)) klist_rm(head->next)\<close>, as many rounds as there are nodes.\<close>

lemma drain:
  assumes "rep h l xs"
  shows "rep (((\<lambda>h. rm h (first h l)) ^^ length xs) h) l []"
  using assms
proof (induction xs arbitrary: h)
  case Nil
  then show ?case by simp
next
  case (Cons x xs)
  then have "first h l = x" and "rep (rm h x) l xs"
    using rm_rep [of h l "[]" x xs] by (auto simp: first_rep)
  with Cons.IH show ?case by (simp add: funpow_Suc_right del: funpow.simps)
qed

end

interpretation kl: klist_interface is_klist klist_insert klist_rm nxt
proof unfold_locales
  fix h :: "'a klinks" and l k e q :: 'a and xs ys zs ws :: "'a list" and x :: 'a
  show "is_klist h l xs \<Longrightarrow> distinct (l # xs)" by (simp add: is_klist_def)
  show "is_klist h l (x # xs) \<Longrightarrow> nxt h l = x" by (rule klist_first_rep)
qed (fact klist_insert_rep klist_insert_at_rep klist_insert_frame klist_rm_rep klist_rm_frame)+

section \<open>The scan and the sorted insertion\<close>

lemma klist_scan_rep:
  assumes "chain h a (ys @ zs) lh" and "lh \<notin> set (ys @ zs)"
    and "\<forall>y \<in> set ys. \<not> P y" and "zs = [] \<or> P (hd zs)"
  shows "klist_scan h P lh (nxt h a) = Some (hd (zs @ [lh]))"
  using assms
proof (induction ys arbitrary: a)
  case Nil
  then have "nxt h a = hd (zs @ [lh])" by (auto dest: chain_first)
  with Nil show ?case
    by (cases zs) (auto simp: klist_scan.simps [of h P lh lh] klist_scan.simps [of h P lh "nxt h a"])
next
  case (Cons y ys)
  then have "nxt h a = y" and "klist_scan h P lh (nxt h y) = Some (hd (zs @ [lh]))"
    by (auto simp: link_def)
  with Cons.prems show ?case by (auto simp: klist_scan.simps [of h P lh y])
qed

lemma klist_sorted_insert_rep:
  assumes "is_klist h lh xs" and "e \<notin> set (lh # xs)"
  shows "\<exists>h'. klist_sorted_insert h P lh e = Some h' \<and> is_klist h' lh (insert_before P e xs)"
proof -
  obtain ys zs where xs: "xs = ys @ zs" and ib: "insert_before P e xs = ys @ e # zs"
    and P: "\<forall>y \<in> set ys. \<not> P y" "zs = [] \<or> P (hd zs)"
    by (rule insert_before_decomp)
  from assms(1) xs have "chain h lh (ys @ zs) lh" and "lh \<notin> set (ys @ zs)"
    by (auto simp: is_klist_def)
  with P have "klist_scan h P lh (nxt h lh) = Some (hd (zs @ [lh]))"
    by (intro klist_scan_rep)
  then have si: "klist_sorted_insert h P lh e = Some (klist_insert h (hd (zs @ [lh])) e)"
    by (simp add: klist_sorted_insert_def)
  show ?thesis
  proof (cases zs)
    case Nil
    with assms xs ib si show ?thesis by (auto intro: klist_insert_rep)
  next
    case (Cons z zs')
    with assms xs have "is_klist (klist_insert h z e) lh (ys @ e # z # zs')"
      by (intro klist_insert_at_rep) auto
    with Cons ib si show ?thesis by auto
  qed
qed

section \<open>Property\<close>

text \<open>
  C37: The circular lists behave as sequences. Inserting puts the element at the end, adding
  puts it at the front, removing takes exactly that element out wherever it is, and a
  removed element that is initialised again is an empty list of its own.
\<close>

theorem klist_sequence:
  assumes "is_klist h lh (xs @ ys)" and "e \<notin> set (lh # xs @ ys)"
  shows "is_klist (klist_insert h lh e) lh (xs @ ys @ [e]) \<and> is_klist (klist_add h lh e) lh (e # xs @ ys) \<and>
    (\<forall>g. is_klist g lh (xs @ e # ys) \<longrightarrow> is_klist (klist_rm g e) lh (xs @ ys) \<and>
       is_klist (klist_rm_init g e) lh (xs @ ys) \<and> is_klist_empty (klist_rm_init g e) e)"
proof (intro conjI allI impI)
  show "is_klist (klist_insert h lh e) lh (xs @ ys @ [e])" using klist_insert_rep [OF assms] by simp
  show "is_klist (klist_add h lh e) lh (e # xs @ ys)" by (rule klist_add_rep [OF assms])
  fix g assume g: "is_klist g lh (xs @ e # ys)"
  show "is_klist (klist_rm g e) lh (xs @ ys)" by (rule klist_rm_rep [OF g])
  show "is_klist (klist_rm_init g e) lh (xs @ ys)" by (rule klist_rm_init_rep(1) [OF g])
  show "is_klist_empty (klist_rm_init g e) e" using is_klist_empty_rep [OF klist_rm_init_rep(2) [OF g]] by simp
qed

theorem klist_sequence_witness:
  "is_klist (klist_insert (klist_init \<lparr>nxt = id, prv = id\<rparr> (1::nat)) 1 2) 1 [2] \<and>
   is_klist (klist_rm (klist_insert (klist_init \<lparr>nxt = id, prv = id\<rparr> (1::nat)) 1 2) 2) 1 []"
  using klist_sequence [of "klist_init \<lparr>nxt = id, prv = id\<rparr> (1::nat)" 1 "[]" "[]" 2]
  by (simp add: klist_init_rep)

end
