(* ===== verification/Kernel_Types.thy ===== *)
theory Kernel_Types
  imports Rhino_Prelude
begin

text \<open>
  The enumerations and constants of the Rhino kernel that several components share:
  status codes (\<^verbatim>\<open>k_err.h\<close>), task and blocking states (\<^verbatim>\<open>k_task.h\<close>, \<^verbatim>\<open>k_obj.h\<close>), and the
  configuration the model fixes (the defaults of \<^verbatim>\<open>k_default_config.h\<close>, one processor).
\<close>

section \<open>Status codes\<close>

text \<open>The enumerators of \<^verbatim>\<open>kstat_t\<close> with their values.\<close>

datatype kstat_t = Kstat nat

abbreviation "RHINO_SUCCESS \<equiv> Kstat 0"
abbreviation "RHINO_SYS_FATAL_ERR \<equiv> Kstat 1"
abbreviation "RHINO_SYS_SP_ERR \<equiv> Kstat 2"
abbreviation "RHINO_RUNNING \<equiv> Kstat 3"
abbreviation "RHINO_STOPPED \<equiv> Kstat 4"
abbreviation "RHINO_INV_PARAM \<equiv> Kstat 5"
abbreviation "RHINO_NULL_PTR \<equiv> Kstat 6"
abbreviation "RHINO_INV_ALIGN \<equiv> Kstat 7"
abbreviation "RHINO_KOBJ_TYPE_ERR \<equiv> Kstat 8"
abbreviation "RHINO_KOBJ_DEL_ERR \<equiv> Kstat 9"
abbreviation "RHINO_KOBJ_DOCKER_EXIST \<equiv> Kstat 10"
abbreviation "RHINO_KOBJ_BLK \<equiv> Kstat 11"
abbreviation "RHINO_KOBJ_SET_FULL \<equiv> Kstat 12"
abbreviation "RHINO_NOTIFY_FUNC_EXIST \<equiv> Kstat 13"
abbreviation "RHINO_MM_POOL_SIZE_ERR \<equiv> Kstat 100"
abbreviation "RHINO_MM_ALLOC_SIZE_ERR \<equiv> Kstat 101"
abbreviation "RHINO_MM_FREE_ADDR_ERR \<equiv> Kstat 102"
abbreviation "RHINO_MM_CORRUPT_ERR \<equiv> Kstat 103"
abbreviation "RHINO_DYN_MEM_PROC_ERR \<equiv> Kstat 104"
abbreviation "RHINO_NO_MEM \<equiv> Kstat 105"
abbreviation "RHINO_RINGBUF_FULL \<equiv> Kstat 106"
abbreviation "RHINO_RINGBUF_EMPTY \<equiv> Kstat 107"
abbreviation "RHINO_SCHED_DISABLE \<equiv> Kstat 200"
abbreviation "RHINO_SCHED_ALREADY_ENABLED \<equiv> Kstat 201"
abbreviation "RHINO_SCHED_LOCK_COUNT_OVF \<equiv> Kstat 202"
abbreviation "RHINO_INV_SCHED_WAY \<equiv> Kstat 203"
abbreviation "RHINO_TASK_INV_STACK_SIZE \<equiv> Kstat 300"
abbreviation "RHINO_TASK_NOT_SUSPENDED \<equiv> Kstat 301"
abbreviation "RHINO_TASK_DEL_NOT_ALLOWED \<equiv> Kstat 302"
abbreviation "RHINO_TASK_SUSPEND_NOT_ALLOWED \<equiv> Kstat 303"
abbreviation "RHINO_SUSPENDED_COUNT_OVF \<equiv> Kstat 304"
abbreviation "RHINO_BEYOND_MAX_PRI \<equiv> Kstat 305"
abbreviation "RHINO_PRI_CHG_NOT_ALLOWED \<equiv> Kstat 306"
abbreviation "RHINO_INV_TASK_STATE \<equiv> Kstat 307"
abbreviation "RHINO_IDLE_TASK_EXIST \<equiv> Kstat 308"
abbreviation "RHINO_NO_PEND_WAIT \<equiv> Kstat 400"
abbreviation "RHINO_BLK_ABORT \<equiv> Kstat 401"
abbreviation "RHINO_BLK_TIMEOUT \<equiv> Kstat 402"
abbreviation "RHINO_BLK_DEL \<equiv> Kstat 403"
abbreviation "RHINO_BLK_INV_STATE \<equiv> Kstat 404"
abbreviation "RHINO_BLK_POOL_SIZE_ERR \<equiv> Kstat 405"
abbreviation "RHINO_TIMER_STATE_INV \<equiv> Kstat 500"
abbreviation "RHINO_NO_THIS_EVENT_OPT \<equiv> Kstat 600"
abbreviation "RHINO_BUF_QUEUE_INV_SIZE \<equiv> Kstat 700"
abbreviation "RHINO_BUF_QUEUE_SIZE_ZERO \<equiv> Kstat 701"
abbreviation "RHINO_BUF_QUEUE_FULL \<equiv> Kstat 702"
abbreviation "RHINO_BUF_QUEUE_MSG_SIZE_OVERFLOW \<equiv> Kstat 703"
abbreviation "RHINO_QUEUE_FULL \<equiv> Kstat 704"
abbreviation "RHINO_QUEUE_NOT_FULL \<equiv> Kstat 705"
abbreviation "RHINO_SEM_OVF \<equiv> Kstat 800"
abbreviation "RHINO_SEM_TASK_WAITING \<equiv> Kstat 801"
abbreviation "RHINO_MUTEX_NOT_RELEASED_BY_OWNER \<equiv> Kstat 900"
abbreviation "RHINO_MUTEX_OWNER_NESTED \<equiv> Kstat 901"
abbreviation "RHINO_MUTEX_NESTED_OVF \<equiv> Kstat 902"
abbreviation "RHINO_NOT_CALLED_BY_INTRPT \<equiv> Kstat 1000"
abbreviation "RHINO_TRY_AGAIN \<equiv> Kstat 1001"
abbreviation "RHINO_WORKQUEUE_EXIST \<equiv> Kstat 1100"
abbreviation "RHINO_WORKQUEUE_NOT_EXIST \<equiv> Kstat 1101"
abbreviation "RHINO_WORKQUEUE_WORK_EXIST \<equiv> Kstat 1102"
abbreviation "RHINO_WORKQUEUE_BUSY \<equiv> Kstat 1103"
abbreviation "RHINO_WORKQUEUE_WORK_RUNNING \<equiv> Kstat 1104"
abbreviation "RHINO_TASK_STACK_OVF \<equiv> Kstat 1200"
abbreviation "RHINO_INTRPT_STACK_OVF \<equiv> Kstat 1201"

section \<open>Task and blocking states\<close>

datatype task_stat_t =
    K_SEED | K_RDY | K_PEND | K_SUSPENDED | K_PEND_SUSPENDED | K_SLEEP
  | K_SLEEP_SUSPENDED | K_DELETED

datatype blk_policy_t = BLK_POLICY_PRI | BLK_POLICY_FIFO

datatype blk_state_t = BLK_FINISH | BLK_ABORT | BLK_TIMEOUT | BLK_DEL | BLK_INVALID

datatype kobj_type_t =
    RHINO_OBJ_TYPE_NONE | RHINO_SEM_OBJ_TYPE | RHINO_MUTEX_OBJ_TYPE | RHINO_QUEUE_OBJ_TYPE
  | RHINO_BUF_QUEUE_OBJ_TYPE | RHINO_TIMER_OBJ_TYPE | RHINO_EVENT_OBJ_TYPE
  | RHINO_MM_OBJ_TYPE

datatype sched_policy_t = KSCHED_FIFO | KSCHED_RR

datatype alloc_flag_t = K_OBJ_NO_ALLOC | K_OBJ_STATIC_ALLOC | K_OBJ_DYN_ALLOC

section \<open>Configuration\<close>

abbreviation RHINO_CONFIG_PRI_MAX :: nat where "RHINO_CONFIG_PRI_MAX \<equiv> 62"
abbreviation RHINO_IDLE_PRI :: nat where "RHINO_IDLE_PRI \<equiv> 61"
abbreviation NUM_WORDS :: nat where "NUM_WORDS \<equiv> 2"
abbreviation SCHED_MAX_LOCK_COUNT :: "8 word" where "SCHED_MAX_LOCK_COUNT \<equiv> 200"
abbreviation RHINO_CONFIG_TIME_SLICE_DEFAULT :: "32 word" where
  "RHINO_CONFIG_TIME_SLICE_DEFAULT \<equiv> 50"
abbreviation RHINO_CONFIG_TICKS_PER_SECOND :: nat where "RHINO_CONFIG_TICKS_PER_SECOND \<equiv> 100"
abbreviation RHINO_CONFIG_TASK_INFO_NUM :: nat where "RHINO_CONFIG_TASK_INFO_NUM \<equiv> 2"
abbreviation (input) RHINO_NO_WAIT :: tick_t where "RHINO_NO_WAIT \<equiv> 0"
abbreviation RHINO_WAIT_FOREVER :: tick_t where "RHINO_WAIT_FOREVER \<equiv> - 1"

text \<open>Options of event groups (\<^verbatim>\<open>k_event.h\<close>).\<close>

abbreviation (input) RHINO_FLAGS_AND_MASK :: "8 word" where "RHINO_FLAGS_AND_MASK \<equiv> 2"
abbreviation (input) RHINO_FLAGS_CLEAR_MASK :: "8 word" where "RHINO_FLAGS_CLEAR_MASK \<equiv> 1"
abbreviation (input) RHINO_AND :: "8 word" where "RHINO_AND \<equiv> 2"
abbreviation (input) RHINO_AND_CLEAR :: "8 word" where "RHINO_AND_CLEAR \<equiv> 3"
abbreviation (input) RHINO_OR :: "8 word" where "RHINO_OR \<equiv> 0"
abbreviation (input) RHINO_OR_CLEAR :: "8 word" where "RHINO_OR_CLEAR \<equiv> 1"

end
