(* ===== verification/Bitmap.thy ===== *)
theory Bitmap
  imports Rhino_Prelude
begin

unbundle bit_operations_syntax

text \<open>
  The priority bitmap of \<^verbatim>\<open>k_bitmap.h\<close>: one bit per priority, most significant bit first,
  in an array of 32-bit words, with the software search for the first set bit
  (\<^verbatim>\<open>RHINO_CONFIG_BITMAP_HW\<close> is 0, its default) and the two counting routines the
  allocator uses. The lemmas show that setting and clearing change exactly one bit, that
  the two binary searches count leading and trailing zeros, and that the search returns
  the smallest set position.
\<close>

section \<open>Operations\<close>

definition BITMAP_UNIT_SIZE :: nat where "BITMAP_UNIT_SIZE = 32"

definition BITMAP_MASK :: "nat \<Rightarrow> 32 word" where
  "BITMAP_MASK nr = push_bit (BITMAP_UNIT_SIZE - 1 - nr mod 32) 1"

definition BITMAP_WORD :: "nat \<Rightarrow> nat" where
  "BITMAP_WORD nr = nr div 2 ^ 5"

text \<open>An access past the array is undefined in C; the callers pass positions inside it.\<close>

definition krhino_bitmap_set :: "32 word list \<Rightarrow> nat \<Rightarrow> 32 word list" where
  "krhino_bitmap_set bitmap nr =
     bitmap[BITMAP_WORD nr := bitmap ! BITMAP_WORD nr OR BITMAP_MASK nr]"

definition krhino_bitmap_clear :: "32 word list \<Rightarrow> nat \<Rightarrow> 32 word list" where
  "krhino_bitmap_clear bitmap nr =
     bitmap[BITMAP_WORD nr := bitmap ! BITMAP_WORD nr AND NOT (BITMAP_MASK nr)]"

definition krhino_clz32 :: "32 word \<Rightarrow> nat" where
  "krhino_clz32 x =
     (if x = 0 then 32
      else
       let n = 0;
           (x, n) = (if x AND 0xFFFF0000 = 0 then (push_bit 16 x, n + 16) else (x, n));
           (x, n) = (if x AND 0xFF000000 = 0 then (push_bit 8 x, n + 8) else (x, n));
           (x, n) = (if x AND 0xF0000000 = 0 then (push_bit 4 x, n + 4) else (x, n));
           (x, n) = (if x AND 0xC0000000 = 0 then (push_bit 2 x, n + 2) else (x, n));
           n = (if x AND 0x80000000 = 0 then n + 1 else n)
       in n)"

definition krhino_ctz32 :: "32 word \<Rightarrow> nat" where
  "krhino_ctz32 x =
     (if x = 0 then 32
      else
       let n = 0;
           (x, n) = (if x AND 0x0000FFFF = 0 then (drop_bit 16 x, n + 16) else (x, n));
           (x, n) = (if x AND 0x000000FF = 0 then (drop_bit 8 x, n + 8) else (x, n));
           (x, n) = (if x AND 0x0000000F = 0 then (drop_bit 4 x, n + 4) else (x, n));
           (x, n) = (if x AND 0x00000003 = 0 then (drop_bit 2 x, n + 2) else (x, n));
           n = (if x AND 0x00000001 = 0 then n + 1 else n)
       in n)"

text \<open>
  \<^verbatim>\<open>krhino_find_first_bit\<close>: the loop over zero words, then the same binary search. With no
  bit set the C loop runs past the array; the result is then \<open>None\<close>.
\<close>

fun krhino_find_first_bit_from :: "nat \<Rightarrow> 32 word list \<Rightarrow> nat option" where
  "krhino_find_first_bit_from nr [] = None"
| "krhino_find_first_bit_from nr (w # ws) =
     (if w = 0 then krhino_find_first_bit_from (nr + BITMAP_UNIT_SIZE) ws
      else
       let tmp = w;
           (tmp, nr) = (if tmp AND 0xFFFF0000 = 0 then (push_bit 16 tmp, nr + 16) else (tmp, nr));
           (tmp, nr) = (if tmp AND 0xFF000000 = 0 then (push_bit 8 tmp, nr + 8) else (tmp, nr));
           (tmp, nr) = (if tmp AND 0xF0000000 = 0 then (push_bit 4 tmp, nr + 4) else (tmp, nr));
           (tmp, nr) = (if tmp AND 0xC0000000 = 0 then (push_bit 2 tmp, nr + 2) else (tmp, nr));
           nr = (if tmp AND 0x80000000 = 0 then nr + 1 else nr)
       in Some nr)"

definition krhino_find_first_bit :: "32 word list \<Rightarrow> nat option" where
  "krhino_find_first_bit bitmap = krhino_find_first_bit_from 0 bitmap"

section \<open>One bit\<close>

definition bm_test :: "32 word list \<Rightarrow> nat \<Rightarrow> bool" where
  "bm_test bm p \<longleftrightarrow> p < 32 * length bm \<and> bit (bm ! (p div 32)) (31 - p mod 32)"

lemma bit_BITMAP_MASK: "i < 32 \<Longrightarrow> bit (BITMAP_MASK nr) i \<longleftrightarrow> i = 31 - nr mod 32"
  by (auto simp: BITMAP_MASK_def BITMAP_UNIT_SIZE_def bit_simps)

lemma same_position:
  assumes "p div 32 = (q::nat) div 32"
  shows "31 - p mod 32 = 31 - q mod 32 \<longleftrightarrow> p = q"
proof
  assume "31 - p mod 32 = 31 - q mod 32"
  moreover have "p mod 32 \<le> 31" "q mod 32 \<le> 31" by simp_all
  ultimately have "p mod 32 = q mod 32" by linarith
  with assms show "p = q" by (metis div_mult_mod_eq)
qed simp

lemma length_bitmap [simp]:
  "length (krhino_bitmap_set bm nr) = length bm"
  "length (krhino_bitmap_clear bm nr) = length bm"
  by (simp_all add: krhino_bitmap_set_def krhino_bitmap_clear_def)

lemma bm_test_set:
  assumes "nr < 32 * length bm"
  shows "bm_test (krhino_bitmap_set bm nr) p \<longleftrightarrow> p = nr \<or> bm_test bm p"
proof (cases "p div 32 = nr div 32")
  case True
  with assms show ?thesis
    by (auto simp: bm_test_def krhino_bitmap_set_def BITMAP_WORD_def bit_or_iff bit_BITMAP_MASK
        same_position)
next
  case False
  with assms show ?thesis
    by (auto simp: bm_test_def krhino_bitmap_set_def BITMAP_WORD_def)
qed

lemma bm_test_clear:
  assumes "nr < 32 * length bm"
  shows "bm_test (krhino_bitmap_clear bm nr) p \<longleftrightarrow> p \<noteq> nr \<and> bm_test bm p"
proof (cases "p div 32 = nr div 32")
  case True
  with assms show ?thesis
    by (auto simp: bm_test_def krhino_bitmap_clear_def BITMAP_WORD_def bit_and_iff bit_not_iff
        bit_BITMAP_MASK same_position)
next
  case False
  with assms show ?thesis
    by (auto simp: bm_test_def krhino_bitmap_clear_def BITMAP_WORD_def)
qed

section \<open>Counting zeros\<close>

text \<open>A test of the top bits compares the value with a power of two, a test of the low bits is divisibility.\<close>

lemma top_bits_zero:
  fixes x :: "32 word"
  assumes "k < 32"
  shows "x AND push_bit k (mask (32 - k)) = 0 \<longleftrightarrow> unat x < 2 ^ k"
proof -
  have "bit x i \<Longrightarrow> i < 32" for i
    using bit_imp_le_length [of x i] by simp
  then have "x AND push_bit k (mask (32 - k)) = 0 \<longleftrightarrow> drop_bit k x = 0"
    using assms by (auto simp: bit_eq_iff bit_simps) (metis diff_less_mono le_add1 add_diff_cancel_left')
  also have "\<dots> \<longleftrightarrow> unat x div 2 ^ k = 0"
    by (metis unat_drop_bit_eq drop_bit_eq_div unat_eq_zero)
  also have "\<dots> \<longleftrightarrow> unat x < 2 ^ k" by (simp add: div_eq_0_iff)
  finally show ?thesis .
qed

lemma top_tests:
  fixes x :: "32 word"
  shows "x AND 0xFFFF0000 = 0 \<longleftrightarrow> unat x < 2 ^ 16"
    and "x AND 0xFF000000 = 0 \<longleftrightarrow> unat x < 2 ^ 24"
    and "x AND 0xF0000000 = 0 \<longleftrightarrow> unat x < 2 ^ 28"
    and "x AND 0xC0000000 = 0 \<longleftrightarrow> unat x < 2 ^ 30"
    and "x AND 0x80000000 = 0 \<longleftrightarrow> unat x < 2 ^ 31"
  using top_bits_zero [of 16 x] top_bits_zero [of 24 x] top_bits_zero [of 28 x]
    top_bits_zero [of 30 x] top_bits_zero [of 31 x]
  by (simp_all add: mask_eq_exp_minus_1 push_bit_eq_mult)

lemma unat_push_bit:
  fixes x :: "32 word"
  assumes "unat x < 2 ^ j" and "j + k \<le> 32"
  shows "unat (push_bit k x) = unat x * 2 ^ k"
proof -
  have "unat x * 2 ^ k < 2 ^ j * 2 ^ k" using assms(1) by simp
  also have "\<dots> \<le> 2 ^ 32"
    using power_increasing [OF assms(2), of "2::nat"] by (simp add: power_add)
  finally have lt: "unat x * 2 ^ k < 2 ^ 32" .
  have "unat (push_bit k x) = take_bit 32 (push_bit k (unat x))"
    by (simp add: unsigned_push_bit_eq)
  with lt show ?thesis by (simp add: push_bit_eq_mult take_bit_nat_eq_self)
qed

text \<open>The search shared by \<^verbatim>\<open>krhino_clz32\<close> and \<^verbatim>\<open>krhino_find_first_bit\<close>, from a starting count.\<close>

definition lstep :: "32 word \<Rightarrow> nat \<Rightarrow> 32 word \<times> nat \<Rightarrow> 32 word \<times> nat" where
  "lstep m k xn = (if fst xn AND m = 0 then (push_bit k (fst xn), snd xn + k) else xn)"

definition clz_ladder :: "32 word \<Rightarrow> nat \<Rightarrow> nat" where
  "clz_ladder x n =
     snd (lstep 0x80000000 1 (lstep 0xC0000000 2 (lstep 0xF0000000 4
       (lstep 0xFF000000 8 (lstep 0xFFFF0000 16 (x, n))))))"

lemma lstep_case:
  "(case (if x AND m = 0 then (push_bit k x, n + k) else (x, n)) of (a, b) \<Rightarrow> F a b) =
   F (fst (lstep m k (x, n))) (snd (lstep m k (x, n)))"
  by (simp add: lstep_def)

lemma lstep_last: "(if x AND m = 0 then n + k else n) = snd (lstep m k (x, n))"
  by (simp add: lstep_def)

lemma krhino_clz32_ladder: "x \<noteq> 0 \<Longrightarrow> krhino_clz32 x = clz_ladder x 0"
  by (simp only: krhino_clz32_def clz_ladder_def Let_def lstep_case lstep_last prod.collapse if_False)

lemma krhino_find_first_bit_from_ladder:
  "w \<noteq> 0 \<Longrightarrow> krhino_find_first_bit_from nr (w # ws) = Some (clz_ladder w nr)"
  by (simp only: krhino_find_first_bit_from.simps clz_ladder_def Let_def lstep_case lstep_last
      prod.collapse if_False)

lemma lstep_shift: "lstep m k (apsnd ((+) d) xn) = apsnd ((+) d) (lstep m k xn)"
  by (simp add: lstep_def apsnd_def map_prod_def split_beta)

lemma clz_ladder_shift: "clz_ladder x n = n + clz_ladder x 0"
proof -
  have "(x, n) = apsnd ((+) n) (x, 0)" by simp
  then show ?thesis unfolding clz_ladder_def by (simp only: lstep_shift snd_apsnd)
qed

text \<open>One step of the search: the value keeps its product form and its lower bound doubles up.\<close>

lemma clz_step:
  assumes "\<And>x. x AND m = 0 \<longleftrightarrow> unat x < 2 ^ j" and "xn' = lstep m k xn"
    and "j + k \<le> 32" and "k \<le> j"
    and "unat (fst xn) = v * 2 ^ snd xn" and "2 ^ (j - k) \<le> unat (fst xn)"
  shows "unat (fst xn') = v * 2 ^ snd xn' \<and> 2 ^ j \<le> unat (fst xn')"
proof (cases "fst xn AND m = 0")
  case True
  with assms have "unat (push_bit k (fst xn)) = unat (fst xn) * 2 ^ k"
    by (intro unat_push_bit [of _ j]) auto
  moreover have "2 ^ (j - k) * 2 ^ k \<le> unat (fst xn) * 2 ^ k" using assms(6) by simp
  moreover have "(2::nat) ^ (j - k) * 2 ^ k = 2 ^ j" using assms(4) by (simp flip: power_add)
  ultimately show ?thesis using True assms(2,5) by (simp add: lstep_def power_add)
next
  case False
  with assms show ?thesis by (auto simp: lstep_def not_less)
qed

lemma clz_ladder_bounds:
  assumes "x \<noteq> 0"
  shows "2 ^ 31 \<le> unat x * 2 ^ clz_ladder x 0" and "unat x * 2 ^ clz_ladder x 0 < 2 ^ 32"
proof -
  define s1 where "s1 = lstep 0xFFFF0000 16 (x, 0)"
  define s2 where "s2 = lstep 0xFF000000 8 s1"
  define s3 where "s3 = lstep 0xF0000000 4 s2"
  define s4 where "s4 = lstep 0xC0000000 2 s3"
  define s5 where "s5 = lstep 0x80000000 1 s4"
  from assms have "2 ^ 0 \<le> unat x" using unat_gt_0 [of x] by simp
  then have 1: "unat (fst s1) = unat x * 2 ^ snd s1 \<and> 2 ^ 16 \<le> unat (fst s1)"
    by (intro clz_step [OF top_tests(1) s1_def]) simp_all
  then have 2: "unat (fst s2) = unat x * 2 ^ snd s2 \<and> 2 ^ 24 \<le> unat (fst s2)"
    by (intro clz_step [OF top_tests(2) s2_def]) simp_all
  then have 3: "unat (fst s3) = unat x * 2 ^ snd s3 \<and> 2 ^ 28 \<le> unat (fst s3)"
    by (intro clz_step [OF top_tests(3) s3_def]) simp_all
  then have 4: "unat (fst s4) = unat x * 2 ^ snd s4 \<and> 2 ^ 30 \<le> unat (fst s4)"
    by (intro clz_step [OF top_tests(4) s4_def]) simp_all
  then have 5: "unat (fst s5) = unat x * 2 ^ snd s5 \<and> 2 ^ 31 \<le> unat (fst s5)"
    by (intro clz_step [OF top_tests(5) s5_def]) simp_all
  have "clz_ladder x 0 = snd s5"
    by (simp only: clz_ladder_def s5_def s4_def s3_def s2_def s1_def)
  moreover have "unat (fst s5) < 2 ^ 32"
    by (rule order_less_le_trans [OF unsigned_less]) simp
  ultimately show "2 ^ 31 \<le> unat x * 2 ^ clz_ladder x 0"
    and "unat x * 2 ^ clz_ladder x 0 < 2 ^ 32" using 5 by simp_all
qed

lemma bit_word_unat: "bit w n \<longleftrightarrow> odd (unat w div 2 ^ n)"
proof -
  have "bit w n \<longleftrightarrow> bit (unat w) n" by (simp add: bit_unsigned_iff)
  then show ?thesis by (simp add: bit_iff_odd)
qed

text \<open>Product bounds give the position of the highest set bit.\<close>

lemma top_bit_position:
  fixes x :: "32 word"
  assumes "2 ^ 31 \<le> unat x * 2 ^ n" and "unat x * 2 ^ n < 2 ^ 32"
  shows "n < 32" and "bit x (31 - n)" and "\<And>i. 31 - n < i \<Longrightarrow> \<not> bit x i"
proof -
  have pos: "0 < unat x" using assms(1) by (cases "unat x") auto
  show n: "n < 32"
  proof (rule ccontr)
    assume "\<not> n < 32"
    then have "(2::nat) ^ 32 \<le> 2 ^ n" by (intro power_increasing) simp_all
    also have "\<dots> \<le> unat x * 2 ^ n" using pos by simp
    finally show False using assms(2) by simp
  qed
  have e: "(2::nat) ^ 31 = 2 ^ (31 - n) * 2 ^ n" "(2::nat) ^ 32 = 2 ^ (32 - n) * 2 ^ n"
    using n by (simp_all flip: power_add)
  have lo: "2 ^ (31 - n) \<le> unat x"
    using assms(1) unfolding e(1) by (simp only: mult_le_cancel2) simp
  have hi: "unat x < 2 ^ (32 - n)"
    using assms(2) unfolding e(2) by (simp only: mult_less_cancel2)
  have "32 - n = Suc (31 - n)" using n by simp
  with lo hi have "unat x div 2 ^ (31 - n) = 1"
    by (intro div_nat_eqI) simp_all
  then show "bit x (31 - n)"
    by (simp add: bit_word_unat)
  fix i assume "31 - n < i"
  then have "(2::nat) ^ (32 - n) \<le> 2 ^ i" using n by (intro power_increasing) auto
  with hi have "unat x < 2 ^ i" by (rule order_less_le_trans)
  then have "unat x div 2 ^ i = 0" by simp
  then show "\<not> bit x i"
    by (simp add: bit_word_unat)
qed

lemma clz_ladder_top_bit:
  assumes "x \<noteq> 0"
  shows "clz_ladder x 0 < 32" and "bit x (31 - clz_ladder x 0)"
    and "\<And>i. 31 - clz_ladder x 0 < i \<Longrightarrow> \<not> bit x i"
  using top_bit_position [OF clz_ladder_bounds [OF assms]] by blast+

text \<open>The trailing-zero search: the value stays the original divided by the power already counted.\<close>

definition rstep :: "32 word \<Rightarrow> nat \<Rightarrow> 32 word \<times> nat \<Rightarrow> 32 word \<times> nat" where
  "rstep m k xn = (if fst xn AND m = 0 then (drop_bit k (fst xn), snd xn + k) else xn)"

lemma rstep_case:
  "(case (if x AND m = 0 then (drop_bit k x, n + k) else (x, n)) of (a, b) \<Rightarrow> F a b) =
   F (fst (rstep m k (x, n))) (snd (rstep m k (x, n)))"
  by (simp add: rstep_def)

lemma rstep_last: "(if x AND m = 0 then n + k else n) = snd (rstep m k (x, n))"
  by (simp add: rstep_def)

lemma low_bits_zero:
  fixes x :: "32 word"
  shows "x AND mask k = 0 \<longleftrightarrow> 2 ^ k dvd unat x"
proof -
  have "x AND mask k = 0 \<longleftrightarrow> unat (take_bit k x) = 0"
    by (simp only: take_bit_eq_mask unat_eq_zero)
  also have "\<dots> \<longleftrightarrow> unat x mod 2 ^ k = 0"
    by (simp only: unsigned_take_bit_eq) (simp add: take_bit_eq_mod)
  finally show ?thesis by (simp add: dvd_eq_mod_eq_0)
qed

lemma low_tests:
  fixes x :: "32 word"
  shows "x AND 0x0000FFFF = 0 \<longleftrightarrow> 2 ^ 16 dvd unat x"
    and "x AND 0x000000FF = 0 \<longleftrightarrow> 2 ^ 8 dvd unat x"
    and "x AND 0x0000000F = 0 \<longleftrightarrow> 2 ^ 4 dvd unat x"
    and "x AND 0x00000003 = 0 \<longleftrightarrow> 2 ^ 2 dvd unat x"
    and "x AND 0x00000001 = 0 \<longleftrightarrow> 2 ^ 1 dvd unat x"
  using low_bits_zero [of x 16] low_bits_zero [of x 8] low_bits_zero [of x 4]
    low_bits_zero [of x 2] low_bits_zero [of x 1]
  by (simp_all add: mask_eq_exp_minus_1)

lemma ctz_step:
  assumes "\<And>x. x AND m = 0 \<longleftrightarrow> 2 ^ k dvd unat x" and "xn' = rstep m k xn"
    and "v = unat (fst xn) * 2 ^ snd xn" and "\<not> 2 ^ (k + k) dvd unat (fst xn)"
  shows "v = unat (fst xn') * 2 ^ snd xn' \<and> \<not> 2 ^ k dvd unat (fst xn')"
proof (cases "fst xn AND m = 0")
  case True
  then obtain w where w: "unat (fst xn) = 2 ^ k * w" using assms(1) by (auto elim: dvdE)
  then have "unat (drop_bit k (fst xn)) = w"
    by (simp only: unat_drop_bit_eq) (simp add: drop_bit_eq_div)
  moreover have "\<not> 2 ^ k dvd w" using assms(4) w by (auto simp: power_add)
  ultimately show ?thesis using True w assms(2,3) by (simp add: rstep_def power_add)
next
  case False
  with assms show ?thesis by (auto simp: rstep_def)
qed

lemma krhino_ctz32_decomp:
  assumes "x \<noteq> 0"
  shows "\<exists>w. unat x = w * 2 ^ krhino_ctz32 x \<and> odd w"
proof -
  define s1 where "s1 = rstep 0x0000FFFF 16 (x, 0)"
  define s2 where "s2 = rstep 0x000000FF 8 s1"
  define s3 where "s3 = rstep 0x0000000F 4 s2"
  define s4 where "s4 = rstep 0x00000003 2 s3"
  define s5 where "s5 = rstep 0x00000001 1 s4"
  have "0 < unat x" using assms unat_gt_0 [of x] by simp
  moreover have "unat x < 2 ^ 32"
    by (rule order_less_le_trans [OF unsigned_less]) simp
  ultimately have 0: "\<not> 2 ^ (16 + 16) dvd unat x" using nat_dvd_not_less by auto
  have 1: "unat x = unat (fst s1) * 2 ^ snd s1 \<and> \<not> 2 ^ 16 dvd unat (fst s1)"
    by (rule ctz_step [OF low_tests(1) s1_def]) (use 0 in simp_all)
  have 2: "unat x = unat (fst s2) * 2 ^ snd s2 \<and> \<not> 2 ^ 8 dvd unat (fst s2)"
    by (rule ctz_step [OF low_tests(2) s2_def]) (use 1 in simp_all)
  have 3: "unat x = unat (fst s3) * 2 ^ snd s3 \<and> \<not> 2 ^ 4 dvd unat (fst s3)"
    by (rule ctz_step [OF low_tests(3) s3_def]) (use 2 in simp_all)
  have 4: "unat x = unat (fst s4) * 2 ^ snd s4 \<and> \<not> 2 ^ 2 dvd unat (fst s4)"
    by (rule ctz_step [OF low_tests(4) s4_def]) (use 3 in simp_all)
  have 5: "unat x = unat (fst s5) * 2 ^ snd s5 \<and> \<not> 2 ^ 1 dvd unat (fst s5)"
    by (rule ctz_step [OF low_tests(5) s5_def]) (use 4 in simp_all)
  have "krhino_ctz32 x = snd s5"
    using assms by (simp only: krhino_ctz32_def Let_def rstep_case rstep_last prod.collapse
        s5_def s4_def s3_def s2_def s1_def if_False)
  with 5 show ?thesis by auto
qed

lemma krhino_ctz32_low_bit:
  assumes "x \<noteq> 0"
  shows "bit x (krhino_ctz32 x)" and "\<And>i. i < krhino_ctz32 x \<Longrightarrow> \<not> bit x i"
proof -
  obtain w where w: "unat x = w * 2 ^ krhino_ctz32 x" "odd w"
    using krhino_ctz32_decomp [OF assms] by blast
  show "bit x (krhino_ctz32 x)" using w by (simp add: bit_word_unat)
  fix i assume i: "i < krhino_ctz32 x"
  then obtain d where "krhino_ctz32 x = Suc (i + d)" using less_imp_Suc_add by blast
  then have "unat x = (2 * (w * 2 ^ d)) * 2 ^ i"
    using w(1) by (simp add: power_add)
  then show "\<not> bit x i" by (simp add: bit_word_unat)
qed

section \<open>The first set bit\<close>

lemma bm_test_Cons:
  "bm_test (w # ws) q \<longleftrightarrow> (if q < 32 then bit w (31 - q) else bm_test ws (q - 32))"
proof (cases "q < 32")
  case False
  then obtain r where "q = 32 + r" by (metis not_less le_Suc_ex)
  moreover have "(32 + r) div 32 = Suc (r div 32)" using div_add_self1 [of 32 r] by simp
  ultimately show ?thesis by (simp add: bm_test_def)
qed (simp add: bm_test_def)

lemma find_first_from:
  "krhino_find_first_bit_from nr bm = Some p \<Longrightarrow>
   nr \<le> p \<and> bm_test bm (p - nr) \<and> (\<forall>q < p - nr. \<not> bm_test bm q)"
  "krhino_find_first_bit_from nr bm = None \<Longrightarrow> \<not> bm_test bm q"
proof (induction bm arbitrary: nr p q)
  case Nil
  { case 1 then show ?case by simp next
    case 2 then show ?case by (simp add: bm_test_def) }
next
  case (Cons w ws)
  { case 1
    show ?case
    proof (cases "w = 0")
      case True
      with 1 Cons.IH(1) [of "nr + 32" p] have ih: "nr + 32 \<le> p" "bm_test ws (p - nr - 32)"
        "\<forall>q < p - nr - 32. \<not> bm_test ws q" by (simp_all add: BITMAP_UNIT_SIZE_def)
      then show ?thesis using True by (auto simp: bm_test_Cons)
    next
      case False
      with 1 have p: "p = nr + clz_ladder w 0"
        using krhino_find_first_bit_from_ladder [OF False, of nr ws] clz_ladder_shift [of w nr]
        by (simp only: option.inject)
      have "\<not> bit w (31 - q)" if "q < clz_ladder w 0" for q
        using clz_ladder_top_bit(1,3) [OF False] that by auto
      then show ?thesis
        using clz_ladder_top_bit(1,2) [OF False] by (auto simp: p bm_test_Cons)
    qed
  next
    case 2
    show ?case
    proof (cases "w = 0")
      case True
      with 2 Cons.IH(2) [of "nr + 32"] show ?thesis by (auto simp: bm_test_Cons BITMAP_UNIT_SIZE_def)
    next
      case False
      with 2 show ?thesis
        using krhino_find_first_bit_from_ladder [OF False, of nr ws] by (simp only: option.distinct)
    qed }
qed

lemma krhino_find_first_bit_Some:
  "krhino_find_first_bit bm = Some p \<longleftrightarrow> bm_test bm p \<and> (\<forall>q<p. \<not> bm_test bm q)"
proof
  assume "krhino_find_first_bit bm = Some p"
  then show "bm_test bm p \<and> (\<forall>q<p. \<not> bm_test bm q)"
    using find_first_from(1) [of 0 bm p] by (simp add: krhino_find_first_bit_def)
next
  assume p: "bm_test bm p \<and> (\<forall>q<p. \<not> bm_test bm q)"
  then obtain p' where p': "krhino_find_first_bit bm = Some p'"
    using find_first_from(2) [of 0 bm p] by (cases "krhino_find_first_bit bm")
      (auto simp: krhino_find_first_bit_def)
  then have "bm_test bm p'" "\<forall>q<p'. \<not> bm_test bm q"
    using find_first_from(1) [of 0 bm p'] by (simp_all add: krhino_find_first_bit_def)
  with p have "p' = p" by (meson linorder_neqE_nat)
  with p' show "krhino_find_first_bit bm = Some p" by simp
qed

lemma krhino_find_first_bit_None:
  "krhino_find_first_bit bm = None \<longleftrightarrow> (\<forall>q. \<not> bm_test bm q)"
proof (cases "krhino_find_first_bit bm")
  case None
  then show ?thesis using find_first_from(2) [of 0 bm] by (simp add: krhino_find_first_bit_def)
next
  case (Some p)
  then show ?thesis using krhino_find_first_bit_Some [of bm p] by auto
qed

section \<open>Properties\<close>

text \<open>
  C30: the search returns the first set position of the bitmap, and fails exactly when no
  bit is set.
\<close>

theorem find_first_bit_least:
  "case krhino_find_first_bit bm of
     Some p \<Rightarrow> bm_test bm p \<and> (\<forall>q. bm_test bm q \<longrightarrow> p \<le> q)
   | None \<Rightarrow> (\<forall>q. \<not> bm_test bm q)"
  using krhino_find_first_bit_Some [of bm] krhino_find_first_bit_None [of bm]
  by (auto split: option.splits simp: not_le [symmetric])

theorem find_first_bit_least_witness:
  "krhino_find_first_bit [0, 0x40000001] = Some 33 \<and> bm_test [0, 0x40000001] 33 \<and>
   bm_test [0, 0x40000001] 63 \<and> 33 \<le> (63::nat)"
proof -
  have "krhino_find_first_bit [0, 0x40000001] = Some 33"
    by (simp add: krhino_find_first_bit_def BITMAP_UNIT_SIZE_def)
  moreover have "bm_test [0, 0x40000001] 63" by (simp add: bm_test_def)
  ultimately show ?thesis using find_first_bit_least [of "[0, 0x40000001]"] by simp
qed

text \<open>
  C38: Counting zeros. For a word that is not zero, the number of leading zeros names the
  highest bit that is set, the number of trailing zeros the lowest one.
\<close>

theorem count_zeros:
  assumes "x \<noteq> 0"
  shows "bit x (31 - krhino_clz32 x) \<and> (\<forall>i. bit x i \<longrightarrow> krhino_ctz32 x \<le> i \<and> i \<le> 31 - krhino_clz32 x) \<and>
    bit x (krhino_ctz32 x)"
  using krhino_ctz32_low_bit [OF assms] clz_ladder_top_bit [OF assms]
  unfolding krhino_clz32_ladder [OF assms] by (meson not_le)

theorem count_zeros_witness: "bit (0x00f0 :: 32 word) (31 - krhino_clz32 0x00f0) \<and> krhino_ctz32 0x00f0 \<le> 5"
  using count_zeros [of "0x00f0"] by simp

end
