(* ===== verification/Kernel_State.thy ===== *)
theory Kernel_State
  imports Kernel_Types Ringbuf Bitmap
begin

text \<open>
  The kernel's state: the control blocks of tasks and kernel objects (\<^verbatim>\<open>k_task.h\<close>, \<^verbatim>\<open>k_obj.h\<close>,
  \<^verbatim>\<open>k_sem.h\<close>, \<^verbatim>\<open>k_mutex.h\<close>, \<^verbatim>\<open>k_event.h\<close>, \<^verbatim>\<open>k_queue.h\<close>, \<^verbatim>\<open>k_buf_queue.h\<close>) in typed heaps, the
  globals of \<^verbatim>\<open>k_obj.c\<close>, and the processor's interrupt mask. A doubly linked list is the
  sequence of its nodes' owners (theory \<open>Klist\<close> relates the two). The critical sections,
  the error hook and the update functions of the heaps are here too.
\<close>

section \<open>Control blocks\<close>

text \<open>
  The fields of \<^verbatim>\<open>ktask_t\<close> that the modelled configuration has. \<open>time_slice_cnt\<close> is the field
  \<^verbatim>\<open>time_slice\<close>; \<open>tick_head\<close> says whether the pointer \<^verbatim>\<open>tick_head\<close> is set; \<open>mutex_list\<close> is the
  list that starts at the field \<^verbatim>\<open>mutex_list\<close> and is linked through the mutexes.
\<close>

record ktask_t =
  task_stack :: ptr
  task_name :: ptr
  user_info :: "ptr list"
  task_stack_base :: ptr
  stack_size :: size_t
  suspend_count :: nat
  mutex_list :: "ptr list"
  tick_match :: tick_t
  tick_remain :: tick_t
  tick_head :: bool
  msg :: ptr
  bq_msg_size :: size_t
  task_state :: task_stat_t
  blk_state :: blk_state_t
  blk_obj :: ptr
  task_sem_obj :: ptr
  time_slice_cnt :: "32 word"
  time_total :: "32 word"
  pend_flags :: "32 word"
  pend_info :: ptr
  pend_option :: "8 word"
  sched_policy :: sched_policy_t
  cpu_num :: nat
  prio :: nat
  b_prio :: nat
  mm_alloc_flag :: alloc_flag_t

text \<open>All fields zero, as \<^verbatim>\<open>memset\<close> leaves them.\<close>

definition zero_task :: ktask_t where
  "zero_task = \<lparr>task_stack = NULL, task_name = NULL, user_info = [NULL, NULL],
     task_stack_base = NULL, stack_size = 0, suspend_count = 0, mutex_list = [],
     tick_match = 0, tick_remain = 0, tick_head = False, msg = NULL, bq_msg_size = 0,
     task_state = K_SEED, blk_state = BLK_FINISH, blk_obj = NULL, task_sem_obj = NULL,
     time_slice_cnt = 0, time_total = 0, pend_flags = 0, pend_info = NULL, pend_option = 0,
     sched_policy = KSCHED_FIFO, cpu_num = 0, prio = 0, b_prio = 0,
     mm_alloc_flag = K_OBJ_NO_ALLOC\<rparr>"

record blk_obj_t =
  blk_list :: "ptr list"
  obj_name :: ptr
  blk_policy :: blk_policy_t
  obj_type :: kobj_type_t

record ksem_t =
  sem_count :: nat
  peak_count :: nat
  sem_alloc_flag :: alloc_flag_t

record kmutex_t =
  mutex_task :: ptr
  owner_nested :: nat
  mutex_alloc_flag :: alloc_flag_t

record kevent_t =
  event_flags :: "32 word"
  event_alloc_flag :: alloc_flag_t

record msg_q_t =
  queue_start :: ptr
  msg_size :: nat
  cur_num :: nat
  peak_num :: nat

record kqueue_t =
  q_ringbuf :: k_ringbuf_t
  msg_q :: msg_q_t
  queue_alloc_flag :: alloc_flag_t

record kbuf_queue_t =
  bq_buf :: ptr
  bq_ringbuf :: k_ringbuf_t
  max_msg_size :: nat
  bq_cur_num :: nat
  bq_peak_num :: nat
  min_free_buf_size :: nat
  bq_alloc_flag :: alloc_flag_t

section \<open>Globals\<close>

text \<open>
  A ready ring is the sequence of its tasks seen from \<^verbatim>\<open>cur_list_item[prio]\<close>; the empty
  sequence is the null pointer.
\<close>

record runqueue_t =
  cur_list_item :: "nat \<Rightarrow> ptr list"
  task_bit_map :: "32 word list"
  highest_pri :: nat

record kobj_list_t =
  task_head :: "ptr list"
  mutex_head :: "ptr list"
  sem_head :: "ptr list"
  queue_head :: "ptr list"
  event_head :: "ptr list"
  buf_queue_head :: "ptr list"

text \<open>
  What the port to a processor provides and this repository does not contain: the largest
  values of three counter types and the initial stack layout.
\<close>

record port_t =
  sem_count_max :: nat
  suspend_nested_max :: nat
  mutex_nested_max :: nat
  cpu_task_stack_init :: "ptr \<Rightarrow> size_t \<Rightarrow> ptr \<Rightarrow> ptr \<Rightarrow> ptr"

record kernel =
  g_sys_stat :: kstat_t
  g_idle_task_spawned :: bool
  g_ready_queue :: runqueue_t
  g_sched_lock :: "8 word"
  g_intrpt_nested_level :: "8 word"
  g_preferred_ready_task :: ptr
  g_active_task :: ptr
  g_idle_task :: ptr
  g_tick_count :: tick_t
  g_tick_head :: "ptr list"
  g_kobj_list :: kobj_list_t
  tasks :: "ptr \<Rightarrow> ktask_t"
  blks :: "ptr \<Rightarrow> blk_obj_t"
  sems :: "ptr \<Rightarrow> ksem_t"
  mutexes :: "ptr \<Rightarrow> kmutex_t"
  events :: "ptr \<Rightarrow> kevent_t"
  queues :: "ptr \<Rightarrow> kqueue_t"
  buf_queues :: "ptr \<Rightarrow> kbuf_queue_t"
  mem :: memory
  outs :: "ptr \<Rightarrow> nat"
  irq_off :: bool
  cpu_switch :: bool
  k_errs :: "kstat_t list"
  ub :: bool
  port :: port_t

text \<open>
  \<open>mem\<close> is the byte memory of messages and queue buffers and \<open>outs\<close> the variables that
  results are written to through pointer arguments. \<open>irq_off\<close> is the processor's interrupt
  mask, \<open>cpu_switch\<close> records that \<^verbatim>\<open>cpu_task_switch\<close> or \<^verbatim>\<open>cpu_intrpt_switch\<close> was called and the
  processor has not switched yet, \<open>k_errs\<close> the calls of \<^verbatim>\<open>k_err_proc\<close>, and \<open>ub\<close> that the C
  code dereferenced a null pointer or read past an array.
\<close>

section \<open>Updating one control block\<close>

definition upd_task :: "ptr \<Rightarrow> (ktask_t \<Rightarrow> ktask_t) \<Rightarrow> kernel \<Rightarrow> kernel" where
  "upd_task t f s = s\<lparr>tasks := (tasks s)(t := f (tasks s t))\<rparr>"

definition upd_blk :: "ptr \<Rightarrow> (blk_obj_t \<Rightarrow> blk_obj_t) \<Rightarrow> kernel \<Rightarrow> kernel" where
  "upd_blk b f s = s\<lparr>blks := (blks s)(b := f (blks s b))\<rparr>"

definition upd_sem :: "ptr \<Rightarrow> (ksem_t \<Rightarrow> ksem_t) \<Rightarrow> kernel \<Rightarrow> kernel" where
  "upd_sem p f s = s\<lparr>sems := (sems s)(p := f (sems s p))\<rparr>"

definition upd_mutex :: "ptr \<Rightarrow> (kmutex_t \<Rightarrow> kmutex_t) \<Rightarrow> kernel \<Rightarrow> kernel" where
  "upd_mutex p f s = s\<lparr>mutexes := (mutexes s)(p := f (mutexes s p))\<rparr>"

definition upd_event :: "ptr \<Rightarrow> (kevent_t \<Rightarrow> kevent_t) \<Rightarrow> kernel \<Rightarrow> kernel" where
  "upd_event p f s = s\<lparr>events := (events s)(p := f (events s p))\<rparr>"

definition upd_queue :: "ptr \<Rightarrow> (kqueue_t \<Rightarrow> kqueue_t) \<Rightarrow> kernel \<Rightarrow> kernel" where
  "upd_queue p f s = s\<lparr>queues := (queues s)(p := f (queues s p))\<rparr>"

definition upd_buf_queue :: "ptr \<Rightarrow> (kbuf_queue_t \<Rightarrow> kbuf_queue_t) \<Rightarrow> kernel \<Rightarrow> kernel" where
  "upd_buf_queue p f s = s\<lparr>buf_queues := (buf_queues s)(p := f (buf_queues s p))\<rparr>"

definition upd_rq :: "(runqueue_t \<Rightarrow> runqueue_t) \<Rightarrow> kernel \<Rightarrow> kernel" where
  "upd_rq f s = s\<lparr>g_ready_queue := f (g_ready_queue s)\<rparr>"

definition upd_kobj :: "(kobj_list_t \<Rightarrow> kobj_list_t) \<Rightarrow> kernel \<Rightarrow> kernel" where
  "upd_kobj f s = s\<lparr>g_kobj_list := f (g_kobj_list s)\<rparr>"

definition set_out :: "ptr \<Rightarrow> nat \<Rightarrow> kernel \<Rightarrow> kernel" where
  "set_out p v s = s\<lparr>outs := (outs s)(p := v)\<rparr>"

section \<open>Errors and critical sections\<close>

text \<open>\<^verbatim>\<open>k_err_proc\<close> calls the error hook a port may install; the model keeps the calls.\<close>

definition k_err_proc :: "kstat_t \<Rightarrow> kernel \<Rightarrow> kernel" where
  "k_err_proc err s = s\<lparr>k_errs := k_errs s @ [err]\<rparr>"

definition undefined_behaviour :: "kernel \<Rightarrow> kernel" where
  "undefined_behaviour s = s\<lparr>ub := True\<rparr>"

text \<open>The macros save the interrupt mask in a local variable, \<^verbatim>\<open>cpsr\<close>, and restore it from there.\<close>

definition RHINO_CRITICAL_ENTER :: "kernel \<Rightarrow> kernel" where
  "RHINO_CRITICAL_ENTER s = s\<lparr>irq_off := True\<rparr>"

definition RHINO_CRITICAL_EXIT :: "bool \<Rightarrow> kernel \<Rightarrow> kernel" where
  "RHINO_CRITICAL_EXIT cpsr s = s\<lparr>irq_off := cpsr\<rparr>"

section \<open>What the internal operations leave alone\<close>

text \<open>
  The part of the state that the list-level operations (ready lists, tick list, blocking,
  priority changes) never write. One equation \<open>env s' = env s\<close> stands for an equation for
  each of these fields.
\<close>

definition env :: "kernel \<Rightarrow> _" where
  "env s = (g_sys_stat s, g_idle_task_spawned s, g_sched_lock s, g_intrpt_nested_level s,
     g_active_task s, g_idle_task s, g_tick_count s, sems s,
     events s, queues s, buf_queues s, mem s,
     outs s, irq_off s, cpu_switch s, port s)"

lemma env_sel:
  assumes "env s' = env s"
  shows "g_sys_stat s' = g_sys_stat s"
    and "g_idle_task_spawned s' = g_idle_task_spawned s"
    and "g_sched_lock s' = g_sched_lock s"
    and "g_intrpt_nested_level s' = g_intrpt_nested_level s"
    and "g_active_task s' = g_active_task s"
    and "g_idle_task s' = g_idle_task s"
    and "g_tick_count s' = g_tick_count s"
    and "sems s' = sems s"
    and "events s' = events s"
    and "queues s' = queues s"
    and "buf_queues s' = buf_queues s"
    and "mem s' = mem s"
    and "outs s' = outs s"
    and "irq_off s' = irq_off s"
    and "cpu_switch s' = cpu_switch s"
    and "port s' = port s"
  using assms by (simp_all add: env_def)

lemma upd_task_env: "env (upd_task t f s) = env s"
  by (simp add: env_def upd_task_def)

lemmas upd_task_env_sel [simp] = env_sel [OF upd_task_env]

lemma upd_task_sel [simp]:
  "tasks (upd_task t f s) = (tasks s)(t := f (tasks s t))"
  "g_preferred_ready_task (upd_task t f s) = g_preferred_ready_task s"
  "g_ready_queue (upd_task t f s) = g_ready_queue s"
  "g_tick_head (upd_task t f s) = g_tick_head s"
  "g_kobj_list (upd_task t f s) = g_kobj_list s"
  "blks (upd_task t f s) = blks s"
  "mutexes (upd_task t f s) = mutexes s"
  "k_errs (upd_task t f s) = k_errs s"
  "ub (upd_task t f s) = ub s"
  by (simp_all add: upd_task_def)

lemma upd_blk_env: "env (upd_blk t f s) = env s"
  by (simp add: env_def upd_blk_def)

lemmas upd_blk_env_sel [simp] = env_sel [OF upd_blk_env]

lemma upd_blk_sel [simp]:
  "blks (upd_blk t f s) = (blks s)(t := f (blks s t))"
  "g_preferred_ready_task (upd_blk t f s) = g_preferred_ready_task s"
  "g_ready_queue (upd_blk t f s) = g_ready_queue s"
  "g_tick_head (upd_blk t f s) = g_tick_head s"
  "g_kobj_list (upd_blk t f s) = g_kobj_list s"
  "tasks (upd_blk t f s) = tasks s"
  "mutexes (upd_blk t f s) = mutexes s"
  "k_errs (upd_blk t f s) = k_errs s"
  "ub (upd_blk t f s) = ub s"
  by (simp_all add: upd_blk_def)

lemma upd_mutex_env: "env (upd_mutex t f s) = env s"
  by (simp add: env_def upd_mutex_def)

lemmas upd_mutex_env_sel [simp] = env_sel [OF upd_mutex_env]

lemma upd_mutex_sel [simp]:
  "mutexes (upd_mutex t f s) = (mutexes s)(t := f (mutexes s t))"
  "g_preferred_ready_task (upd_mutex t f s) = g_preferred_ready_task s"
  "g_ready_queue (upd_mutex t f s) = g_ready_queue s"
  "g_tick_head (upd_mutex t f s) = g_tick_head s"
  "g_kobj_list (upd_mutex t f s) = g_kobj_list s"
  "tasks (upd_mutex t f s) = tasks s"
  "blks (upd_mutex t f s) = blks s"
  "k_errs (upd_mutex t f s) = k_errs s"
  "ub (upd_mutex t f s) = ub s"
  by (simp_all add: upd_mutex_def)

lemma upd_rq_env: "env (upd_rq f s) = env s"
  by (simp add: env_def upd_rq_def)

lemmas upd_rq_env_sel [simp] = env_sel [OF upd_rq_env]

lemma upd_rq_sel [simp]:
  "g_ready_queue (upd_rq f s) = f (g_ready_queue s)"
  "g_preferred_ready_task (upd_rq f s) = g_preferred_ready_task s"
  "g_tick_head (upd_rq f s) = g_tick_head s"
  "g_kobj_list (upd_rq f s) = g_kobj_list s"
  "tasks (upd_rq f s) = tasks s"
  "blks (upd_rq f s) = blks s"
  "mutexes (upd_rq f s) = mutexes s"
  "k_errs (upd_rq f s) = k_errs s"
  "ub (upd_rq f s) = ub s"
  by (simp_all add: upd_rq_def)

lemma upd_kobj_env: "env (upd_kobj f s) = env s"
  by (simp add: env_def upd_kobj_def)

lemmas upd_kobj_env_sel [simp] = env_sel [OF upd_kobj_env]

lemma upd_kobj_sel [simp]:
  "g_kobj_list (upd_kobj f s) = f (g_kobj_list s)"
  "g_preferred_ready_task (upd_kobj f s) = g_preferred_ready_task s"
  "g_ready_queue (upd_kobj f s) = g_ready_queue s"
  "g_tick_head (upd_kobj f s) = g_tick_head s"
  "tasks (upd_kobj f s) = tasks s"
  "blks (upd_kobj f s) = blks s"
  "mutexes (upd_kobj f s) = mutexes s"
  "k_errs (upd_kobj f s) = k_errs s"
  "ub (upd_kobj f s) = ub s"
  by (simp_all add: upd_kobj_def)

lemma k_err_proc_env: "env (k_err_proc e s) = env s"
  by (simp add: env_def k_err_proc_def)

lemmas k_err_proc_env_sel [simp] = env_sel [OF k_err_proc_env]

lemma k_err_proc_sel [simp]:
  "k_errs (k_err_proc e s) = k_errs s @ [e]"
  "g_preferred_ready_task (k_err_proc e s) = g_preferred_ready_task s"
  "g_ready_queue (k_err_proc e s) = g_ready_queue s"
  "g_tick_head (k_err_proc e s) = g_tick_head s"
  "g_kobj_list (k_err_proc e s) = g_kobj_list s"
  "tasks (k_err_proc e s) = tasks s"
  "blks (k_err_proc e s) = blks s"
  "mutexes (k_err_proc e s) = mutexes s"
  "ub (k_err_proc e s) = ub s"
  by (simp_all add: k_err_proc_def)

lemma undefined_behaviour_env: "env (undefined_behaviour s) = env s"
  by (simp add: env_def undefined_behaviour_def)

lemmas undefined_behaviour_env_sel [simp] = env_sel [OF undefined_behaviour_env]

lemma undefined_behaviour_sel [simp]:
  "ub (undefined_behaviour s)"
  "g_preferred_ready_task (undefined_behaviour s) = g_preferred_ready_task s"
  "g_ready_queue (undefined_behaviour s) = g_ready_queue s"
  "g_tick_head (undefined_behaviour s) = g_tick_head s"
  "g_kobj_list (undefined_behaviour s) = g_kobj_list s"
  "tasks (undefined_behaviour s) = tasks s"
  "blks (undefined_behaviour s) = blks s"
  "mutexes (undefined_behaviour s) = mutexes s"
  "k_errs (undefined_behaviour s) = k_errs s"
  by (simp_all add: undefined_behaviour_def)

end
