(* ===== verification/Sched.thy ===== *)
theory Sched
  imports Kernel_State
begin

text \<open>
  The scheduler (\<^verbatim>\<open>k_sched.c\<close>, single-processor branch): the ready rings with their priority
  bitmap and cached highest priority, the choice of the next task, the scheduler lock and
  round-robin time slices. The lemmas show that the bitmap and the cached priority always
  agree with the rings, and what each operation does to the rings.
\<close>

section \<open>Model\<close>

abbreviation ring :: "kernel \<Rightarrow> nat \<Rightarrow> ptr list" where
  "ring s \<equiv> cur_list_item (g_ready_queue s)"

definition runqueue_init :: "runqueue_t \<Rightarrow> runqueue_t" where
  "runqueue_init rq =
     rq\<lparr>highest_pri := RHINO_CONFIG_PRI_MAX,
        cur_list_item := (\<lambda>p. if p < RHINO_CONFIG_PRI_MAX then [] else cur_list_item rq p)\<rparr>"

definition ready_list_init :: "ptr \<Rightarrow> kernel \<Rightarrow> kernel" where
  "ready_list_init task s =
     (let p = prio (tasks s task) in
      upd_rq (\<lambda>rq. rq\<lparr>cur_list_item := (cur_list_item rq)(p := [task]),
                      task_bit_map := krhino_bitmap_set (task_bit_map rq) p,
                      highest_pri := (if p < highest_pri rq then p else highest_pri rq)\<rparr>) s)"

definition is_ready_list_empty :: "kernel \<Rightarrow> nat \<Rightarrow> bool" where
  "is_ready_list_empty s p \<longleftrightarrow> ring s p = []"

definition ready_list_add_tail :: "ptr \<Rightarrow> kernel \<Rightarrow> kernel" where
  "ready_list_add_tail task s =
     (let p = prio (tasks s task) in
      if is_ready_list_empty s p then ready_list_init task s
      else upd_rq (\<lambda>rq. rq\<lparr>cur_list_item := (cur_list_item rq)(p := cur_list_item rq p @ [task])\<rparr>) s)"

definition ready_list_add_head :: "ptr \<Rightarrow> kernel \<Rightarrow> kernel" where
  "ready_list_add_head task s =
     (let p = prio (tasks s task) in
      if is_ready_list_empty s p then ready_list_init task s
      else upd_rq (\<lambda>rq. rq\<lparr>cur_list_item := (cur_list_item rq)(p := task # cur_list_item rq p)\<rparr>) s)"

definition ready_list_add :: "ptr \<Rightarrow> kernel \<Rightarrow> kernel" where
  "ready_list_add task s =
     (if g_active_task s = NULL then undefined_behaviour s
      else if prio (tasks s task) = prio (tasks s (g_active_task s))
      then ready_list_add_tail task s else ready_list_add_head task s)"

text \<open>
  Removal. With more than one task in the ring the entry moves on if it is the removed
  task; the last task leaves a null entry and a cleared bit, and the highest priority is
  searched again if it was this one. An empty ring is a null dereference, a search of an
  empty bitmap reads past it.
\<close>

definition ready_list_rm :: "ptr \<Rightarrow> kernel \<Rightarrow> kernel" where
  "ready_list_rm task s =
     (let pri = prio (tasks s task) in
      case ring s pri of
        [] \<Rightarrow> undefined_behaviour s
      | [x] \<Rightarrow>
          let s = upd_rq (\<lambda>rq. rq\<lparr>cur_list_item := (cur_list_item rq)(pri := []),
                                 task_bit_map := krhino_bitmap_clear (task_bit_map rq) pri\<rparr>) s
          in if pri \<noteq> highest_pri (g_ready_queue s) then s
             else (case krhino_find_first_bit (task_bit_map (g_ready_queue s)) of
                     Some i \<Rightarrow> upd_rq (\<lambda>rq. rq\<lparr>highest_pri := i\<rparr>) s
                   | None \<Rightarrow> undefined_behaviour s)
      | x # y # xs \<Rightarrow>
          let r = (if x = task then rotate1 (ring s pri) else ring s pri)
          in upd_rq (\<lambda>rq. rq\<lparr>cur_list_item := (cur_list_item rq)(pri := remove1 task r)\<rparr>) s)"

definition ready_list_head_to_tail :: "ptr \<Rightarrow> kernel \<Rightarrow> kernel" where
  "ready_list_head_to_tail task s =
     (let p = prio (tasks s task) in
      if ring s p = [] then undefined_behaviour s
      else upd_rq (\<lambda>rq. rq\<lparr>cur_list_item := (cur_list_item rq)(p := rotate1 (cur_list_item rq p))\<rparr>) s)"

definition preferred_cpu_ready_task_get :: "kernel \<Rightarrow> kernel" where
  "preferred_cpu_ready_task_get s =
     (let h = highest_pri (g_ready_queue s) in
      if h \<ge> RHINO_CONFIG_PRI_MAX \<or> ring s h = [] then undefined_behaviour s
      else s\<lparr>g_preferred_ready_task := hd (ring s h)\<rparr>)"

text \<open>
  The processor's context switch is code of the port; the request is recorded and the
  switch is a separate step of the system.
\<close>

definition cpu_task_switch :: "kernel \<Rightarrow> kernel" where
  "cpu_task_switch s = s\<lparr>cpu_switch := True\<rparr>"

definition core_sched :: "kernel \<Rightarrow> kernel" where
  "core_sched s =
     (let cpsr = irq_off s;
          s = RHINO_CRITICAL_ENTER s in
      if g_intrpt_nested_level s > 0 then RHINO_CRITICAL_EXIT cpsr s
      else if g_sched_lock s > 0 then RHINO_CRITICAL_EXIT cpsr s
      else
        let s = preferred_cpu_ready_task_get s in
        if g_preferred_ready_task s = g_active_task s then RHINO_CRITICAL_EXIT cpsr s
        else RHINO_CRITICAL_EXIT cpsr (cpu_task_switch s))"

definition RHINO_CRITICAL_EXIT_SCHED :: "bool \<Rightarrow> kernel \<Rightarrow> kernel" where
  "RHINO_CRITICAL_EXIT_SCHED cpsr s = core_sched (RHINO_CRITICAL_EXIT cpsr s)"

definition krhino_sched_disable :: "kernel \<Rightarrow> kstat_t \<times> kernel" where
  "krhino_sched_disable s =
     (let cpsr = irq_off s;
          s = RHINO_CRITICAL_ENTER s in
      if g_intrpt_nested_level s > 0
      then (RHINO_NOT_CALLED_BY_INTRPT, RHINO_CRITICAL_EXIT cpsr s)
      else if g_sched_lock s \<ge> SCHED_MAX_LOCK_COUNT
      then (RHINO_SCHED_LOCK_COUNT_OVF, RHINO_CRITICAL_EXIT cpsr s)
      else (RHINO_SUCCESS, RHINO_CRITICAL_EXIT cpsr (s\<lparr>g_sched_lock := g_sched_lock s + 1\<rparr>)))"

definition krhino_sched_enable :: "kernel \<Rightarrow> kstat_t \<times> kernel" where
  "krhino_sched_enable s =
     (let cpsr = irq_off s;
          s = RHINO_CRITICAL_ENTER s in
      if g_intrpt_nested_level s > 0
      then (RHINO_NOT_CALLED_BY_INTRPT, RHINO_CRITICAL_EXIT cpsr s)
      else if g_sched_lock s = 0
      then (RHINO_SCHED_ALREADY_ENABLED, RHINO_CRITICAL_EXIT cpsr s)
      else
        let s = s\<lparr>g_sched_lock := g_sched_lock s - 1\<rparr> in
        if g_sched_lock s > 0 then (RHINO_SCHED_DISABLE, RHINO_CRITICAL_EXIT cpsr s)
        else (RHINO_SUCCESS, RHINO_CRITICAL_EXIT_SCHED cpsr s))"

definition time_slice_update :: "kernel \<Rightarrow> kernel" where
  "time_slice_update s =
     (let cpsr = irq_off s;
          s = RHINO_CRITICAL_ENTER s;
          task_pri = prio (tasks s (g_active_task s));
          head = ring s task_pri in
      if is_ready_list_empty s task_pri then RHINO_CRITICAL_EXIT cpsr s
      else
        let task = hd head in
        if sched_policy (tasks s task) = KSCHED_FIFO then RHINO_CRITICAL_EXIT cpsr s
        else if length head = 1 then RHINO_CRITICAL_EXIT cpsr s
        else
          let s = (if time_slice_cnt (tasks s task) > 0
                   then upd_task task (\<lambda>k. k\<lparr>time_slice_cnt := time_slice_cnt k - 1\<rparr>) s else s) in
          if time_slice_cnt (tasks s task) > 0 then RHINO_CRITICAL_EXIT cpsr s
          else
            let s = ready_list_head_to_tail task s;
                s = upd_task task (\<lambda>k. k\<lparr>time_slice_cnt := time_total k\<rparr>) s
            in RHINO_CRITICAL_EXIT cpsr s)"

section \<open>Frames\<close>

lemma ready_list_init_env: "env (ready_list_init t s) = env s"
  by (simp add: ready_list_init_def Let_def upd_rq_env)

lemma ready_list_add_tail_env: "env (ready_list_add_tail t s) = env s"
  by (simp add: ready_list_add_tail_def Let_def upd_rq_env ready_list_init_env)

lemma ready_list_add_head_env: "env (ready_list_add_head t s) = env s"
  by (simp add: ready_list_add_head_def Let_def upd_rq_env ready_list_init_env)

lemma ready_list_add_env: "env (ready_list_add t s) = env s"
  by (simp add: ready_list_add_def ready_list_add_tail_env ready_list_add_head_env
      undefined_behaviour_env)

lemma ready_list_rm_env: "env (ready_list_rm t s) = env s"
  by (simp add: ready_list_rm_def Let_def upd_rq_env undefined_behaviour_env
      split: list.splits option.splits)

lemma ready_list_head_to_tail_env: "env (ready_list_head_to_tail t s) = env s"
  by (simp add: ready_list_head_to_tail_def Let_def upd_rq_env undefined_behaviour_env)

lemmas ready_list_add_tail_env_sel [simp] = env_sel [OF ready_list_add_tail_env]
lemmas ready_list_add_head_env_sel [simp] = env_sel [OF ready_list_add_head_env]
lemmas ready_list_add_env_sel [simp] = env_sel [OF ready_list_add_env]
lemmas ready_list_rm_env_sel [simp] = env_sel [OF ready_list_rm_env]
lemmas ready_list_head_to_tail_env_sel [simp] = env_sel [OF ready_list_head_to_tail_env]

lemma ready_list_init_sel [simp]:
  "g_preferred_ready_task (ready_list_init t s) = g_preferred_ready_task s"
  "g_tick_head (ready_list_init t s) = g_tick_head s"
  "g_kobj_list (ready_list_init t s) = g_kobj_list s"
  "tasks (ready_list_init t s) = tasks s"
  "blks (ready_list_init t s) = blks s"
  "mutexes (ready_list_init t s) = mutexes s"
  "k_errs (ready_list_init t s) = k_errs s"
  by (simp_all add: ready_list_init_def Let_def)

lemma ready_list_add_tail_sel [simp]:
  "g_preferred_ready_task (ready_list_add_tail t s) = g_preferred_ready_task s"
  "g_tick_head (ready_list_add_tail t s) = g_tick_head s"
  "g_kobj_list (ready_list_add_tail t s) = g_kobj_list s"
  "tasks (ready_list_add_tail t s) = tasks s"
  "blks (ready_list_add_tail t s) = blks s"
  "mutexes (ready_list_add_tail t s) = mutexes s"
  "k_errs (ready_list_add_tail t s) = k_errs s"
  by (simp_all add: ready_list_add_tail_def Let_def)

lemma ready_list_add_head_sel [simp]:
  "g_preferred_ready_task (ready_list_add_head t s) = g_preferred_ready_task s"
  "g_tick_head (ready_list_add_head t s) = g_tick_head s"
  "g_kobj_list (ready_list_add_head t s) = g_kobj_list s"
  "tasks (ready_list_add_head t s) = tasks s"
  "blks (ready_list_add_head t s) = blks s"
  "mutexes (ready_list_add_head t s) = mutexes s"
  "k_errs (ready_list_add_head t s) = k_errs s"
  by (simp_all add: ready_list_add_head_def Let_def)

lemma ready_list_add_sel [simp]:
  "g_preferred_ready_task (ready_list_add t s) = g_preferred_ready_task s"
  "g_tick_head (ready_list_add t s) = g_tick_head s"
  "g_kobj_list (ready_list_add t s) = g_kobj_list s"
  "tasks (ready_list_add t s) = tasks s"
  "blks (ready_list_add t s) = blks s"
  "mutexes (ready_list_add t s) = mutexes s"
  "k_errs (ready_list_add t s) = k_errs s"
  by (simp_all add: ready_list_add_def Let_def)

lemma ready_list_rm_sel [simp]:
  "g_preferred_ready_task (ready_list_rm t s) = g_preferred_ready_task s"
  "g_tick_head (ready_list_rm t s) = g_tick_head s"
  "g_kobj_list (ready_list_rm t s) = g_kobj_list s"
  "tasks (ready_list_rm t s) = tasks s"
  "blks (ready_list_rm t s) = blks s"
  "mutexes (ready_list_rm t s) = mutexes s"
  "k_errs (ready_list_rm t s) = k_errs s"
  by (simp_all add: ready_list_rm_def Let_def split: list.splits option.splits)

lemma ready_list_head_to_tail_sel [simp]:
  "g_preferred_ready_task (ready_list_head_to_tail t s) = g_preferred_ready_task s"
  "g_tick_head (ready_list_head_to_tail t s) = g_tick_head s"
  "g_kobj_list (ready_list_head_to_tail t s) = g_kobj_list s"
  "tasks (ready_list_head_to_tail t s) = tasks s"
  "blks (ready_list_head_to_tail t s) = blks s"
  "mutexes (ready_list_head_to_tail t s) = mutexes s"
  "k_errs (ready_list_head_to_tail t s) = k_errs s"
  by (simp_all add: ready_list_head_to_tail_def Let_def)

section \<open>The ready queue is consistent\<close>

text \<open>
  Bit \<open>p\<close> of the bitmap is set exactly when ring \<open>p\<close> has a task, only valid priorities have
  tasks, and the cached highest priority is the least one in use (or the number of
  priorities when none is).
\<close>

definition rq_ok :: "runqueue_t \<Rightarrow> bool" where
  "rq_ok rq \<longleftrightarrow>
     length (task_bit_map rq) = NUM_WORDS \<and>
     (\<forall>p. bm_test (task_bit_map rq) p \<longleftrightarrow> cur_list_item rq p \<noteq> []) \<and>
     (\<forall>p \<ge> RHINO_CONFIG_PRI_MAX. cur_list_item rq p = []) \<and>
     highest_pri rq \<le> RHINO_CONFIG_PRI_MAX \<and>
     (\<forall>p < highest_pri rq. cur_list_item rq p = []) \<and>
     (highest_pri rq < RHINO_CONFIG_PRI_MAX \<longrightarrow> cur_list_item rq (highest_pri rq) \<noteq> [])"

lemma rq_ok_update_nonempty:
  assumes "rq_ok rq" and "cur_list_item rq p \<noteq> []" and "xs \<noteq> []"
  shows "rq_ok (rq\<lparr>cur_list_item := (cur_list_item rq)(p := xs)\<rparr>)"
  using assms unfolding rq_ok_def by auto

lemma rq_ok_first:
  assumes "rq_ok rq" and "cur_list_item rq p = []" and "p < RHINO_CONFIG_PRI_MAX"
  shows "rq_ok (rq\<lparr>cur_list_item := (cur_list_item rq)(p := [t]),
                   task_bit_map := krhino_bitmap_set (task_bit_map rq) p,
                   highest_pri := (if p < highest_pri rq then p else highest_pri rq)\<rparr>)"
  using assms unfolding rq_ok_def by (auto simp: bm_test_set not_less)

lemma rq_ok_last:
  assumes "rq_ok rq" and "cur_list_item rq p = [x]" and "p \<noteq> highest_pri rq"
  shows "rq_ok (rq\<lparr>cur_list_item := (cur_list_item rq)(p := []),
                   task_bit_map := krhino_bitmap_clear (task_bit_map rq) p\<rparr>)"
proof -
  have "p < 62" using assms(1,2) unfolding rq_ok_def by (metis list.distinct(1) not_le)
  with assms show ?thesis unfolding rq_ok_def by (auto simp: bm_test_clear)
qed

lemma rq_ok_last_highest:
  assumes "rq_ok rq" and "cur_list_item rq (highest_pri rq) = [x]"
    and "q \<noteq> highest_pri rq" and "cur_list_item rq q \<noteq> []"
  obtains i where
    "krhino_find_first_bit (krhino_bitmap_clear (task_bit_map rq) (highest_pri rq)) = Some i"
    and "rq_ok (rq\<lparr>cur_list_item := (cur_list_item rq)(highest_pri rq := []),
                   task_bit_map := krhino_bitmap_clear (task_bit_map rq) (highest_pri rq),
                   highest_pri := i\<rparr>)"
proof -
  let ?p = "highest_pri rq" and ?bm = "krhino_bitmap_clear (task_bit_map rq) (highest_pri rq)"
  have p: "?p < 62" using assms(1,2) unfolding rq_ok_def by (metis list.distinct(1) not_le)
  with assms(1) have bm: "bm_test ?bm k \<longleftrightarrow> k \<noteq> ?p \<and> cur_list_item rq k \<noteq> []" for k
    unfolding rq_ok_def by (auto simp: bm_test_clear)
  with assms(3,4) have "krhino_find_first_bit ?bm \<noteq> None"
    using krhino_find_first_bit_None by metis
  then obtain i where i: "krhino_find_first_bit ?bm = Some i" by auto
  then have "bm_test ?bm i" "\<forall>k<i. \<not> bm_test ?bm k" by (simp_all add: krhino_find_first_bit_Some)
  with assms(1) have
    "rq_ok (rq\<lparr>cur_list_item := (cur_list_item rq)(?p := []), task_bit_map := ?bm, highest_pri := i\<rparr>)"
    unfolding rq_ok_def by (auto simp: bm)
  with i that show thesis by blast
qed

lemma ring_add_tail:
  "ring (ready_list_add_tail t s) =
   (ring s)(prio (tasks s t) := ring s (prio (tasks s t)) @ [t])"
  by (simp add: ready_list_add_tail_def Let_def is_ready_list_empty_def ready_list_init_def)

lemma ring_add_head:
  "ring (ready_list_add_head t s) =
   (ring s)(prio (tasks s t) := t # ring s (prio (tasks s t)))"
  by (simp add: ready_list_add_head_def Let_def is_ready_list_empty_def ready_list_init_def)

lemma rq_ok_add_tail:
  "rq_ok (g_ready_queue s) \<Longrightarrow> prio (tasks s t) < RHINO_CONFIG_PRI_MAX \<Longrightarrow>
   rq_ok (g_ready_queue (ready_list_add_tail t s))"
  by (simp add: ready_list_add_tail_def Let_def is_ready_list_empty_def ready_list_init_def
      rq_ok_first rq_ok_update_nonempty del: fun_upd_apply)

lemma rq_ok_add_head:
  "rq_ok (g_ready_queue s) \<Longrightarrow> prio (tasks s t) < RHINO_CONFIG_PRI_MAX \<Longrightarrow>
   rq_ok (g_ready_queue (ready_list_add_head t s))"
  by (simp add: ready_list_add_head_def Let_def is_ready_list_empty_def ready_list_init_def
      rq_ok_first rq_ok_update_nonempty del: fun_upd_apply)

lemma ub_add [simp]:
  "ub (ready_list_add_tail t s) = ub s"
  "ub (ready_list_add_head t s) = ub s"
  by (simp_all add: ready_list_add_tail_def ready_list_add_head_def Let_def ready_list_init_def)

text \<open>The whole effect of a removal, for a task that is in the ring of its priority.\<close>

lemma ready_list_rm_effect:
  assumes rq: "rq_ok (g_ready_queue s)" and d: "distinct (ring s (prio (tasks s t)))"
    and t: "t \<in> set (ring s (prio (tasks s t)))"
    and other: "u \<noteq> t" "u \<in> set (ring s q)"
  shows "rq_ok (g_ready_queue (ready_list_rm t s))"
    and "ring (ready_list_rm t s) = (ring s)(prio (tasks s t) := remove1 t (ring s (prio (tasks s t))))"
    and "ub (ready_list_rm t s) = ub s"
proof -
  let ?p = "prio (tasks s t)"
  have "rq_ok (g_ready_queue (ready_list_rm t s)) \<and>
    ring (ready_list_rm t s) = (ring s)(?p := remove1 t (ring s ?p)) \<and>
    ub (ready_list_rm t s) = ub s"
  proof (cases "ring s ?p")
    case Nil
    with t show ?thesis by simp
  next
    case (Cons x xs)
    show ?thesis
    proof (cases xs)
      case Nil
      with Cons t have r: "ring s ?p = [t]" by simp
      show ?thesis
      proof (cases "?p = highest_pri (g_ready_queue s)")
        case False
        with r rq_ok_last [OF rq r False] show ?thesis
          by (simp add: ready_list_rm_def Let_def)
      next
        case True
        have "q \<noteq> ?p" using other r by auto
        then obtain i where
          "krhino_find_first_bit (krhino_bitmap_clear (task_bit_map (g_ready_queue s)) ?p) = Some i"
          "rq_ok ((g_ready_queue s)\<lparr>cur_list_item := (ring s)(?p := []),
             task_bit_map := krhino_bitmap_clear (task_bit_map (g_ready_queue s)) ?p,
             highest_pri := i\<rparr>)"
          using rq_ok_last_highest [OF rq, of t q] r True other(2) by (metis list.set_cases list.distinct(1))
        with r True show ?thesis by (simp add: ready_list_rm_def Let_def)
      qed
    next
      case (Cons y ys)
      with \<open>ring s ?p = x # xs\<close> have r: "ring s ?p = x # y # ys" by simp
      have e: "remove1 t (if x = t then rotate1 (ring s ?p) else ring s ?p) = remove1 t (ring s ?p)"
        using d r by (auto simp: remove1_append)
      have "remove1 t (ring s ?p) \<noteq> []" using r by auto
      with r e rq_ok_update_nonempty [OF rq, of ?p "remove1 t (ring s ?p)"] show ?thesis
        by (simp add: ready_list_rm_def Let_def del: fun_upd_apply)
    qed
  qed
  then show "rq_ok (g_ready_queue (ready_list_rm t s))"
    and "ring (ready_list_rm t s) = (ring s)(?p := remove1 t (ring s ?p))"
    and "ub (ready_list_rm t s) = ub s" by simp_all
qed

lemma ready_list_head_to_tail_effect:
  assumes "rq_ok (g_ready_queue s)" and "ring s (prio (tasks s t)) \<noteq> []"
  shows "rq_ok (g_ready_queue (ready_list_head_to_tail t s))"
    and "ring (ready_list_head_to_tail t s) =
           (ring s)(prio (tasks s t) := rotate1 (ring s (prio (tasks s t))))"
    and "ub (ready_list_head_to_tail t s) = ub s"
  using assms rq_ok_update_nonempty [OF assms]
  by (simp_all add: ready_list_head_to_tail_def Let_def del: fun_upd_apply)

end
