(* ===== verification/Pend.thy ===== *)
theory Pend
  imports Sched
begin

text \<open>
  Blocking and waking tasks (\<^verbatim>\<open>k_pend.c\<close>) and the list of tasks with a timeout
  (\<^verbatim>\<open>k_tick.c\<close>, insertion and removal). A task blocked on an object is in the object's
  list, in priority order unless the object is first-come first-served, and in the tick
  list when it waits with a timeout.
\<close>

section \<open>The tick list\<close>

definition tick_list_pri_insert :: "ptr \<Rightarrow> kernel \<Rightarrow> kernel" where
  "tick_list_pri_insert task s =
     (let val = tick_remain (tasks s task) in
      s\<lparr>g_tick_head :=
          insert_before (\<lambda>q. tick_match (tasks s q) - g_tick_count s > val) task (g_tick_head s)\<rparr>)"

definition tick_list_insert :: "ptr \<Rightarrow> tick_t \<Rightarrow> kernel \<Rightarrow> kernel" where
  "tick_list_insert task time s =
     (if time > 0 then
        let s = upd_task task (\<lambda>k. k\<lparr>tick_match := g_tick_count s + time, tick_remain := time\<rparr>) s;
            s = tick_list_pri_insert task s
        in upd_task task (\<lambda>k. k\<lparr>tick_head := True\<rparr>) s
      else s)"

definition tick_list_rm :: "ptr \<Rightarrow> kernel \<Rightarrow> kernel" where
  "tick_list_rm task s =
     (if tick_head (tasks s task) then
        let s = s\<lparr>g_tick_head := remove1 task (g_tick_head s)\<rparr>
        in upd_task task (\<lambda>k. k\<lparr>tick_head := False\<rparr>) s
      else s)"

section \<open>Blocking and waking\<close>

text \<open>
  \<^verbatim>\<open>klist_rm(&task->task_list)\<close> for a blocked task: the node leaves the blocking list it is in.
\<close>

definition task_list_rm :: "ptr \<Rightarrow> kernel \<Rightarrow> kernel" where
  "task_list_rm task s = s\<lparr>blks := (\<lambda>b. (blks s b)\<lparr>blk_list := remove1 task (blk_list (blks s b))\<rparr>)\<rparr>"

definition pend_list_add :: "ptr \<Rightarrow> ptr \<Rightarrow> kernel \<Rightarrow> kernel" where
  "pend_list_add b task s =
     upd_blk b (\<lambda>o'. o'\<lparr>blk_list :=
       insert_before (\<lambda>q. prio (tasks s q) > prio (tasks s task)) task (blk_list o')\<rparr>) s"

definition pend_task_wakeup :: "ptr \<Rightarrow> kernel \<Rightarrow> kernel" where
  "pend_task_wakeup task s =
     (let s = (case task_state (tasks s task) of
                 K_PEND \<Rightarrow>
                   let s = task_list_rm task s;
                       s = ready_list_add task s
                   in upd_task task (\<lambda>k. k\<lparr>task_state := K_RDY\<rparr>) s
               | K_PEND_SUSPENDED \<Rightarrow>
                   let s = task_list_rm task s
                   in upd_task task (\<lambda>k. k\<lparr>task_state := K_SUSPENDED\<rparr>) s
               | _ \<Rightarrow> k_err_proc RHINO_SYS_FATAL_ERR s);
          s = tick_list_rm task s
      in upd_task task (\<lambda>k. k\<lparr>blk_state := BLK_FINISH, blk_obj := NULL\<rparr>) s)"

definition pend_to_blk_obj :: "ptr \<Rightarrow> ptr \<Rightarrow> tick_t \<Rightarrow> kernel \<Rightarrow> kernel" where
  "pend_to_blk_obj b task timeout s =
     (let s = upd_task task (\<lambda>k. k\<lparr>blk_obj := b\<rparr>) s;
          s = (if timeout \<noteq> RHINO_WAIT_FOREVER then tick_list_insert task timeout s else s);
          s = upd_task task (\<lambda>k. k\<lparr>task_state := K_PEND\<rparr>) s;
          s = ready_list_rm task s
      in if blk_policy (blks s b) = BLK_POLICY_FIFO
         then upd_blk b (\<lambda>o'. o'\<lparr>blk_list := blk_list o' @ [task]\<rparr>) s
         else pend_list_add b task s)"

definition pend_task_rm :: "ptr \<Rightarrow> kernel \<Rightarrow> kernel" where
  "pend_task_rm task s =
     (let s = (case task_state (tasks s task) of
                 K_PEND \<Rightarrow>
                   let s = task_list_rm task s;
                       s = ready_list_add task s
                   in upd_task task (\<lambda>k. k\<lparr>task_state := K_RDY\<rparr>) s
               | K_PEND_SUSPENDED \<Rightarrow>
                   let s = task_list_rm task s
                   in upd_task task (\<lambda>k. k\<lparr>task_state := K_SUSPENDED\<rparr>) s
               | _ \<Rightarrow> k_err_proc RHINO_SYS_FATAL_ERR s);
          s = tick_list_rm task s;
          s = upd_task task (\<lambda>k. k\<lparr>blk_state := BLK_DEL\<rparr>) s
      in upd_task task (\<lambda>k. k\<lparr>blk_obj := NULL\<rparr>) s)"

definition pend_list_reorder :: "ptr \<Rightarrow> kernel \<Rightarrow> kernel" where
  "pend_list_reorder task s =
     (if blk_obj (tasks s task) = NULL then undefined_behaviour s
      else if blk_policy (blks s (blk_obj (tasks s task))) = BLK_POLICY_PRI then
        let s = task_list_rm task s
        in pend_list_add (blk_obj (tasks s task)) task s
      else s)"

definition pend_state_end_proc :: "ptr \<Rightarrow> kernel \<Rightarrow> kstat_t \<times> kernel" where
  "pend_state_end_proc task s =
     (case blk_state (tasks s task) of
        BLK_FINISH \<Rightarrow> (RHINO_SUCCESS, s)
      | BLK_ABORT \<Rightarrow> (RHINO_BLK_ABORT, s)
      | BLK_TIMEOUT \<Rightarrow> (RHINO_BLK_TIMEOUT, s)
      | BLK_DEL \<Rightarrow> (RHINO_BLK_DEL, s)
      | BLK_INVALID \<Rightarrow> (RHINO_BLK_INV_STATE, k_err_proc RHINO_BLK_INV_STATE s))"

end
