(* ===== verification/Pri_Inherit.thy ===== *)
theory Pri_Inherit
  imports Pend
begin

text \<open>
  Priority inheritance: the priority a task's mutexes ask for (\<^verbatim>\<open>mutex_pri_limit\<close>,
  \<^verbatim>\<open>mutex_pri_look\<close>, \<^verbatim>\<open>mutex_release\<close> and \<^verbatim>\<open>mutex_task_pri_reset\<close> of \<^verbatim>\<open>k_mutex.c\<close>) and the loop
  that changes a priority and follows the chain of mutex owners (\<^verbatim>\<open>task_pri_change\<close> of
  \<^verbatim>\<open>k_task.c\<close>), with the proof that the loop ends in every state.
\<close>

section \<open>Model\<close>

text \<open>
  A task's \<^verbatim>\<open>mutex_list\<close> is singly linked through the mutexes; here it is the list of the
  mutexes. Both walks keep the last blocked task's priority in \<^verbatim>\<open>pri\<close> across iterations, as
  the C code does.
\<close>

fun mutex_pri_limit_loop :: "kernel \<Rightarrow> ptr list \<Rightarrow> nat \<Rightarrow> nat \<Rightarrow> nat" where
  "mutex_pri_limit_loop s [] pri high_pri = high_pri"
| "mutex_pri_limit_loop s (mutex_tmp # ms) pri high_pri =
     (let bl = blk_list (blks s mutex_tmp);
          pri = (if bl \<noteq> [] then prio (tasks s (hd bl)) else pri);
          high_pri = (if pri < high_pri then pri else high_pri)
      in mutex_pri_limit_loop s ms pri high_pri)"

definition mutex_pri_limit :: "ptr \<Rightarrow> nat \<Rightarrow> kernel \<Rightarrow> nat" where
  "mutex_pri_limit task pri s = mutex_pri_limit_loop s (mutex_list (tasks s task)) pri pri"

fun mutex_pri_look_loop :: "kernel \<Rightarrow> ptr \<Rightarrow> ptr list \<Rightarrow> nat \<Rightarrow> nat \<Rightarrow> nat" where
  "mutex_pri_look_loop s mutex_rel [] pri new_pri = new_pri"
| "mutex_pri_look_loop s mutex_rel (mutex_tmp # ms) pri new_pri =
     (if mutex_tmp = mutex_rel then mutex_pri_look_loop s mutex_rel ms pri new_pri
      else
        let bl = blk_list (blks s mutex_tmp);
            pri = (if bl \<noteq> [] then prio (tasks s (hd bl)) else pri);
            new_pri = (if new_pri > pri then pri else new_pri)
        in mutex_pri_look_loop s mutex_rel ms pri new_pri)"

text \<open>\<^verbatim>\<open>mutex_pri_look\<close> also unlinks the released mutex from the task's list.\<close>

definition mutex_pri_look :: "ptr \<Rightarrow> ptr \<Rightarrow> kernel \<Rightarrow> nat \<times> kernel" where
  "mutex_pri_look task mutex_rel s =
     (let b = b_prio (tasks s task) in
      (mutex_pri_look_loop s mutex_rel (mutex_list (tasks s task)) b b,
       upd_task task (\<lambda>k. k\<lparr>mutex_list := filter (\<lambda>m. m \<noteq> mutex_rel) (mutex_list k)\<rparr>) s))"

section \<open>Frames\<close>

lemma task_list_rm_env: "env (task_list_rm t s) = env s"
  by (simp add: task_list_rm_def env_def)

lemma pend_list_add_env: "env (pend_list_add b t s) = env s"
  by (simp add: pend_list_add_def upd_blk_env)

lemma pend_list_reorder_env: "env (pend_list_reorder t s) = env s"
  by (simp add: pend_list_reorder_def Let_def task_list_rm_env pend_list_add_env
      undefined_behaviour_env)

lemma tick_list_rm_env: "env (tick_list_rm t s) = env s"
  by (simp add: tick_list_rm_def Let_def upd_task_env) (simp add: env_def)

lemmas task_list_rm_env_sel [simp] = env_sel [OF task_list_rm_env]
lemmas pend_list_add_env_sel [simp] = env_sel [OF pend_list_add_env]
lemmas pend_list_reorder_env_sel [simp] = env_sel [OF pend_list_reorder_env]
lemmas tick_list_rm_env_sel [simp] = env_sel [OF tick_list_rm_env]

lemma task_list_rm_sel [simp]:
  "g_preferred_ready_task (task_list_rm t s) = g_preferred_ready_task s"
  "g_ready_queue (task_list_rm t s) = g_ready_queue s"
  "g_tick_head (task_list_rm t s) = g_tick_head s"
  "g_kobj_list (task_list_rm t s) = g_kobj_list s"
  "tasks (task_list_rm t s) = tasks s"
  "mutexes (task_list_rm t s) = mutexes s"
  "k_errs (task_list_rm t s) = k_errs s"
  "ub (task_list_rm t s) = ub s"
  "blk_list (blks (task_list_rm t s) b) = remove1 t (blk_list (blks s b))"
  "obj_type (blks (task_list_rm t s) b) = obj_type (blks s b)"
  "blk_policy (blks (task_list_rm t s) b) = blk_policy (blks s b)"
  "obj_name (blks (task_list_rm t s) b) = obj_name (blks s b)"
  by (simp_all add: task_list_rm_def)

lemma pend_list_add_sel [simp]:
  "g_preferred_ready_task (pend_list_add b t s) = g_preferred_ready_task s"
  "g_ready_queue (pend_list_add b t s) = g_ready_queue s"
  "g_tick_head (pend_list_add b t s) = g_tick_head s"
  "g_kobj_list (pend_list_add b t s) = g_kobj_list s"
  "tasks (pend_list_add b t s) = tasks s"
  "mutexes (pend_list_add b t s) = mutexes s"
  "k_errs (pend_list_add b t s) = k_errs s"
  "ub (pend_list_add b t s) = ub s"
  "blk_list (blks (pend_list_add b t s) b') =
     (if b' = b then insert_before (\<lambda>q. prio (tasks s q) > prio (tasks s t)) t (blk_list (blks s b))
      else blk_list (blks s b'))"
  "obj_type (blks (pend_list_add b t s) b') = obj_type (blks s b')"
  "blk_policy (blks (pend_list_add b t s) b') = blk_policy (blks s b')"
  "obj_name (blks (pend_list_add b t s) b') = obj_name (blks s b')"
  by (simp_all add: pend_list_add_def)

lemma pend_list_reorder_sel [simp]:
  "g_preferred_ready_task (pend_list_reorder t s) = g_preferred_ready_task s"
  "g_ready_queue (pend_list_reorder t s) = g_ready_queue s"
  "g_tick_head (pend_list_reorder t s) = g_tick_head s"
  "g_kobj_list (pend_list_reorder t s) = g_kobj_list s"
  "tasks (pend_list_reorder t s) = tasks s"
  "mutexes (pend_list_reorder t s) = mutexes s"
  "k_errs (pend_list_reorder t s) = k_errs s"
  "obj_type (blks (pend_list_reorder t s) b) = obj_type (blks s b)"
  "blk_policy (blks (pend_list_reorder t s) b) = blk_policy (blks s b)"
  "obj_name (blks (pend_list_reorder t s) b) = obj_name (blks s b)"
  by (simp_all add: pend_list_reorder_def Let_def)

lemma tick_list_rm_sel [simp]:
  "g_preferred_ready_task (tick_list_rm t s) = g_preferred_ready_task s"
  "g_ready_queue (tick_list_rm t s) = g_ready_queue s"
  "g_kobj_list (tick_list_rm t s) = g_kobj_list s"
  "blks (tick_list_rm t s) = blks s"
  "mutexes (tick_list_rm t s) = mutexes s"
  "k_errs (tick_list_rm t s) = k_errs s"
  "ub (tick_list_rm t s) = ub s"
  "tasks (tick_list_rm t s) = (tasks s)(t := (tasks s t)\<lparr>tick_head := False\<rparr>)"
  "g_tick_head (tick_list_rm t s) =
     (if tick_head (tasks s t) then remove1 t (g_tick_head s) else g_tick_head s)"
  by (auto simp: tick_list_rm_def Let_def fun_eq_iff intro: ktask_t.equality)

lemma mutex_pri_look_env: "env (snd (mutex_pri_look t m s)) = env s"
  by (simp add: mutex_pri_look_def Let_def upd_task_env)

lemmas mutex_pri_look_env_sel [simp] = env_sel [OF mutex_pri_look_env]

lemma mutex_pri_look_sel [simp]:
  "g_preferred_ready_task (snd (mutex_pri_look t m s)) = g_preferred_ready_task s"
  "g_ready_queue (snd (mutex_pri_look t m s)) = g_ready_queue s"
  "g_tick_head (snd (mutex_pri_look t m s)) = g_tick_head s"
  "g_kobj_list (snd (mutex_pri_look t m s)) = g_kobj_list s"
  "blks (snd (mutex_pri_look t m s)) = blks s"
  "mutexes (snd (mutex_pri_look t m s)) = mutexes s"
  "k_errs (snd (mutex_pri_look t m s)) = k_errs s"
  "ub (snd (mutex_pri_look t m s)) = ub s"
  "tasks (snd (mutex_pri_look t m s)) =
     (tasks s)(t := (tasks s t)\<lparr>mutex_list := filter (\<lambda>x. x \<noteq> m) (mutex_list (tasks s t))\<rparr>)"
  by (simp_all add: mutex_pri_look_def Let_def)

section \<open>Changing a priority\<close>

text \<open>
  One round of the loop of \<^verbatim>\<open>task_pri_change\<close>: it ends with a result (\<open>Inl\<close>) or goes on with
  the next task and its new priority (\<open>Inr\<close>). A change of a blocked task's priority moves
  it in the list it waits in and, when that is a mutex, goes on with the mutex's owner if
  the owner must be raised as well or may have to come down. A null owner would be
  dereferenced.
\<close>

definition set_prio :: "ptr \<Rightarrow> nat \<Rightarrow> kernel \<Rightarrow> kernel" where
  "set_prio task new_pri s = upd_task task (\<lambda>k. k\<lparr>prio := new_pri\<rparr>) s"

definition task_pri_change_round ::
  "ptr \<Rightarrow> nat \<Rightarrow> kernel \<Rightarrow> (kstat_t \<times> kernel) + (ptr \<times> nat \<times> kernel)" where
  "task_pri_change_round task new_pri s =
     (if prio (tasks s task) \<noteq> new_pri then
        (case task_state (tasks s task) of
           K_RDY \<Rightarrow>
             let s = ready_list_rm task s;
                 s = set_prio task new_pri s
             in Inl (RHINO_SUCCESS,
                     if task = g_active_task s then ready_list_add_head task s
                     else ready_list_add_tail task s)
         | K_SLEEP \<Rightarrow> Inl (RHINO_SUCCESS, set_prio task new_pri s)
         | K_SUSPENDED \<Rightarrow> Inl (RHINO_SUCCESS, set_prio task new_pri s)
         | K_SLEEP_SUSPENDED \<Rightarrow> Inl (RHINO_SUCCESS, set_prio task new_pri s)
         | K_SEED \<Rightarrow> Inl (RHINO_INV_TASK_STATE, k_err_proc RHINO_INV_TASK_STATE s)
         | K_DELETED \<Rightarrow> Inl (RHINO_INV_TASK_STATE, k_err_proc RHINO_INV_TASK_STATE s)
         | _ \<Rightarrow>
             let old_pri = prio (tasks s task);
                 s = set_prio task new_pri s;
                 s = pend_list_reorder task s;
                 b = blk_obj (tasks s task)
             in if obj_type (blks s b) = RHINO_MUTEX_OBJ_TYPE then
                  let mt = mutex_task (mutexes s b) in
                  if mt = NULL then Inl (RHINO_SUCCESS, undefined_behaviour s)
                  else if prio (tasks s mt) > prio (tasks s task) then Inr (mt, new_pri, s)
                  else if prio (tasks s mt) = old_pri then
                    let (new_pri', s) = mutex_pri_look mt NULL s
                    in if new_pri' \<noteq> prio (tasks s mt) then Inr (mt, new_pri', s)
                       else Inl (RHINO_SUCCESS, s)
                  else Inl (RHINO_SUCCESS, s)
                else Inl (RHINO_SUCCESS, s))
      else Inl (RHINO_SUCCESS, s))"

function task_pri_change :: "ptr \<Rightarrow> nat \<Rightarrow> kernel \<Rightarrow> kstat_t \<times> kernel" where
  "task_pri_change task new_pri s =
     (case task_pri_change_round task new_pri s of
        Inl res \<Rightarrow> res
      | Inr (task', new_pri', s') \<Rightarrow> task_pri_change task' new_pri' s')"
  by pat_completeness auto

text \<open>
  The loop ends because addresses are finitely many: while priorities go up, each round
  takes a task out of those with a lower priority than the new one; while they go down,
  each round takes a task out of those that had the old priority.
\<close>

definition lowering :: "ptr \<Rightarrow> nat \<Rightarrow> kernel \<Rightarrow> nat" where
  "lowering task new_pri s =
     (if new_pri > prio (tasks s task)
      then Suc (card {t. prio (tasks s t) = prio (tasks s task)}) else 0)"

definition raising :: "nat \<Rightarrow> kernel \<Rightarrow> nat" where
  "raising new_pri s = card {t. prio (tasks s t) > new_pri}"

lemma raising_decreases:
  assumes "new_pri < prio (tasks s task)"
    and "\<And>t. prio (tasks s' t) = (if t = task then new_pri else prio (tasks s t))"
  shows "raising new_pri s' < raising new_pri s"
proof -
  have "{t. prio (tasks s' t) > new_pri} \<subset> {t. prio (tasks s t) > new_pri}"
    using assms by auto
  then show ?thesis unfolding raising_def by (intro psubset_card_mono) simp_all
qed

lemma lowering_decreases:
  assumes "prio (tasks s task) < new_pri" and "prio (tasks s' mt) = prio (tasks s task)"
    and "\<And>t. prio (tasks s' t) = (if t = task then new_pri else prio (tasks s t))"
  shows "lowering mt q s' < lowering task new_pri s"
proof -
  have "{t. prio (tasks s' t) = prio (tasks s task)} \<subset> {t. prio (tasks s t) = prio (tasks s task)}"
    using assms by (auto split: if_splits)
  then have "card {t. prio (tasks s' t) = prio (tasks s task)} <
      card {t. prio (tasks s t) = prio (tasks s task)}"
    by (intro psubset_card_mono) simp_all
  with assms(1,2) show ?thesis by (simp add: lowering_def)
qed

definition pri_change_rel :: "((ptr \<times> nat \<times> kernel) \<times> ptr \<times> nat \<times> kernel) set" where
  "pri_change_rel = (\<lambda>(t, p, s). lowering t p s) <*mlex*> (\<lambda>(t, p, s). raising p s) <*mlex*> {}"

lemma pri_change_rel_raise:
  assumes "prio (tasks s task) \<noteq> new_pri"
    and "\<And>t. prio (tasks s' t) = (if t = task then new_pri else prio (tasks s t))"
    and "new_pri < prio (tasks s' mt)"
  shows "((mt, new_pri, s'), task, new_pri, s) \<in> pri_change_rel"
proof (cases "new_pri > prio (tasks s task)")
  case True
  with assms(3) show ?thesis by (simp add: pri_change_rel_def mlex_iff lowering_def)
next
  case False
  with assms(1) have "new_pri < prio (tasks s task)" by simp
  from raising_decreases [OF this assms(2)] assms(3) False show ?thesis
    by (simp add: pri_change_rel_def mlex_iff lowering_def)
qed

lemma pri_change_rel_lower:
  assumes "prio (tasks s task) \<noteq> new_pri"
    and "\<And>t. prio (tasks s' t) = (if t = task then new_pri else prio (tasks s t))"
    and "\<not> new_pri < prio (tasks s' mt)" and "prio (tasks s' mt) = prio (tasks s task)"
  shows "((mt, q, s'), task, new_pri, s) \<in> pri_change_rel"
  using lowering_decreases [of s task new_pri s' mt q] assms
  by (simp add: pri_change_rel_def mlex_iff)

lemma set_prio_sel [simp]:
  "g_preferred_ready_task (set_prio t p s) = g_preferred_ready_task s"
  "g_ready_queue (set_prio t p s) = g_ready_queue s"
  "g_tick_head (set_prio t p s) = g_tick_head s"
  "g_kobj_list (set_prio t p s) = g_kobj_list s"
  "blks (set_prio t p s) = blks s"
  "mutexes (set_prio t p s) = mutexes s"
  "k_errs (set_prio t p s) = k_errs s"
  "ub (set_prio t p s) = ub s"
  "tasks (set_prio t p s) = (tasks s)(t := (tasks s t)\<lparr>prio := p\<rparr>)"
  by (simp_all add: set_prio_def)

lemma set_prio_env: "env (set_prio t p s) = env s"
  by (simp add: set_prio_def upd_task_env)

lemmas set_prio_env_sel [simp] = env_sel [OF set_prio_env]

text \<open>When the loop goes on: a blocked task, the owner of the mutex it waits for, and one of two reasons.\<close>

lemma task_pri_change_round_Inr:
  assumes "task_pri_change_round task new_pri s = Inr (mt, q, s')"
  obtains s1 where
    "prio (tasks s task) \<noteq> new_pri" and "task_state (tasks s task) \<in> {K_PEND, K_PEND_SUSPENDED}"
    and "s1 = pend_list_reorder task (set_prio task new_pri s)"
    and "obj_type (blks s (blk_obj (tasks s task))) = RHINO_MUTEX_OBJ_TYPE"
    and "mt = mutex_task (mutexes s (blk_obj (tasks s task)))" and "mt \<noteq> NULL"
    and "new_pri < prio (tasks s1 mt) \<and> q = new_pri \<and> s' = s1 \<or>
         \<not> new_pri < prio (tasks s1 mt) \<and> prio (tasks s1 mt) = prio (tasks s task) \<and>
         (q, s') = mutex_pri_look mt NULL s1 \<and> q \<noteq> prio (tasks s' mt)"
  by (rule that [OF _ _ refl])
    (use assms in \<open>auto simp: task_pri_change_round_def Let_def
       split: if_splits task_stat_t.splits prod.splits\<close>)

lemma task_pri_change_round_rel:
  assumes "task_pri_change_round task new_pri s = Inr (mt, q, s')"
  shows "((mt, q, s'), task, new_pri, s) \<in> pri_change_rel"
  using assms
proof (cases rule: task_pri_change_round_Inr)
  case (1 s1)
  from 1(7) show ?thesis
  proof
    assume "new_pri < prio (tasks s1 mt) \<and> q = new_pri \<and> s' = s1"
    with 1 show ?thesis by (auto intro!: pri_change_rel_raise)
  next
    assume r: "\<not> new_pri < prio (tasks s1 mt) \<and> prio (tasks s1 mt) = prio (tasks s task) \<and>
      (q, s') = mutex_pri_look mt NULL s1 \<and> q \<noteq> prio (tasks s' mt)"
    then have "s' = snd (mutex_pri_look mt NULL s1)" by (metis snd_conv)
    then have "prio (tasks s' t) = prio (tasks s1 t)" for t by simp
    with r 1 show ?thesis by (intro pri_change_rel_lower) simp_all
  qed
qed

termination task_pri_change
proof (relation pri_change_rel)
  show "wf pri_change_rel" by (simp add: pri_change_rel_def wf_mlex)
qed (auto simp: task_pri_change_round_rel)

declare task_pri_change.simps [simp del]

section \<open>Releasing a mutex\<close>

definition mutex_release :: "ptr \<Rightarrow> ptr \<Rightarrow> kernel \<Rightarrow> kernel" where
  "mutex_release task mutex_rel s =
     (let (new_pri, s) = mutex_pri_look task mutex_rel s in
      if new_pri \<noteq> prio (tasks s task) then snd (task_pri_change task new_pri s) else s)"

definition mutex_task_pri_reset :: "ptr \<Rightarrow> kernel \<Rightarrow> kernel" where
  "mutex_task_pri_reset task s =
     (let b = blk_obj (tasks s task) in
      if b = NULL then undefined_behaviour s
      else if obj_type (blks s b) = RHINO_MUTEX_OBJ_TYPE then
        let mt = mutex_task (mutexes s b) in
        if mt = NULL then undefined_behaviour s
        else if prio (tasks s mt) = prio (tasks s task) then mutex_release mt NULL s
        else s
      else s)"

section \<open>Properties\<close>

text \<open>
  C16: The loop that passes a priority on from a waiting task to the owner of the mutex and
  further along the chain of owners ends from every state, also when owners wait for each
  other in a circle: no infinite sequence of rounds exists.
\<close>

theorem task_pri_change_terminates:
  "wf {((task', pri', s'), (task, pri, s)). task_pri_change_round task pri s = Inr (task', pri', s')}"
proof (rule wf_subset)
  show "wf pri_change_rel" by (simp add: pri_change_rel_def wf_mlex)
qed (auto simp: task_pri_change_round_rel)

end
