(* ===== verification/Kernel_Inv.thy ===== *)
theory Kernel_Inv
  imports Pri_Inherit
begin

text \<open>
  The kernel invariant: every task is in exactly the lists its state says it is in, the
  blocking lists are in priority order, the tick list is in expiry order, and the idle
  task is always ready. The moves of a task between lists (waking, blocking, suspending,
  deleting) are described once as relations between states, and each is shown to keep the
  invariant; the operations of the components are then shown to be such moves.
\<close>

section \<open>Where a task is\<close>

abbreviation st :: "kernel \<Rightarrow> ptr \<Rightarrow> task_stat_t" where "st s t \<equiv> task_state (tasks s t)"
abbreviation pr :: "kernel \<Rightarrow> ptr \<Rightarrow> nat" where "pr s t \<equiv> prio (tasks s t)"
abbreviation bo :: "kernel \<Rightarrow> ptr \<Rightarrow> ptr" where "bo s t \<equiv> blk_obj (tasks s t)"
abbreviation bl :: "kernel \<Rightarrow> ptr \<Rightarrow> ptr list" where "bl s b \<equiv> blk_list (blks s b)"

definition pended :: "task_stat_t \<Rightarrow> bool" where
  "pended x \<longleftrightarrow> x = K_PEND \<or> x = K_PEND_SUSPENDED"

definition sleeping :: "task_stat_t \<Rightarrow> bool" where
  "sleeping x \<longleftrightarrow> x = K_SLEEP \<or> x = K_SLEEP_SUSPENDED"

definition suspended :: "task_stat_t \<Rightarrow> bool" where
  "suspended x \<longleftrightarrow> x = K_SUSPENDED \<or> x = K_PEND_SUSPENDED \<or> x = K_SLEEP_SUSPENDED"

definition live :: "task_stat_t \<Rightarrow> bool" where
  "live x \<longleftrightarrow> x \<noteq> K_SEED \<and> x \<noteq> K_DELETED"

lemma state_simps [simp]:
  "pended K_PEND" "pended K_PEND_SUSPENDED" "\<not> pended K_RDY" "\<not> pended K_SUSPENDED"
  "\<not> pended K_SLEEP" "\<not> pended K_SLEEP_SUSPENDED" "\<not> pended K_SEED" "\<not> pended K_DELETED"
  "sleeping K_SLEEP" "sleeping K_SLEEP_SUSPENDED" "\<not> sleeping K_RDY" "\<not> sleeping K_SUSPENDED"
  "\<not> sleeping K_PEND" "\<not> sleeping K_PEND_SUSPENDED" "\<not> sleeping K_SEED" "\<not> sleeping K_DELETED"
  "suspended K_SUSPENDED" "suspended K_PEND_SUSPENDED" "suspended K_SLEEP_SUSPENDED"
  "\<not> suspended K_RDY" "\<not> suspended K_PEND" "\<not> suspended K_SLEEP" "\<not> suspended K_SEED"
  "\<not> suspended K_DELETED"
  "live K_RDY" "live K_PEND" "live K_SUSPENDED" "live K_PEND_SUSPENDED" "live K_SLEEP"
  "live K_SLEEP_SUSPENDED" "\<not> live K_SEED" "\<not> live K_DELETED"
  by (simp_all add: pended_def sleeping_def suspended_def live_def)

definition remain :: "kernel \<Rightarrow> ptr \<Rightarrow> tick_t" where
  "remain s t = tick_match (tasks s t) - g_tick_count s"

section \<open>The invariant\<close>

definition ready_ok :: "kernel \<Rightarrow> bool" where
  "ready_ok s \<longleftrightarrow>
     (\<forall>p. distinct (ring s p)) \<and>
     (\<forall>p t. t \<in> set (ring s p) \<longleftrightarrow> st s t = K_RDY \<and> pr s t = p)"

definition blk_ok :: "kernel \<Rightarrow> bool" where
  "blk_ok s \<longleftrightarrow>
     (\<forall>b. distinct (bl s b)) \<and>
     (\<forall>b t. t \<in> set (bl s b) \<longleftrightarrow> pended (st s t) \<and> bo s t = b) \<and>
     (\<forall>b. blk_policy (blks s b) = BLK_POLICY_PRI \<longrightarrow> sorted (map (pr s) (bl s b)))"

definition tick_ok :: "kernel \<Rightarrow> bool" where
  "tick_ok s \<longleftrightarrow>
     distinct (g_tick_head s) \<and>
     (\<forall>t. t \<in> set (g_tick_head s) \<longleftrightarrow> tick_head (tasks s t)) \<and>
     (\<forall>t. tick_head (tasks s t) \<longrightarrow> pended (st s t) \<or> sleeping (st s t)) \<and>
     (\<forall>t. sleeping (st s t) \<longrightarrow> tick_head (tasks s t)) \<and>
     sorted (map (remain s) (g_tick_head s))"

text \<open>Between two ticks no task in the tick list is due.\<close>

definition tick_pos :: "kernel \<Rightarrow> bool" where
  "tick_pos s \<longleftrightarrow> (\<forall>t \<in> set (g_tick_head s). 0 < remain s t)"

definition task_ok :: "kernel \<Rightarrow> bool" where
  "task_ok s \<longleftrightarrow>
     (\<forall>t. live (st s t) \<longrightarrow> t \<noteq> NULL \<and> pr s t < RHINO_CONFIG_PRI_MAX \<and>
        b_prio (tasks s t) < RHINO_CONFIG_PRI_MAX) \<and>
     (\<forall>t. pended (st s t) \<longrightarrow> bo s t \<noteq> NULL) \<and>
     (\<forall>t. suspended (st s t) \<longrightarrow> 0 < suspend_count (tasks s t)) \<and>
     (\<forall>t. NULL \<notin> set (mutex_list (tasks s t)))"

definition idle_ok :: "kernel \<Rightarrow> bool" where
  "idle_ok s \<longleftrightarrow> st s (g_idle_task s) = K_RDY \<and> pr s (g_idle_task s) = RHINO_IDLE_PRI \<and>
     mutex_list (tasks s (g_idle_task s)) = [] \<and> g_active_task s \<noteq> NULL"

definition core_ok :: "kernel \<Rightarrow> bool" where
  "core_ok s \<longleftrightarrow> rq_ok (g_ready_queue s) \<and> ready_ok s \<and> blk_ok s \<and> tick_ok s \<and> task_ok s \<and> idle_ok s"

lemma core_okI:
  "rq_ok (g_ready_queue s) \<Longrightarrow> ready_ok s \<Longrightarrow> blk_ok s \<Longrightarrow> tick_ok s \<Longrightarrow> task_ok s \<Longrightarrow> idle_ok s \<Longrightarrow>
   core_ok s"
  by (simp add: core_ok_def)

lemma core_okD:
  assumes "core_ok s"
  shows "rq_ok (g_ready_queue s)" "ready_ok s" "blk_ok s" "tick_ok s" "task_ok s" "idle_ok s"
  using assms by (simp_all add: core_ok_def)

lemma in_ring_iff: "ready_ok s \<Longrightarrow> t \<in> set (ring s p) \<longleftrightarrow> st s t = K_RDY \<and> pr s t = p"
  by (simp add: ready_ok_def)

lemma in_bl_iff: "blk_ok s \<Longrightarrow> t \<in> set (bl s b) \<longleftrightarrow> pended (st s t) \<and> bo s t = b"
  by (simp add: blk_ok_def)

lemma idle_in_ring:
  "core_ok s \<Longrightarrow> g_idle_task s \<in> set (ring s RHINO_IDLE_PRI)"
  by (simp add: core_ok_def idle_ok_def ready_ok_def)

section \<open>Moving one task\<close>

text \<open>
  \<open>moved t s s'\<close>: only task \<open>t\<close> differs between the states, and its new state and its
  membership in the lists of \<open>s'\<close> fit together. Every operation on one task is shown to
  be such a move; a move keeps the invariant.
\<close>

definition moved :: "ptr \<Rightarrow> kernel \<Rightarrow> kernel \<Rightarrow> bool" where
  "moved t s s' \<longleftrightarrow>
     t \<noteq> g_idle_task s \<and> g_idle_task s' = g_idle_task s \<and> g_active_task s' = g_active_task s \<and>
     g_tick_count s' = g_tick_count s \<and>
     (\<forall>u. u \<noteq> t \<longrightarrow> tasks s' u = tasks s u) \<and>
     rq_ok (g_ready_queue s') \<and>
     (\<forall>p. placed t (st s' t = K_RDY \<and> pr s' t = p) (ring s p) (ring s' p)) \<and>
     (\<forall>b. placed t (pended (st s' t) \<and> bo s' t = b) (bl s b) (bl s' b)) \<and>
     (\<forall>b. blk_policy (blks s' b) = BLK_POLICY_PRI \<longrightarrow> sorted (map (pr s') (bl s' b))) \<and>
     placed t (tick_head (tasks s' t)) (g_tick_head s) (g_tick_head s') \<and>
     sorted (map (remain s') (g_tick_head s')) \<and>
     (tick_head (tasks s' t) \<longrightarrow> pended (st s' t) \<or> sleeping (st s' t)) \<and>
     (sleeping (st s' t) \<longrightarrow> tick_head (tasks s' t)) \<and>
     (live (st s' t) \<longrightarrow> t \<noteq> NULL \<and> pr s' t < RHINO_CONFIG_PRI_MAX \<and>
        b_prio (tasks s' t) < RHINO_CONFIG_PRI_MAX) \<and>
     (pended (st s' t) \<longrightarrow> bo s' t \<noteq> NULL) \<and>
     (suspended (st s' t) \<longrightarrow> 0 < suspend_count (tasks s' t)) \<and>
     NULL \<notin> set (mutex_list (tasks s' t))"

lemma movedD:
  assumes "moved t s s'"
  shows "t \<noteq> g_idle_task s" and "g_idle_task s' = g_idle_task s" and "g_active_task s' = g_active_task s"
    and "g_tick_count s' = g_tick_count s" and "u \<noteq> t \<Longrightarrow> tasks s' u = tasks s u"
    and "rq_ok (g_ready_queue s')"
    and "placed t (st s' t = K_RDY \<and> pr s' t = p) (ring s p) (ring s' p)"
    and "placed t (pended (st s' t) \<and> bo s' t = b) (bl s b) (bl s' b)"
    and "blk_policy (blks s' b) = BLK_POLICY_PRI \<Longrightarrow> sorted (map (pr s') (bl s' b))"
    and "placed t (tick_head (tasks s' t)) (g_tick_head s) (g_tick_head s')"
    and "sorted (map (remain s') (g_tick_head s'))"
    and "tick_head (tasks s' t) \<Longrightarrow> pended (st s' t) \<or> sleeping (st s' t)"
    and "sleeping (st s' t) \<Longrightarrow> tick_head (tasks s' t)"
    and "live (st s' t) \<Longrightarrow> t \<noteq> NULL \<and> pr s' t < RHINO_CONFIG_PRI_MAX \<and>
        b_prio (tasks s' t) < RHINO_CONFIG_PRI_MAX"
    and "pended (st s' t) \<Longrightarrow> bo s' t \<noteq> NULL"
    and "suspended (st s' t) \<Longrightarrow> 0 < suspend_count (tasks s' t)"
    and "NULL \<notin> set (mutex_list (tasks s' t))"
  using assms by (simp_all add: moved_def)

lemma moved_core_ok:
  assumes c: "core_ok s" and m: "moved t s s'"
  shows "core_ok s'"
proof (rule core_okI)
  note d = movedD [OF m]
  show "rq_ok (g_ready_queue s')" by (rule d(6))
  have "distinct (ring s' p) \<and> (u \<in> set (ring s' p) \<longleftrightarrow> st s' u = K_RDY \<and> pr s' u = p)" for p u
    using d(7) [of p] in_ring_iff [OF core_okD(2) [OF c], of u p] d(5) [of u]
    by (cases "u = t") (auto simp: placed_def)
  then show "ready_ok s'" by (simp add: ready_ok_def)
  have "distinct (bl s' b) \<and> (u \<in> set (bl s' b) \<longleftrightarrow> pended (st s' u) \<and> bo s' u = b)" for b u
    using d(8) [of b] in_bl_iff [OF core_okD(3) [OF c], of u b] d(5) [of u]
    by (cases "u = t") (auto simp: placed_def)
  with d(9) show "blk_ok s'" by (simp add: blk_ok_def)
  have k: "tick_ok s" by (rule core_okD(4) [OF c])
  have "distinct (g_tick_head s') \<and> (u \<in> set (g_tick_head s') \<longleftrightarrow> tick_head (tasks s' u))" for u
    using d(10) k d(5) [of u] by (cases "u = t") (auto simp: placed_def tick_ok_def)
  moreover have "tick_head (tasks s' u) \<Longrightarrow> pended (st s' u) \<or> sleeping (st s' u)"
    "sleeping (st s' u) \<Longrightarrow> tick_head (tasks s' u)" for u
    using d(12,13) d(5) [of u] k by (cases "u = t"; auto simp: tick_ok_def)+
  ultimately show "tick_ok s'" using d(11) by (auto simp: tick_ok_def)
  have "task_ok s" by (rule core_okD(5) [OF c])
  then show "task_ok s'"
    unfolding task_ok_def using d(14-17) d(5) by metis
  show "idle_ok s'"
    using core_okD(6) [OF c] d(1-3) d(5) [of "g_idle_task s"] by (auto simp: idle_ok_def)
qed

section \<open>Ready lists and membership\<close>

definition ready_placed :: "ptr \<Rightarrow> bool \<Rightarrow> nat \<Rightarrow> kernel \<Rightarrow> kernel \<Rightarrow> bool" where
  "ready_placed t c q s s' \<longleftrightarrow>
     rq_ok (g_ready_queue s') \<and> ub s' = ub s \<and>
     (\<forall>p. placed t (c \<and> q = p) (ring s p) (ring s' p))"

lemma ready_add_placed:
  assumes "rq_ok (g_ready_queue s)" and "ready_ok s0" and "ring s = ring s0"
    and "pr s t < RHINO_CONFIG_PRI_MAX" and "st s0 t \<noteq> K_RDY"
  shows "ready_placed t True (pr s t) s (ready_list_add_tail t s)"
    and "ready_placed t True (pr s t) s (ready_list_add_head t s)"
    and "g_active_task s \<noteq> NULL \<Longrightarrow> ready_placed t True (pr s t) s (ready_list_add t s)"
proof -
  have r: "distinct (ring s p)" "t \<notin> set (ring s p)" for p
    using assms(2,3,5) by (simp_all add: ready_ok_def)
  show tl: "ready_placed t True (pr s t) s (ready_list_add_tail t s)"
    using assms(1,4) r by (simp add: ready_placed_def rq_ok_add_tail ring_add_tail placed_def)
  show hd: "ready_placed t True (pr s t) s (ready_list_add_head t s)"
    using assms(1,4) r by (simp add: ready_placed_def rq_ok_add_head ring_add_head placed_def)
  show "ready_placed t True (pr s t) s (ready_list_add t s)" if "g_active_task s \<noteq> NULL"
    using tl hd that unfolding ready_list_add_def by (simp only: if_False) (metis (full_types))
qed

lemma ready_rm_placed:
  assumes c: "core_ok s0" and "g_ready_queue s = g_ready_queue s0" and "pr s t = pr s0 t"
    and "st s0 t = K_RDY" and "t \<noteq> g_idle_task s0"
  shows "ready_placed t False (pr s t) s (ready_list_rm t s)"
proof -
  have r: "distinct (ring s0 p)" for p using core_okD(2) [OF c] by (simp add: ready_ok_def)
  have t: "t \<in> set (ring s0 (pr s0 t))" using assms(4) in_ring_iff [OF core_okD(2) [OF c]] by simp
  have *: "rq_ok (g_ready_queue (ready_list_rm t s))"
    "ring (ready_list_rm t s) = (ring s)(pr s t := remove1 t (ring s (pr s t)))"
    "ub (ready_list_rm t s) = ub s"
    using ready_list_rm_effect [of s t "g_idle_task s0" RHINO_IDLE_PRI] assms r t
      core_okD(1) [OF c] idle_in_ring [OF c] by auto
  have "p \<noteq> pr s0 t \<Longrightarrow> t \<notin> set (ring s0 p)" for p
    using in_ring_iff [OF core_okD(2) [OF c]] by auto
  with * r assms(2,3) show ?thesis by (auto simp: ready_placed_def placed_def)
qed

lemma ready_placed_trans:
  assumes "ready_placed t c q s s1" and "ready_placed t c' q' s1 s2"
  shows "ready_placed t c' q' s s2"
  using assms by (auto simp: ready_placed_def placed_def)

section \<open>A task becomes ready or suspended or is deleted\<close>

definition same_links :: "ktask_t \<Rightarrow> ktask_t \<Rightarrow> bool" where
  "same_links k k' \<longleftrightarrow> prio k' = prio k \<and> b_prio k' = b_prio k \<and> mutex_list k' = mutex_list k"

text \<open>
  \<open>goes t x s s'\<close>: \<open>t\<close> leaves its blocking list and the tick list and gets the state \<open>x\<close>,
  in which it waits for nothing; it is in the ring of its priority if \<open>x\<close> is the ready state.
\<close>

definition goes :: "ptr \<Rightarrow> task_stat_t \<Rightarrow> kernel \<Rightarrow> kernel \<Rightarrow> bool" where
  "goes t x s s' \<longleftrightarrow>
     env s' = env s \<and> mutexes s' = mutexes s \<and> k_errs s' = k_errs s \<and>
     (\<exists>k. tasks s' = (tasks s)(t := k) \<and> same_links (tasks s t) k \<and> task_state k = x \<and>
        \<not> tick_head k \<and> (x = K_SUSPENDED \<longrightarrow> 0 < suspend_count k)) \<and>
     blks s' = (\<lambda>b. (blks s b)\<lparr>blk_list := remove1 t (bl s b)\<rparr>) \<and>
     g_tick_head s' = remove1 t (g_tick_head s) \<and>
     ready_placed t (x = K_RDY) (pr s t) s s' \<and> x \<in> {K_RDY, K_SUSPENDED, K_DELETED}"

lemma goes_moved:
  assumes c: "core_ok s" and g: "goes t x s s'" and t: "live (st s t)" "t \<noteq> g_idle_task s"
  shows "moved t s s'"
proof -
  have k: "blk_ok s" "tick_ok s" "task_ok s" by (rule core_okD [OF c])+
  obtain k' where e: "env s' = env s" and ts: "tasks s' = (tasks s)(t := k')"
    and l: "same_links (tasks s t) k'" "task_state k' = x" "\<not> tick_head k'"
      "x = K_SUSPENDED \<longrightarrow> 0 < suspend_count k'"
    and b: "blks s' = (\<lambda>b. (blks s b)\<lparr>blk_list := remove1 t (bl s b)\<rparr>)"
    and th: "g_tick_head s' = remove1 t (g_tick_head s)"
    and r: "ready_placed t (x = K_RDY) (pr s t) s s'" and x: "x \<in> {K_RDY, K_SUSPENDED, K_DELETED}"
    using g unfolding goes_def by blast
  note e [simp] = env_sel [OF e]
  have pr: "pr s' u = pr s u" for u using ts l(1) by (simp add: same_links_def)
  have rm: "u \<noteq> t \<Longrightarrow> remain s' u = remain s u" for u using ts by (simp add: remain_def)
  have np: "\<not> pended x" "\<not> sleeping x" using x by auto
  have d: "distinct (g_tick_head s)" "sorted (map (remain s) (g_tick_head s))"
    "distinct (bl s b)" for b using k by (simp_all add: tick_ok_def blk_ok_def)
  have "sorted (map (remain s') (remove1 t (g_tick_head s)))"
    using d rm by (intro sorted_map_cong [where g = "remain s'", OF sorted_map_remove1 [of "remain s"]]) auto
  moreover have "blk_policy (blks s b) = BLK_POLICY_PRI \<Longrightarrow> sorted (map (pr s') (remove1 t (bl s b)))" for b
    unfolding pr using k(1) by (intro sorted_map_remove1) (simp add: blk_ok_def)
  moreover have "t \<noteq> NULL" "pr s t < 62" "b_prio (tasks s t) < 62" "NULL \<notin> set (mutex_list (tasks s t))"
    using k(3) t(1) by (simp_all add: task_ok_def)
  moreover have "tasks s' t = k'" "\<And>u. u \<noteq> t \<Longrightarrow> tasks s' u = tasks s u" by (simp_all add: ts)
  ultimately show ?thesis
    using r np l t(2) d x unfolding moved_def
    by (auto simp: ready_placed_def b th same_links_def placed_remove1)
qed

lemma goes_core_ok:
  "core_ok s \<Longrightarrow> goes t x s s' \<Longrightarrow> live (st s t) \<Longrightarrow> t \<noteq> g_idle_task s \<Longrightarrow> core_ok s'"
  by (rule moved_core_ok [OF _ goes_moved])

section \<open>A ready task starts to wait\<close>

text \<open>
  \<open>waits t x b time s s'\<close>: the ready task \<open>t\<close> leaves its ring and sleeps or waits for object
  \<open>b\<close>, with a timeout if \<open>time\<close> is not zero.
\<close>

definition waits :: "ptr \<Rightarrow> task_stat_t \<Rightarrow> ptr \<Rightarrow> tick_t \<Rightarrow> kernel \<Rightarrow> kernel \<Rightarrow> bool" where
  "waits t x b time s s' \<longleftrightarrow>
     env s' = env s \<and> mutexes s' = mutexes s \<and> k_errs s' = k_errs s \<and>
     (\<exists>k. tasks s' = (tasks s)(t := k) \<and> same_links (tasks s t) k \<and> task_state k = x \<and>
        (x = K_PEND \<longrightarrow> blk_obj k = b) \<and> (tick_head k \<longleftrightarrow> 0 < time) \<and>
        (0 < time \<longrightarrow> tick_match k = g_tick_count s + time)) \<and>
     (\<forall>o'. obj_type (blks s' o') = obj_type (blks s o') \<and> blk_policy (blks s' o') = blk_policy (blks s o')) \<and>
     (\<forall>o'. bl s' o' =
        (if x = K_PEND \<and> o' = b
         then if blk_policy (blks s b) = BLK_POLICY_FIFO then bl s b @ [t]
              else insert_before (\<lambda>q. pr s q > pr s t) t (bl s b)
         else bl s o')) \<and>
     g_tick_head s' =
       (if 0 < time then insert_before (\<lambda>q. remain s q > time) t (g_tick_head s) else g_tick_head s) \<and>
     ready_placed t False (pr s t) s s' \<and>
     (x = K_PEND \<and> b \<noteq> NULL \<or> x = K_SLEEP \<and> 0 < time)"

lemma waits_moved:
  assumes c: "core_ok s" and g: "waits t x b time s s'" and t: "st s t = K_RDY" "t \<noteq> g_idle_task s"
  shows "moved t s s'"
proof -
  have k: "blk_ok s" "tick_ok s" "task_ok s" by (rule core_okD [OF c])+
  obtain k' where e: "env s' = env s" and ts: "tasks s' = (tasks s)(t := k')"
    and l: "same_links (tasks s t) k'" "task_state k' = x" "x = K_PEND \<longrightarrow> blk_obj k' = b"
      "tick_head k' \<longleftrightarrow> 0 < time" "0 < time \<longrightarrow> tick_match k' = g_tick_count s + time"
    and pol: "\<And>o'. blk_policy (blks s' o') = blk_policy (blks s o')"
    and b: "\<And>o'. bl s' o' =
        (if x = K_PEND \<and> o' = b
         then if blk_policy (blks s b) = BLK_POLICY_FIFO then bl s b @ [t]
              else insert_before (\<lambda>q. pr s q > pr s t) t (bl s b)
         else bl s o')"
    and th: "g_tick_head s' =
       (if 0 < time then insert_before (\<lambda>q. remain s q > time) t (g_tick_head s) else g_tick_head s)"
    and r: "ready_placed t False (pr s t) s s'" and x: "x = K_PEND \<and> b \<noteq> NULL \<or> x = K_SLEEP \<and> 0 < time"
    using g unfolding waits_def by blast
  note e [simp] = env_sel [OF e]
  have pr: "pr s' u = pr s u" for u using ts l(1) by (simp add: same_links_def)
  have rm: "u \<noteq> t \<Longrightarrow> remain s' u = remain s u" for u using ts by (simp add: remain_def)
  have rt: "0 < time \<Longrightarrow> remain s' t = time" using ts l(5) by (simp add: remain_def)
  have nt: "t \<notin> set (g_tick_head s)" "t \<notin> set (bl s o')" for o'
    using k(1,2) t(1) by (auto simp: tick_ok_def blk_ok_def)
  have d: "distinct (g_tick_head s)" "sorted (map (remain s) (g_tick_head s))" "distinct (bl s o')"
    "blk_policy (blks s o') = BLK_POLICY_PRI \<Longrightarrow> sorted (map (pr s) (bl s o'))" for o'
    using k by (simp_all add: tick_ok_def blk_ok_def)
  have "sorted (map (remain s') (g_tick_head s))"
    using d(2) by (rule sorted_map_cong) (metis nt(1) rm)
  then have "sorted (map (remain s') (g_tick_head s'))"
    unfolding th using nt(1) rm rt by (auto intro!: sorted_insert_before) (metis rm)+
  moreover have "placed t (tick_head k') (g_tick_head s) (g_tick_head s')"
    unfolding th l(4) using d(1) nt(1) by (auto intro: placed_insert_before placed_same)
  moreover have "sorted (map (pr s') (bl s' o'))" if "blk_policy (blks s' o') = BLK_POLICY_PRI" for o'
    unfolding b pr using d(4) that pol by (auto intro: sorted_insert_before)
  moreover have "placed t (pended x \<and> blk_obj k' = o') (bl s o') (bl s' o')" for o'
    unfolding b using d(3) nt(2) x l(3)
    by (auto intro!: placed_insert_before placed_same placed_insert [of _ "[]", simplified])
  moreover have "t \<noteq> NULL" "pr s t < 62" "b_prio (tasks s t) < 62" "NULL \<notin> set (mutex_list (tasks s t))"
    using k(3) t(1) by (simp_all add: task_ok_def)
  moreover have "tasks s' t = k'" "\<And>u. u \<noteq> t \<Longrightarrow> tasks s' u = tasks s u" by (simp_all add: ts)
  ultimately show ?thesis
    using r l t(2) x rt unfolding moved_def
    by (auto simp: ready_placed_def same_links_def)
qed

lemma waits_core_ok:
  "core_ok s \<Longrightarrow> waits t x b time s s' \<Longrightarrow> st s t = K_RDY \<Longrightarrow> t \<noteq> g_idle_task s \<Longrightarrow> core_ok s'"
  by (rule moved_core_ok [OF _ waits_moved])

section \<open>Changes outside the lists\<close>

text \<open>What the invariant reads of a task.\<close>

definition task_view :: "ktask_t \<Rightarrow> _" where
  "task_view k = (prio k, b_prio k, mutex_list k, if pended (task_state k) then blk_obj k else NULL,
     tick_head k, tick_match k)"

definition same_class :: "task_stat_t \<Rightarrow> task_stat_t \<Rightarrow> bool" where
  "same_class x y \<longleftrightarrow> (x = K_RDY \<longleftrightarrow> y = K_RDY) \<and> pended x = pended y \<and> sleeping x = sleeping y \<and>
     live x = live y"

lemma core_ok_cong:
  assumes "core_ok s"
    and "g_ready_queue s' = g_ready_queue s" and "g_tick_head s' = g_tick_head s"
    and "g_tick_count s' = g_tick_count s" and "g_idle_task s' = g_idle_task s"
    and "g_active_task s' \<noteq> NULL"
    and b: "\<And>b. bl s' b = bl s b" "\<And>b. bl s b \<noteq> [] \<Longrightarrow> blk_policy (blks s' b) = blk_policy (blks s b)"
    and t: "\<And>t. task_view (tasks s' t) = task_view (tasks s t)" "\<And>t. same_class (st s' t) (st s t)"
      "\<And>t. suspended (st s' t) \<Longrightarrow> 0 < suspend_count (tasks s' t)"
  shows "core_ok s'"
proof -
  have v: "pr s' u = pr s u" "tick_head (tasks s' u) = tick_head (tasks s u)"
    "mutex_list (tasks s' u) = mutex_list (tasks s u)" "b_prio (tasks s' u) = b_prio (tasks s u)"
    "tick_match (tasks s' u) = tick_match (tasks s u)" for u
    using t(1) [of u] by (simp_all add: task_view_def)
  have p: "pended (st s u) \<Longrightarrow> bo s' u = bo s u" for u
    using t(1) [of u] t(2) [of u] by (simp add: task_view_def same_class_def)
  have c: "st s' u = K_RDY \<longleftrightarrow> st s u = K_RDY" "pended (st s' u) = pended (st s u)"
    "sleeping (st s' u) = sleeping (st s u)" "live (st s' u) = live (st s u)" for u
    using t(2) [of u] by (simp_all add: same_class_def)
  have rm: "remain s' = remain s" by (simp add: remain_def v assms fun_eq_iff)
  have "blk_ok s'"
    using core_okD(3) [OF assms(1)] unfolding blk_ok_def v c b(1)
    by (metis b(2) p list.simps(8) sorted_wrt.simps(1))
  then show ?thesis
    using core_okD [OF assms(1)] assms(6) t(3)
    by (intro core_okI)
      (simp_all add: ready_ok_def tick_ok_def task_ok_def idle_ok_def v c p rm assms(2-5))
qed

section \<open>The operations of the blocking component are such moves\<close>

lemma tick_list_rm_head:
  "tick_ok s \<Longrightarrow> \<not> tick_head (tasks s t) \<Longrightarrow> remove1 t (g_tick_head s) = g_tick_head s"
  by (auto simp: tick_ok_def remove1_idem)

lemma blks_task_list_rm:
  "blks (task_list_rm t s) = (\<lambda>b. (blks s b)\<lparr>blk_list := remove1 t (bl s b)\<rparr>)"
  by (simp add: task_list_rm_def)

lemma core_ok_prio: "core_ok s \<Longrightarrow> live (st s t) \<Longrightarrow> pr s t < RHINO_CONFIG_PRI_MAX"
  using core_okD(5) by (simp add: task_ok_def)

lemma core_ok_active: "core_ok s \<Longrightarrow> g_active_task s \<noteq> NULL"
  using core_okD(6) by (simp add: idle_ok_def)

text \<open>Making a waiting or suspended task ready, whatever the order of the single steps.\<close>

lemma ready_goes:
  assumes c: "core_ok s" and t: "live (st s t)" "st s t \<noteq> K_RDY"
    and sa: "g_ready_queue sa = g_ready_queue s" "ub sa = ub s" "pr sa t = pr s t"
      "g_active_task sa = g_active_task s"
    and s': "g_ready_queue s' = g_ready_queue (ready_list_add t sa)" "ub s' = ub (ready_list_add t sa)"
    and "env s' = env s" "mutexes s' = mutexes s" "k_errs s' = k_errs s"
    and "tasks s' = (tasks s)(t := k)" "same_links (tasks s t) k" "task_state k = K_RDY" "\<not> tick_head k"
    and "blks s' = (\<lambda>b. (blks s b)\<lparr>blk_list := remove1 t (bl s b)\<rparr>)"
    and "g_tick_head s' = remove1 t (g_tick_head s)"
  shows "goes t K_RDY s s'"
proof -
  have "ready_placed t True (pr sa t) sa (ready_list_add t sa)"
    using core_okD [OF c] core_ok_prio [OF c t(1)] core_ok_active [OF c] t(2) sa
    by (intro ready_add_placed(3) [of sa s]) simp_all
  then have "ready_placed t True (pr s t) s s'"
    using sa s' by (simp add: ready_placed_def)
  with assms show ?thesis by (auto simp: goes_def)
qed

lemma suspended_goes:
  assumes c: "core_ok s" and t: "suspended (st s t)"
    and s': "g_ready_queue s' = g_ready_queue s" "ub s' = ub s"
    and "env s' = env s" "mutexes s' = mutexes s" "k_errs s' = k_errs s"
    and "tasks s' = (tasks s)(t := k)" "same_links (tasks s t) k" "task_state k = K_SUSPENDED" "\<not> tick_head k"
      "suspend_count k = suspend_count (tasks s t)"
    and "blks s' = (\<lambda>b. (blks s b)\<lparr>blk_list := remove1 t (bl s b)\<rparr>)"
    and "g_tick_head s' = remove1 t (g_tick_head s)"
  shows "goes t K_SUSPENDED s s'"
proof -
  have "0 < suspend_count (tasks s t)" using core_okD(5) [OF c] t by (simp add: task_ok_def)
  moreover have "ready_placed t False (pr s t) s s'"
    using core_okD(1,2) [OF c] s' t
    by (auto simp: ready_placed_def placed_def ready_ok_def)
  ultimately show ?thesis using assms by (auto simp: goes_def)
qed

lemma pended_cases:
  assumes "pended x" obtains "x = K_PEND" | "x = K_PEND_SUSPENDED"
  using assms by (auto simp: pended_def)

definition woken :: "task_stat_t \<Rightarrow> task_stat_t" where
  "woken x = (if x = K_PEND \<or> x = K_SLEEP then K_RDY else K_SUSPENDED)"

lemma pend_task_wakeup_goes:
  assumes c: "core_ok s" and t: "pended (st s t)"
  shows "goes t (woken (st s t)) s (pend_task_wakeup t s)"
  using t
proof (cases rule: pended_cases)
  case 1
  have "goes t K_RDY s (pend_task_wakeup t s)"
    by (rule ready_goes [OF c, where sa = "task_list_rm t s" and
          k = "(tasks s t)\<lparr>task_state := K_RDY, tick_head := False, blk_state := BLK_FINISH, blk_obj := NULL\<rparr>"])
      (simp_all add: 1 pend_task_wakeup_def Let_def upd_task_env tick_list_rm_env ready_list_add_env
        task_list_rm_env blks_task_list_rm tick_list_rm_head [OF core_okD(4) [OF c]] same_links_def)
  then show ?thesis by (simp add: 1 woken_def)
next
  case 2
  have "goes t K_SUSPENDED s (pend_task_wakeup t s)"
    by (rule suspended_goes [OF c, where
          k = "(tasks s t)\<lparr>task_state := K_SUSPENDED, tick_head := False, blk_state := BLK_FINISH, blk_obj := NULL\<rparr>"])
      (simp_all add: 2 pend_task_wakeup_def Let_def upd_task_env tick_list_rm_env
        task_list_rm_env blks_task_list_rm tick_list_rm_head [OF core_okD(4) [OF c]] same_links_def)
  then show ?thesis by (simp add: 2 woken_def)
qed

lemma pend_task_rm_goes:
  assumes c: "core_ok s" and t: "pended (st s t)"
  shows "goes t (woken (st s t)) s (pend_task_rm t s)"
  using t
proof (cases rule: pended_cases)
  case 1
  have "goes t K_RDY s (pend_task_rm t s)"
    by (rule ready_goes [OF c, where sa = "task_list_rm t s" and
          k = "(tasks s t)\<lparr>task_state := K_RDY, tick_head := False, blk_state := BLK_DEL, blk_obj := NULL\<rparr>"])
      (simp_all add: 1 pend_task_rm_def Let_def upd_task_env tick_list_rm_env ready_list_add_env
        task_list_rm_env blks_task_list_rm tick_list_rm_head [OF core_okD(4) [OF c]] same_links_def)
  then show ?thesis by (simp add: 1 woken_def)
next
  case 2
  have "goes t K_SUSPENDED s (pend_task_rm t s)"
    by (rule suspended_goes [OF c, where
          k = "(tasks s t)\<lparr>task_state := K_SUSPENDED, tick_head := False, blk_state := BLK_DEL, blk_obj := NULL\<rparr>"])
      (simp_all add: 2 pend_task_rm_def Let_def upd_task_env tick_list_rm_env
        task_list_rm_env blks_task_list_rm tick_list_rm_head [OF core_okD(4) [OF c]] same_links_def)
  then show ?thesis by (simp add: 2 woken_def)
qed

lemma tick_list_insert_effect:
  "env (tick_list_insert t time s) = env s"
  "g_ready_queue (tick_list_insert t time s) = g_ready_queue s"
  "blks (tick_list_insert t time s) = blks s"
  "mutexes (tick_list_insert t time s) = mutexes s"
  "k_errs (tick_list_insert t time s) = k_errs s"
  "ub (tick_list_insert t time s) = ub s"
  "g_kobj_list (tick_list_insert t time s) = g_kobj_list s"
  "g_preferred_ready_task (tick_list_insert t time s) = g_preferred_ready_task s"
  "tasks (tick_list_insert t time s) =
     (if 0 < time
      then (tasks s)(t := (tasks s t)\<lparr>tick_match := g_tick_count s + time, tick_remain := time,
                                     tick_head := True\<rparr>)
      else tasks s)"
  "t \<notin> set (g_tick_head s) \<Longrightarrow> g_tick_head (tick_list_insert t time s) =
     (if 0 < time then insert_before (\<lambda>q. remain s q > time) t (g_tick_head s) else g_tick_head s)"
proof -
  have "insert_before (\<lambda>q. tick_match (if q = t then k else tasks s q) - g_tick_count s > time) t xs =
      insert_before (\<lambda>q. remain s q > time) t xs" if "t \<notin> set xs" for xs k
    using that by (induction xs) (auto simp: remain_def)
  then show "t \<notin> set (g_tick_head s) \<Longrightarrow> g_tick_head (tick_list_insert t time s) =
     (if 0 < time then insert_before (\<lambda>q. remain s q > time) t (g_tick_head s) else g_tick_head s)"
    by (simp add: tick_list_insert_def tick_list_pri_insert_def Let_def)
qed (simp_all add: tick_list_insert_def tick_list_pri_insert_def Let_def env_def fun_eq_iff)

lemma ready_not_listed:
  assumes "core_ok s" and "st s t = K_RDY"
  shows "t \<notin> set (g_tick_head s)" and "\<not> tick_head (tasks s t)" and "t \<notin> set (bl s b)"
  using core_okD(3,4) [OF assms(1)] assms(2) by (auto simp: tick_ok_def blk_ok_def)

lemma pend_to_blk_obj_waits:
  assumes c: "core_ok s" and t: "st s t = K_RDY" "t \<noteq> g_idle_task s" and b: "b \<noteq> NULL"
  shows "waits t K_PEND b (if timeout = RHINO_WAIT_FOREVER then 0 else timeout) s
    (pend_to_blk_obj b t timeout s)"
proof -
  define time where "time = (if timeout = RHINO_WAIT_FOREVER then 0 else timeout)"
  define sa where "sa = upd_task t (\<lambda>k. k\<lparr>blk_obj := b\<rparr>) s"
  define sb where "sb = upd_task t (\<lambda>k. k\<lparr>task_state := K_PEND\<rparr>) (tick_list_insert t time sa)"
  define sc where "sc = ready_list_rm t sb"
  have nt: "t \<notin> set (g_tick_head s)" "\<not> tick_head (tasks s t)"
    using ready_not_listed [OF c t(1)] by simp_all
  have e: "env sc = env s"
    by (simp add: sc_def sb_def sa_def upd_task_env tick_list_insert_effect ready_list_rm_env)
  have rs: "remain sa = (\<lambda>q. remain s q)" by (simp add: sa_def remain_def fun_eq_iff)
  have tk: "g_tick_head sc = (if 0 < time then insert_before (\<lambda>q. remain s q > time) t (g_tick_head s)
      else g_tick_head s)"
  proof -
    have "t \<notin> set (g_tick_head sa)" using nt(1) by (simp add: sa_def)
    then show ?thesis by (simp add: sc_def sb_def tick_list_insert_effect rs) (simp add: sa_def)
  qed
  have "ready_placed t False (pr sb t) sb sc"
    unfolding sc_def using c t
    by (intro ready_rm_placed [of s]) (simp_all add: sb_def sa_def tick_list_insert_effect)
  then have r: "ready_placed t False (pr s t) s sc"
    by (simp add: ready_placed_def sb_def sa_def tick_list_insert_effect split: if_splits)
  have f: "pend_to_blk_obj b t timeout s =
      (if blk_policy (blks s b) = BLK_POLICY_FIFO
       then upd_blk b (\<lambda>o'. o'\<lparr>blk_list := blk_list o' @ [t]\<rparr>) sc else pend_list_add b t sc)"
    by (simp add: pend_to_blk_obj_def Let_def sc_def sb_def sa_def time_def tick_list_insert_effect)
      (simp add: tick_list_insert_def)
  have ts: "tasks sc = (tasks s)(t := (if 0 < time then (tasks s t)\<lparr>blk_obj := b,
      tick_match := g_tick_count s + time, tick_remain := time, tick_head := True, task_state := K_PEND\<rparr>
      else (tasks s t)\<lparr>blk_obj := b, task_state := K_PEND\<rparr>))"
    by (simp add: sc_def sb_def sa_def tick_list_insert_effect)
  have prc: "pr sc q = pr s q" for q by (simp add: ts)
  have sp: "insert_before (\<lambda>q. pr sc q > pr sc t) t xs = insert_before (\<lambda>q. pr s q > pr s t) t xs" for xs
    by (simp only: prc)
  have bs: "blks sc = blks s" "mutexes sc = mutexes s" "k_errs sc = k_errs s"
    by (simp_all add: sc_def sb_def sa_def tick_list_insert_effect)
  show ?thesis
    unfolding f waits_def time_def [symmetric]
    using r e tk b nt(2)
    by (simp add: upd_blk_env pend_list_add_env bs sp) (auto simp: ts same_links_def ready_placed_def)
qed

section \<open>Changing priorities\<close>

text \<open>
  \<open>pri_only s s'\<close>: the states differ only in task priorities and in the order of the ready
  rings and blocking lists.
\<close>

definition pri_only :: "kernel \<Rightarrow> kernel \<Rightarrow> bool" where
  "pri_only s s' \<longleftrightarrow>
     env s' = env s \<and> mutexes s' = mutexes s \<and> g_tick_head s' = g_tick_head s \<and>
     g_kobj_list s' = g_kobj_list s \<and> g_preferred_ready_task s' = g_preferred_ready_task s \<and>
     ub s' = ub s \<and> k_errs s' = k_errs s \<and>
     (\<forall>t. (tasks s' t)\<lparr>prio := 0\<rparr> = (tasks s t)\<lparr>prio := 0\<rparr>) \<and>
     (\<forall>b. (blks s' b)\<lparr>blk_list := []\<rparr> = (blks s b)\<lparr>blk_list := []\<rparr> \<and> set (bl s' b) = set (bl s b))"

lemma pri_only_refl: "pri_only s s"
  by (simp add: pri_only_def)

lemma pri_only_trans: "pri_only s s1 \<Longrightarrow> pri_only s1 s2 \<Longrightarrow> pri_only s s2"
  by (simp add: pri_only_def)

lemma pri_only_task:
  assumes "pri_only s s'"
  shows "st s' t = st s t" "bo s' t = bo s t" "mutex_list (tasks s' t) = mutex_list (tasks s t)"
    "b_prio (tasks s' t) = b_prio (tasks s t)" "tick_head (tasks s' t) = tick_head (tasks s t)"
    "tick_match (tasks s' t) = tick_match (tasks s t)"
    "suspend_count (tasks s' t) = suspend_count (tasks s t)"
    "blk_state (tasks s' t) = blk_state (tasks s t)"
proof -
  have *: "(tasks s' t)\<lparr>prio := 0\<rparr> = (tasks s t)\<lparr>prio := 0\<rparr>" using assms by (simp add: pri_only_def)
  show "st s' t = st s t" "bo s' t = bo s t" "mutex_list (tasks s' t) = mutex_list (tasks s t)"
    "b_prio (tasks s' t) = b_prio (tasks s t)" "tick_head (tasks s' t) = tick_head (tasks s t)"
    "tick_match (tasks s' t) = tick_match (tasks s t)"
    "suspend_count (tasks s' t) = suspend_count (tasks s t)"
    "blk_state (tasks s' t) = blk_state (tasks s t)"
    using arg_cong [OF *, of task_state] arg_cong [OF *, of blk_obj] arg_cong [OF *, of mutex_list]
      arg_cong [OF *, of b_prio] arg_cong [OF *, of tick_head] arg_cong [OF *, of tick_match]
      arg_cong [OF *, of suspend_count] arg_cong [OF *, of blk_state] by simp_all
qed

lemma pri_only_blk:
  assumes "pri_only s s'"
  shows "obj_type (blks s' b) = obj_type (blks s b)" "blk_policy (blks s' b) = blk_policy (blks s b)"
    "set (bl s' b) = set (bl s b)"
proof -
  have *: "(blks s' b)\<lparr>blk_list := []\<rparr> = (blks s b)\<lparr>blk_list := []\<rparr>" using assms by (simp add: pri_only_def)
  show "obj_type (blks s' b) = obj_type (blks s b)" "blk_policy (blks s' b) = blk_policy (blks s b)"
    "set (bl s' b) = set (bl s b)"
    using arg_cong [OF *, of obj_type] arg_cong [OF *, of blk_policy] assms
    by (simp_all add: pri_only_def)
qed

lemma pri_only_env:
  assumes "pri_only s s'"
  shows "env s' = env s" "mutexes s' = mutexes s" "g_tick_head s' = g_tick_head s"
    "g_kobj_list s' = g_kobj_list s" "ub s' = ub s" "k_errs s' = k_errs s"
  using assms by (simp_all add: pri_only_def)

lemma reprio_moved:
  assumes c: "core_ok s" and t: "live (st s t)" "t \<noteq> g_idle_task s" and p: "p < RHINO_CONFIG_PRI_MAX"
    and e: "env s' = env s" and ts: "tasks s' = (tasks s)(t := (tasks s t)\<lparr>prio := p\<rparr>)"
    and th: "g_tick_head s' = g_tick_head s"
    and r: "ready_placed t (st s t = K_RDY) p s s'"
    and b: "\<And>b. placed t (pended (st s t) \<and> bo s t = b) (bl s b) (bl s' b)"
      "\<And>b. blk_policy (blks s' b) = BLK_POLICY_PRI \<Longrightarrow> sorted (map (pr s') (bl s' b))"
  shows "moved t s s'"
proof -
  note [simp] = env_sel [OF e]
  have k: "tick_ok s" "task_ok s" by (rule core_okD [OF c])+
  have rm: "remain s' = remain s" by (simp add: remain_def ts fun_eq_iff)
  have "tasks s' t = (tasks s t)\<lparr>prio := p\<rparr>" "\<And>u. u \<noteq> t \<Longrightarrow> tasks s' u = tasks s u"
    by (simp_all add: ts)
  moreover have "placed t (tick_head (tasks s t)) (g_tick_head s) (g_tick_head s)"
    "sorted (map (remain s) (g_tick_head s))"
    using k(1) by (auto simp: tick_ok_def intro: placed_same)
  moreover have "tick_head (tasks s t) \<Longrightarrow> pended (st s t) \<or> sleeping (st s t)"
    "sleeping (st s t) \<Longrightarrow> tick_head (tasks s t)"
    using k(1) by (auto simp: tick_ok_def)
  moreover have "t \<noteq> NULL" "b_prio (tasks s t) < 62" "pended (st s t) \<Longrightarrow> bo s t \<noteq> NULL"
    "suspended (st s t) \<Longrightarrow> 0 < suspend_count (tasks s t)" "NULL \<notin> set (mutex_list (tasks s t))"
    using k(2) t(1) by (auto simp: task_ok_def)
  ultimately show ?thesis
    using r b t p unfolding moved_def by (auto simp: rm th ready_placed_def)
qed

lemma sorted_other:
  assumes c: "core_ok s" and "\<And>u. u \<noteq> t \<Longrightarrow> pr s' u = pr s u" and "t \<notin> set (bl s b)"
    and "blk_policy (blks s b) = BLK_POLICY_PRI"
  shows "sorted (map (pr s') (bl s b))"
proof -
  have "sorted (map (pr s) (bl s b))" using core_okD(3) [OF c] assms(4) by (simp add: blk_ok_def)
  then show ?thesis by (rule sorted_map_cong) (metis assms(2,3))
qed

lemma placed_bl: "core_ok s \<Longrightarrow> placed t (pended (st s t) \<and> bo s t = b) (bl s b) (bl s b)"
  using core_okD(3) [of s] by (auto simp: blk_ok_def intro: placed_same)

lemma set_prio_moved:
  assumes c: "core_ok s" and t: "live (st s t)" "t \<noteq> g_idle_task s" "st s t \<noteq> K_RDY" "\<not> pended (st s t)"
    and p: "p < RHINO_CONFIG_PRI_MAX"
  shows "moved t s (set_prio t p s)" and "pri_only s (set_prio t p s)"
proof -
  have n: "t \<notin> set (bl s b)" for b using core_okD(3) [OF c] t(4) by (simp add: blk_ok_def)
  show "moved t s (set_prio t p s)"
  proof (rule reprio_moved [OF c t(1,2) p])
    show "ready_placed t (st s t = K_RDY) p s (set_prio t p s)"
      using core_okD(1,2) [OF c] t(3) by (auto simp: ready_placed_def placed_def ready_ok_def)
    show "sorted (map (pr (set_prio t p s)) (bl (set_prio t p s) b))"
      if "blk_policy (blks (set_prio t p s) b) = BLK_POLICY_PRI" for b
      using that n unfolding set_prio_sel(5) by (intro sorted_other [OF c, of t]) simp_all
  qed (simp_all add: set_prio_env placed_bl [OF c])
  show "pri_only s (set_prio t p s)"
    by (simp add: pri_only_def set_prio_env)
qed

lemma ready_reprio_moved:
  assumes c: "core_ok s" and t: "t \<noteq> g_idle_task s" "st s t = K_RDY"
    and p: "p < RHINO_CONFIG_PRI_MAX"
    and s': "s' = (let s = set_prio t p (ready_list_rm t s)
       in if t = g_active_task s then ready_list_add_head t s else ready_list_add_tail t s)"
  shows "moved t s s'" and "pri_only s s'"
proof -
  define sa where "sa = ready_list_rm t s"
  have a: "ready_placed t False (pr s t) s sa"
    unfolding sa_def by (rule ready_rm_placed [OF c refl refl t(2,1)])
  define sb where "sb = set_prio t p sa"
  have n: "t \<notin> set (bl s b)" for b using ready_not_listed [OF c t(2)] by simp
  have r: "distinct (ring sa q)" "t \<notin> set (ring sa q)" for q
    using a by (auto simp: ready_placed_def placed_def)
  have "ready_placed t True p sb s'"
    using a r p by (auto simp: s' Let_def sb_def sa_def [symmetric] ready_placed_def rq_ok_add_head
        rq_ok_add_tail ring_add_head ring_add_tail placed_def)
  then have rp: "ready_placed t (st s t = K_RDY) p s s'"
    using a t(2) by (auto simp: sb_def ready_placed_def placed_def)
  have f: "env s' = env s" "tasks s' = (tasks s)(t := (tasks s t)\<lparr>prio := p\<rparr>)"
    "g_tick_head s' = g_tick_head s" "blks s' = blks s" "mutexes s' = mutexes s" "k_errs s' = k_errs s"
    "g_kobj_list s' = g_kobj_list s" "g_preferred_ready_task s' = g_preferred_ready_task s"
    by (simp_all add: s' Let_def ready_list_add_head_env ready_list_add_tail_env set_prio_env
        ready_list_rm_env)
  show "moved t s s'"
  proof (rule reprio_moved [OF c _ t(1) p f(1-3) rp])
    show "live (st s t)" using t(2) by simp
    show "placed t (pended (st s t) \<and> bo s t = b) (bl s b) (bl s' b)" for b
      unfolding f by (rule placed_bl [OF c])
    show "sorted (map (pr s') (bl s' b))" if "blk_policy (blks s' b) = BLK_POLICY_PRI" for b
      using that n unfolding f(4) by (intro sorted_other [OF c, of t]) (simp_all add: f(2))
  qed
  show "pri_only s s'"
    using rp by (simp add: pri_only_def f ready_placed_def)
qed

lemma pended_reprio_moved:
  assumes c: "core_ok s" and t: "pended (st s t)" and p: "p < RHINO_CONFIG_PRI_MAX"
  shows "moved t s (pend_list_reorder t (set_prio t p s))"
    and "pri_only s (pend_list_reorder t (set_prio t p s))"
proof -
  let ?s = "pend_list_reorder t (set_prio t p s)"
  have k: "blk_ok s" "task_ok s" by (rule core_okD [OF c])+
  have b0: "bo s t \<noteq> NULL" using k(2) t by (simp add: task_ok_def)
  have n: "b \<noteq> bo s t \<Longrightarrow> t \<notin> set (bl s b)" "distinct (bl s b)" for b
    using k(1) by (auto simp: blk_ok_def)
  have bl: "bl ?s b = (if b = bo s t \<and> blk_policy (blks s b) = BLK_POLICY_PRI
      then insert_before (\<lambda>q. pr ?s q > p) t (remove1 t (bl s b)) else bl s b)" for b
    using b0 n(1) [of b] by (auto simp: pend_list_reorder_def Let_def remove1_idem)
  have ti: "t \<noteq> g_idle_task s" using core_okD(6) [OF c] t by (auto simp: idle_ok_def)
  have ub: "ub ?s = ub s" using b0 by (simp add: pend_list_reorder_def Let_def)
  show "moved t s ?s"
  proof (rule reprio_moved [OF c _ ti p])
    show "live (st s t)" using t by (auto simp: pended_def)
    show "ready_placed t (st s t = K_RDY) p s ?s"
      using core_okD(1,2) [OF c] t ub by (auto simp: ready_placed_def placed_def ready_ok_def)
    show "placed t (pended (st s t) \<and> bo s t = b) (bl s b) (bl ?s b)" for b
      using n(2) t placed_bl [OF c, of t b] unfolding bl by (auto intro: placed_move)
    show "sorted (map (pr ?s) (bl ?s b))" if "blk_policy (blks ?s b) = BLK_POLICY_PRI" for b
    proof (cases "b = bo s t")
      case True
      have "sorted (map (pr s) (remove1 t (bl s b)))"
        using k(1) that by (intro sorted_map_remove1) (simp add: blk_ok_def)
      then have "sorted (map (pr ?s) (remove1 t (bl s b)))"
        by (rule sorted_map_cong) (use n(2) [of b] in auto)
      then show ?thesis using True that unfolding bl by (auto intro: sorted_insert_before)
    next
      case False
      then have "bl ?s b = bl s b" by (simp add: bl)
      moreover have "sorted (map (pr ?s) (bl s b))"
        using that n(1) [OF False] by (intro sorted_other [OF c, of t]) simp_all
      ultimately show ?thesis by (simp only:)
    qed
  qed (simp_all add: set_prio_env pend_list_reorder_env)
  have "set (bl ?s b) = set (bl s b)" for b
    using n(2) [of b] in_bl_iff [OF k(1), of t b] t unfolding bl by auto
  then show "pri_only s ?s"
    using ub by (simp add: pri_only_def set_prio_env pend_list_reorder_env)
qed

text \<open>
  \<open>owners_ok s\<close>: a mutex that a task waits for is held by a live task, and never by the
  idle task. Then the loop of \<^verbatim>\<open>task_pri_change\<close> keeps the invariant and changes priorities
  only, and neither dereferences a null owner nor reports an error.
\<close>

definition owners_ok :: "kernel \<Rightarrow> bool" where
  "owners_ok s \<longleftrightarrow>
     (\<forall>t. pended (st s t) \<and> obj_type (blks s (bo s t)) = RHINO_MUTEX_OBJ_TYPE \<longrightarrow>
        live (st s (mutex_task (mutexes s (bo s t)))) \<and>
        mutex_task (mutexes s (bo s t)) \<noteq> g_idle_task s)"

lemma owners_ok_pri_only: "pri_only s s' \<Longrightarrow> owners_ok s \<Longrightarrow> owners_ok s'"
  by (simp add: owners_ok_def pri_only_task pri_only_blk pri_only_env env_sel [OF pri_only_env(1)])

lemma mutex_pri_look_loop_le:
  "new_pri < M \<Longrightarrow> pri < M \<Longrightarrow> (\<And>m. m \<in> set ms \<Longrightarrow> bl s m \<noteq> [] \<Longrightarrow> pr s (hd (bl s m)) < M) \<Longrightarrow>
   mutex_pri_look_loop s rel ms pri new_pri < M"
  by (induction ms arbitrary: pri new_pri) (simp_all add: Let_def)

lemma core_ok_hd_prio: "core_ok s \<Longrightarrow> bl s m \<noteq> [] \<Longrightarrow> pr s (hd (bl s m)) < RHINO_CONFIG_PRI_MAX"
  using core_okD(3) [of s] by (intro core_ok_prio) (auto simp: blk_ok_def pended_def dest!: hd_in_set)

lemma mutex_pri_look_bound:
  "core_ok s \<Longrightarrow> live (st s t) \<Longrightarrow> fst (mutex_pri_look t m s) < RHINO_CONFIG_PRI_MAX"
  using core_okD(5) [of s] core_ok_hd_prio [of s]
  by (auto simp: mutex_pri_look_def Let_def task_ok_def intro!: mutex_pri_look_loop_le)

lemma mutex_pri_look_NULL: "task_ok s \<Longrightarrow> snd (mutex_pri_look t NULL s) = s"
proof -
  assume "task_ok s"
  then have "NULL \<notin> set (mutex_list (tasks s t))" by (simp add: task_ok_def)
  then have "filter (\<lambda>m. m \<noteq> NULL) (mutex_list (tasks s t)) = mutex_list (tasks s t)"
    by (intro filter_True) auto
  then show ?thesis by (simp add: mutex_pri_look_def Let_def upd_task_def)
qed

lemma live_cases:
  assumes "live x"
  obtains "x = K_RDY" | "x = K_SUSPENDED \<or> x = K_SLEEP \<or> x = K_SLEEP_SUSPENDED" | "pended x"
  using assms by (cases x) (auto simp: pended_def)

lemma task_pri_change_round_Inl:
  assumes c: "core_ok s" "owners_ok s" and t: "live (st s t)" "t \<noteq> g_idle_task s"
    and p: "p < RHINO_CONFIG_PRI_MAX" and i: "task_pri_change_round t p s = Inl (r, s')"
  shows "core_ok s' \<and> pri_only s s' \<and> r = RHINO_SUCCESS"
proof (cases "pr s t = p")
  case True
  with i c show ?thesis by (simp add: task_pri_change_round_def pri_only_refl)
next
  case False
  from t(1) show ?thesis
  proof (cases rule: live_cases)
    case 1
    with False i have "r = RHINO_SUCCESS" "s' = (let s = set_prio t p (ready_list_rm t s)
       in if t = g_active_task s then ready_list_add_head t s else ready_list_add_tail t s)"
      by (simp_all add: task_pri_change_round_def Let_def)
    with ready_reprio_moved [OF c(1) t(2) 1 p] moved_core_ok [OF c(1)] show ?thesis by blast
  next
    case 2
    with False i have "r = RHINO_SUCCESS" "s' = set_prio t p s"
      by (auto simp: task_pri_change_round_def)
    with set_prio_moved [OF c(1) t _ _ p] 2 moved_core_ok [OF c(1)] show ?thesis by auto
  next
    case 3
    define sa where "sa = pend_list_reorder t (set_prio t p s)"
    have m: "core_ok sa" "pri_only s sa"
      using pended_reprio_moved [OF c(1) 3 p] moved_core_ok [OF c(1)] by (simp_all add: sa_def)
    have o: "mutex_task (mutexes s (bo s t)) \<noteq> NULL" if "obj_type (blks s (bo s t)) = RHINO_MUTEX_OBJ_TYPE"
    proof -
      have "live (st s (mutex_task (mutexes s (bo s t))))" using c(2) 3 that by (simp add: owners_ok_def)
      then show ?thesis using core_okD(5) [OF c(1)] unfolding task_ok_def by blast
    qed
    define f where "f u = fst (mutex_pri_look u NULL sa)" for u
    have lk: "mutex_pri_look u NULL sa = (f u, sa)" for u
      unfolding f_def by (simp add: prod_eq_iff mutex_pri_look_NULL [OF core_okD(5) [OF m(1)]])
    have f: "tasks sa = (tasks s)(t := (tasks s t)\<lparr>prio := p\<rparr>)" "mutexes sa = mutexes s"
      "obj_type (blks sa b) = obj_type (blks s b)" for b by (simp_all add: sa_def)
    from 3 i False o have "r = RHINO_SUCCESS \<and> s' = sa"
      by (cases rule: pended_cases)
        (simp_all add: task_pri_change_round_def Let_def sa_def [symmetric] lk f split: if_splits)
    with m show ?thesis by simp
  qed
qed

lemma task_pri_change_round_next:
  assumes c: "core_ok s" "owners_ok s"
    and p: "p < RHINO_CONFIG_PRI_MAX" and i: "task_pri_change_round t p s = Inr (mt, q, s')"
  shows "s' = pend_list_reorder t (set_prio t p s)"
    and "core_ok s' \<and> pri_only s s' \<and> live (st s' mt) \<and> mt \<noteq> g_idle_task s' \<and> q < RHINO_CONFIG_PRI_MAX"
proof -
  from i obtain sa where a: "pended (st s t)" "sa = pend_list_reorder t (set_prio t p s)"
    "obj_type (blks s (bo s t)) = RHINO_MUTEX_OBJ_TYPE" "mt = mutex_task (mutexes s (bo s t))"
    "q = p \<and> s' = sa \<or> (q, s') = mutex_pri_look mt NULL sa"
    by (cases rule: task_pri_change_round_Inr) (auto simp: pended_def)
  have m: "core_ok sa" "pri_only s sa"
    using pended_reprio_moved [OF c(1) a(1) p] moved_core_ok [OF c(1)] by (simp_all add: a(2))
  have l: "live (st s mt)" "mt \<noteq> g_idle_task s"
    using c(2) a(1,3,4) by (auto simp: owners_ok_def)
  then have l': "live (st sa mt)" "mt \<noteq> g_idle_task sa"
    using m(2) by (simp_all add: pri_only_task env_sel [OF pri_only_env(1) [OF m(2)]])
  from a(5) have s': "s' = sa" using mutex_pri_look_NULL [OF core_okD(5) [OF m(1)]] by (metis snd_conv)
  then show "s' = pend_list_reorder t (set_prio t p s)" by (simp add: a(2))
  from a(5) have "q < 62" using p mutex_pri_look_bound [OF m(1) l'(1), of NULL] by (metis fst_conv)
  with m l' s' show "core_ok s' \<and> pri_only s s' \<and> live (st s' mt) \<and> mt \<noteq> g_idle_task s' \<and> q < 62"
    by simp
qed

lemma task_pri_change_core:
  assumes "core_ok s" "owners_ok s" and "live (st s t)" "t \<noteq> g_idle_task s" and "p < RHINO_CONFIG_PRI_MAX"
  shows "core_ok (snd (task_pri_change t p s)) \<and> pri_only s (snd (task_pri_change t p s)) \<and>
    fst (task_pri_change t p s) = RHINO_SUCCESS"
  using assms
proof (induction t p s rule: task_pri_change.induct)
  case (1 t p s)
  show ?case
  proof (cases "task_pri_change_round t p s")
    case (Inl r)
    with task_pri_change_round_Inl [OF 1(2-6), of "fst r" "snd r"] show ?thesis
      by (simp add: task_pri_change.simps [of t p s])
  next
    case (Inr r)
    then obtain mt q s' where r: "task_pri_change_round t p s = Inr (mt, q, s')" by (cases r) auto
    note n = task_pri_change_round_next(2) [OF 1(2,3,6) r]
    with 1(1) [OF r refl refl] owners_ok_pri_only [of s s'] 1(3) pri_only_trans [of s s'] show ?thesis
      by (simp add: task_pri_change.simps [of t p s] r)
  qed
qed

end
