(* ===== verification/Mutex_Inv.thy ===== *)
theory Mutex_Inv
  imports Kernel_Inv
begin

text \<open>
  Mutex ownership and priority inheritance as invariants. Every live task runs at the
  smallest (most urgent) of its base priority and the priorities of the tasks that wait for
  a mutex it holds. The main lemma is that the loop of \<^verbatim>\<open>task_pri_change\<close> restores this for
  all tasks when it was only broken for the task it starts from, whatever the shape of the
  chain of owners.
\<close>

section \<open>Ownership\<close>

abbreviation owner :: "kernel \<Rightarrow> ptr \<Rightarrow> ptr" where "owner s m \<equiv> mutex_task (mutexes s m)"
abbreviation held :: "kernel \<Rightarrow> ptr \<Rightarrow> ptr list" where "held s t \<equiv> mutex_list (tasks s t)"

definition is_mutex :: "kernel \<Rightarrow> ptr \<Rightarrow> bool" where
  "is_mutex s m \<longleftrightarrow> obj_type (blks s m) = RHINO_MUTEX_OBJ_TYPE"

definition mutex_ok :: "kernel \<Rightarrow> bool" where
  "mutex_ok s \<longleftrightarrow>
     (\<forall>t m. live (st s t) \<and> m \<in> set (held s t) \<longrightarrow> is_mutex s m \<and> owner s m = t) \<and>
     (\<forall>m. is_mutex s m \<and> owner s m \<noteq> NULL \<longrightarrow>
        live (st s (owner s m)) \<and> m \<in> set (held s (owner s m)) \<and> 0 < owner_nested (mutexes s m)) \<and>
     (\<forall>t. live (st s t) \<longrightarrow> distinct (held s t)) \<and>
     (\<forall>m. is_mutex s m \<longrightarrow> blk_policy (blks s m) = BLK_POLICY_PRI) \<and>
     (\<forall>t. pended (st s t) \<and> is_mutex s (bo s t) \<longrightarrow> owner s (bo s t) \<noteq> NULL \<and> owner s (bo s t) \<noteq> t)"

lemma mutex_okD:
  assumes "mutex_ok s"
  shows "live (st s t) \<Longrightarrow> m \<in> set (held s t) \<Longrightarrow> is_mutex s m \<and> owner s m = t"
    and "is_mutex s m \<Longrightarrow> owner s m \<noteq> NULL \<Longrightarrow>
      live (st s (owner s m)) \<and> m \<in> set (held s (owner s m)) \<and> 0 < owner_nested (mutexes s m)"
    and "live (st s t) \<Longrightarrow> distinct (held s t)"
    and "is_mutex s m \<Longrightarrow> blk_policy (blks s m) = BLK_POLICY_PRI"
    and "pended (st s t) \<Longrightarrow> is_mutex s (bo s t) \<Longrightarrow> owner s (bo s t) \<noteq> NULL \<and> owner s (bo s t) \<noteq> t"
  using assms by (auto simp: mutex_ok_def)

lemma pended_live: "pended x \<Longrightarrow> live x"
  by (auto simp: pended_def)

lemma mutex_ok_owners_ok: "mutex_ok s \<Longrightarrow> core_ok s \<Longrightarrow> owners_ok s"
  unfolding owners_ok_def
proof (intro allI impI)
  fix t assume a: "mutex_ok s" "core_ok s"
    "pended (st s t) \<and> obj_type (blks s (bo s t)) = RHINO_MUTEX_OBJ_TYPE"
  then have "owner s (bo s t) \<noteq> NULL" "is_mutex s (bo s t)"
    using mutex_okD(5) [OF a(1), of t] by (auto simp: is_mutex_def)
  with mutex_okD(2) [OF a(1), of "bo s t"] core_okD(6) [OF a(2)]
  show "live (st s (owner s (bo s t))) \<and> owner s (bo s t) \<noteq> g_idle_task s"
    by (auto simp: idle_ok_def)
qed

lemma mutex_ok_pri_only: "pri_only s s' \<Longrightarrow> mutex_ok s \<Longrightarrow> mutex_ok s'"
  by (simp add: mutex_ok_def is_mutex_def pri_only_task pri_only_blk pri_only_env)

section \<open>The priority a task should have\<close>

definition waiters :: "kernel \<Rightarrow> ptr \<Rightarrow> ptr set" where
  "waiters s t = {u. pended (st s u) \<and> bo s u \<in> set (held s t)}"

text \<open>
  \<open>need_is ex s t r\<close>: \<open>r\<close> is the least of the base priority of \<open>t\<close>, the priorities of the
  tasks waiting for its mutexes, and \<open>ex t\<close>, the priority of a task that is about to wait.
\<close>

definition need_is :: "(ptr \<Rightarrow> nat option) \<Rightarrow> kernel \<Rightarrow> ptr \<Rightarrow> nat \<Rightarrow> bool" where
  "need_is ex s t r \<longleftrightarrow>
     r \<le> b_prio (tasks s t) \<and> (\<forall>u \<in> waiters s t. r \<le> pr s u) \<and> (\<forall>x. ex t = Some x \<longrightarrow> r \<le> x) \<and>
     (r = b_prio (tasks s t) \<or> (\<exists>u \<in> waiters s t. r = pr s u) \<or> ex t = Some r)"

definition pi_ok :: "kernel \<Rightarrow> bool" where
  "pi_ok s \<longleftrightarrow> (\<forall>t. live (st s t) \<longrightarrow> need_is Map.empty s t (pr s t))"

lemma need_is_unique: "need_is ex s t r \<Longrightarrow> need_is ex s t r' \<Longrightarrow> r = r'"
  unfolding need_is_def by (metis le_antisym)

lemma need_is_Min:
  "need_is Map.empty s t r \<longleftrightarrow> r = Min (insert (b_prio (tasks s t)) (pr s ` waiters s t))"
proof -
  have "r = Min A \<longleftrightarrow> r \<in> A \<and> (\<forall>a \<in> A. r \<le> a)" if "finite A" "A \<noteq> {}" for A :: "nat set"
    using that by (metis Min_eqI Min_in Min_le)
  from this [of "insert (b_prio (tasks s t)) (pr s ` waiters s t)"] show ?thesis
    by (auto simp: need_is_def)
qed

lemma waiters_owner:
  assumes "mutex_ok s" "live (st s t)" "u \<in> waiters s t"
  shows "pended (st s u)" "is_mutex s (bo s u)" "owner s (bo s u) = t" "u \<noteq> t"
proof -
  have u: "pended (st s u)" "bo s u \<in> set (held s t)" using assms(3) by (auto simp: waiters_def)
  with mutex_okD(1) [OF assms(1,2)] have "is_mutex s (bo s u)" "owner s (bo s u) = t" by auto
  with mutex_okD(5) [OF assms(1), of u] u show "pended (st s u)" "is_mutex s (bo s u)"
    "owner s (bo s u) = t" "u \<noteq> t" by auto
qed

section \<open>What the mutex functions compute\<close>

lemma look_loop_min:
  "new_pri \<le> pri \<Longrightarrow>
   (let r = mutex_pri_look_loop s rel ms pri new_pri in
    r \<le> new_pri \<and> (\<forall>m \<in> set ms. m \<noteq> rel \<and> bl s m \<noteq> [] \<longrightarrow> r \<le> pr s (hd (bl s m))) \<and>
    (r = new_pri \<or> (\<exists>m \<in> set ms. m \<noteq> rel \<and> bl s m \<noteq> [] \<and> r = pr s (hd (bl s m)))))"
proof (induction ms arbitrary: pri new_pri)
  case Nil
  then show ?case by simp
next
  case (Cons m ms)
  let ?pri = "if bl s m \<noteq> [] then pr s (hd (bl s m)) else pri"
  let ?new = "if new_pri > ?pri then ?pri else new_pri"
  show ?case
  proof (cases "m = rel")
    case True
    with Cons.IH [OF Cons.prems] show ?thesis by (auto simp: Let_def)
  next
    case False
    have "?new \<le> ?pri" by simp
    from Cons.IH [OF this] False Cons.prems show ?thesis
      by (auto simp: Let_def split: if_splits)
  qed
qed

lemma hd_waiter_least:
  assumes "core_ok s" "blk_policy (blks s m) = BLK_POLICY_PRI" "u \<in> set (bl s m)"
  shows "pr s (hd (bl s m)) \<le> pr s u"
  using core_okD(3) [OF assms(1)] assms(2,3) by (auto simp: blk_ok_def intro: sorted_hd_min)

lemma look_need:
  assumes c: "core_ok s" and m: "\<And>m. m \<in> set (held s t) \<Longrightarrow> m \<noteq> rel \<Longrightarrow> blk_policy (blks s m) = BLK_POLICY_PRI"
  shows "need_is Map.empty (snd (mutex_pri_look t rel s)) t (fst (mutex_pri_look t rel s))"
proof -
  let ?s = "snd (mutex_pri_look t rel s)"
  let ?b = "b_prio (tasks s t)"
  define r where "r = mutex_pri_look_loop s rel (held s t) ?b ?b"
  have f: "fst (mutex_pri_look t rel s) = r" by (simp add: mutex_pri_look_def Let_def r_def)
  have w: "u \<in> waiters ?s t \<longleftrightarrow> (\<exists>m \<in> set (held s t). m \<noteq> rel \<and> u \<in> set (bl s m))" for u
    using in_bl_iff [OF core_okD(3) [OF c]] by (auto simp: waiters_def)
  have l: "r \<le> ?b \<and> (\<forall>m \<in> set (held s t). m \<noteq> rel \<and> bl s m \<noteq> [] \<longrightarrow> r \<le> pr s (hd (bl s m))) \<and>
    (r = ?b \<or> (\<exists>m \<in> set (held s t). m \<noteq> rel \<and> bl s m \<noteq> [] \<and> r = pr s (hd (bl s m))))"
    using look_loop_min [of ?b ?b s rel "held s t"] by (simp add: r_def Let_def)
  have le: "r \<le> pr s u" if "u \<in> waiters ?s t" for u
  proof -
    from that w obtain m' where "m' \<in> set (held s t)" "m' \<noteq> rel" "u \<in> set (bl s m')" by auto
    moreover from this have "bl s m' \<noteq> []" by auto
    ultimately show ?thesis using l hd_waiter_least [OF c m, of m' u] by (meson order_trans)
  qed
  have ex: "r = ?b \<or> (\<exists>u \<in> waiters ?s t. r = pr s u)"
    using l w by (metis hd_in_set)
  have "pr ?s u = pr s u" "b_prio (tasks ?s u) = ?b \<or> u \<noteq> t" for u by auto
  then show ?thesis unfolding need_is_def f using l le ex by auto
qed

lemma look_need_NULL:
  assumes "core_ok s" "mutex_ok s" "live (st s t)"
  shows "need_is Map.empty s t (fst (mutex_pri_look t NULL s))"
  using look_need [OF assms(1), of t NULL] mutex_okD(1,4) [OF assms(2)] assms(3)
    mutex_pri_look_NULL [OF core_okD(5) [OF assms(1)], of t] by metis

section \<open>The loop restores inheritance\<close>

lemma waiters_pri_only: "pri_only s s' \<Longrightarrow> waiters s' t = waiters s t"
  by (simp add: waiters_def pri_only_task)

lemma need_is_cong:
  assumes "waiters s' u = waiters s u" "b_prio (tasks s' u) = b_prio (tasks s u)"
    and "\<And>w. w \<in> waiters s u \<Longrightarrow> pr s' w = pr s w"
  shows "need_is ex s' u r \<longleftrightarrow> need_is ex s u r"
  using assms by (auto simp: need_is_def)

text \<open>The loop invariant: inheritance holds for all tasks but \<open>t\<close>, whose priority should become \<open>p\<close>.\<close>

definition pi_but :: "(ptr \<Rightarrow> nat option) \<Rightarrow> kernel \<Rightarrow> ptr \<Rightarrow> nat \<Rightarrow> bool" where
  "pi_but ex s t p \<longleftrightarrow>
     (\<forall>u. live (st s u) \<and> u \<noteq> t \<longrightarrow> need_is ex s u (pr s u)) \<and> need_is ex s t p \<and>
     (ex = Map.empty \<or> p < pr s t)"

definition pi_all :: "(ptr \<Rightarrow> nat option) \<Rightarrow> kernel \<Rightarrow> bool" where
  "pi_all ex s \<longleftrightarrow> (\<forall>u. live (st s u) \<longrightarrow> need_is ex s u (pr s u))"

lemma pi_ok_pi_all: "pi_ok s = pi_all Map.empty s"
  by (simp add: pi_ok_def pi_all_def)

text \<open>Changing the priority of \<open>t\<close> alone matters only to the owner of the mutex \<open>t\<close> waits for.\<close>

lemma pi_but_set:
  assumes m: "mutex_ok s" and j: "pi_but ex s t p" and o: "pri_only s s'"
    and pr: "\<And>u. pr s' u = (if u = t then p else pr s u)"
    and u: "live (st s u)" "t \<notin> waiters s u"
  shows "need_is ex s' u (pr s' u)"
proof -
  have "need_is ex s' u r = need_is ex s u r" for r
    using u pri_only_task [OF o] waiters_pri_only [OF o] pr by (intro need_is_cong) auto
  then show ?thesis using j u(1) pr [of u] by (auto simp: pi_but_def)
qed

lemma need_owner_raise:
  assumes "need_is ex s mt (pr s mt)" and o: "pri_only s s'"
    and pr: "\<And>u. pr s' u = (if u = t then p else pr s u)" and t: "t \<in> waiters s mt"
    and "p < pr s mt"
  shows "need_is ex s' mt p"
proof -
  have "pr s mt \<le> b_prio (tasks s mt)" "\<forall>u \<in> waiters s mt. pr s mt \<le> pr s u"
    "\<forall>x. ex mt = Some x \<longrightarrow> pr s mt \<le> x" using assms(1) by (simp_all add: need_is_def)
  then show ?thesis
    using assms(5) t pr unfolding need_is_def waiters_pri_only [OF o] pri_only_task [OF o]
    by (auto intro: order.trans [of p "pr s mt"])
qed

lemma need_owner_keep:
  assumes n: "need_is ex s mt (pr s mt)" and o: "pri_only s s'"
    and pr: "\<And>u. pr s' u = (if u = t then p else pr s u)" and t: "t \<in> waiters s mt" "t \<noteq> mt"
    and p: "\<not> p < pr s mt" "pr s mt \<noteq> pr s t"
  shows "need_is ex s' mt (pr s' mt)"
proof -
  have "(\<exists>u \<in> waiters s mt. pr s mt = pr s u) \<longrightarrow> (\<exists>u \<in> waiters s mt. pr s mt = pr s' u)"
    using p(2) pr by metis
  moreover have "\<forall>u \<in> waiters s mt. pr s mt \<le> pr s' u"
    using n p(1) pr by (auto simp: need_is_def)
  moreover have "pr s' mt = pr s mt" using t(2) pr by simp
  ultimately show ?thesis
    using n unfolding need_is_def waiters_pri_only [OF o] pri_only_task [OF o] by (simp only:) blast
qed

lemma round_pri:
  assumes "core_ok s" "owners_ok s" and t: "live (st s t)" "t \<noteq> g_idle_task s"
    and p: "p < RHINO_CONFIG_PRI_MAX"
  shows "task_pri_change_round t p s = Inl (r, s') \<Longrightarrow> pr s' u = (if u = t then p else pr s u)"
    and "task_pri_change_round t p s = Inr (mt, q, s') \<Longrightarrow> pr s' u = (if u = t then p else pr s u)"
proof -
  show "pr s' u = (if u = t then p else pr s u)" if "task_pri_change_round t p s = Inr (mt, q, s')"
    using task_pri_change_round_next(1) [OF assms(1,2) p that] by simp
  assume i: "task_pri_change_round t p s = Inl (r, s')"
  show "pr s' u = (if u = t then p else pr s u)"
    using i t(1) by (auto simp: task_pri_change_round_def Let_def mutex_pri_look_def
        split: if_splits task_stat_t.splits prod.splits)
qed

lemma pended_waiter:
  assumes "mutex_ok s" and "pended (st s t)" and "is_mutex s (bo s t)"
  shows "t \<in> waiters s (owner s (bo s t))" and "live (st s (owner s (bo s t)))"
    and "owner s (bo s t) \<noteq> t"
  using mutex_okD(5) [OF assms(1), of t] mutex_okD(2) [OF assms(1), of "bo s t"] assms(2,3)
  by (auto simp: waiters_def)

lemma not_waiter:
  assumes "mutex_ok s" and "live (st s u)"
    and "\<not> (pended (st s t) \<and> is_mutex s (bo s t) \<and> u = owner s (bo s t))"
  shows "t \<notin> waiters s u"
  using waiters_owner [OF assms(1,2), of t] assms(3) by blast

text \<open>
  One round that ends: the owner of the mutex \<open>t\<close> waits for, if there is one, keeps a
  fitting priority.
\<close>

lemma round_Inl_owner:
  assumes t: "pended (st s t)" "is_mutex s (bo s t)" and o: "owner s (bo s t) \<noteq> NULL"
    and i: "task_pri_change_round t p s = Inl (r, s')" and p: "pr s t \<noteq> p"
    and s1: "s1 = pend_list_reorder t (set_prio t p s)"
  shows "\<not> p < pr s1 (owner s (bo s t)) \<and>
    (pr s1 (owner s (bo s t)) = pr s t \<longrightarrow>
       fst (mutex_pri_look (owner s (bo s t)) NULL s1) = pr s1 (owner s (bo s t)))"
  using t(1) i p o t(2) unfolding s1 is_mutex_def
  by (cases rule: pended_cases)
    (auto simp: task_pri_change_round_def Let_def case_prod_beta split: if_splits)

lemma round_pi_Inl:
  assumes c: "core_ok s" "mutex_ok s" and t: "live (st s t)" "t \<noteq> g_idle_task s"
    and p: "p < RHINO_CONFIG_PRI_MAX" and j: "pi_but ex s t p"
    and i: "task_pri_change_round t p s = Inl (r, s')"
  shows "pi_all ex s'"
  unfolding pi_all_def
proof (intro allI impI)
  fix u assume "live (st s' u)"
  note oo = mutex_ok_owners_ok [OF c(2,1)]
  have po: "core_ok s'" "pri_only s s'" using task_pri_change_round_Inl [OF c(1) oo t p i] by simp_all
  then have u: "live (st s u)" using \<open>live (st s' u)\<close> by (simp add: pri_only_task)
  note pr = round_pri(1) [OF c(1) oo t p i]
  show "need_is ex s' u (pr s' u)"
  proof (cases "pended (st s t) \<and> is_mutex s (bo s t) \<and> u = owner s (bo s t) \<and> pr s t \<noteq> p")
    case False
    show ?thesis
    proof (cases "pr s t = p")
      case True
      then have "need_is ex s u (pr s u)" using j u by (cases "u = t") (auto simp: pi_but_def)
      moreover have "pr s' v = pr s v" for v using pr True by simp
      ultimately show ?thesis
        using need_is_cong [of s' u s ex "pr s u"] pri_only_task [OF po(2)] waiters_pri_only [OF po(2)] by simp
    next
      case False
      with \<open>\<not> (pended _ \<and> _)\<close> have "t \<notin> waiters s u" using not_waiter [OF c(2) u] by blast
      then show ?thesis using pi_but_set [OF c(2) j po(2) pr u] by simp
    qed
  next
    case True
    then have mt: "t \<in> waiters s u" "u \<noteq> t" "owner s (bo s t) \<noteq> NULL"
      using pended_waiter [OF c(2), of t] mutex_okD(5) [OF c(2), of t] by auto
    have n: "need_is ex s u (pr s u)" using j u mt(2) by (simp add: pi_but_def)
    define s1 where "s1 = pend_list_reorder t (set_prio t p s)"
    have m1: "core_ok s1" "pri_only s s1"
      using pended_reprio_moved [OF c(1) _ p] True moved_core_ok [OF c(1)] by (auto simp: s1_def)
    have p1: "pr s1 v = (if v = t then p else pr s v)" for v by (simp add: s1_def)
    have r: "\<not> p < pr s1 u" "pr s1 u = pr s t \<Longrightarrow> fst (mutex_pri_look u NULL s1) = pr s1 u"
      using round_Inl_owner [OF _ _ mt(3) i _ s1_def] True by auto
    show ?thesis
    proof (cases "pr s u = pr s t")
      case False
      then show ?thesis using need_owner_keep [OF n po(2) pr mt(1)] r(1) p1 mt(2) by simp
    next
      case True
      with r(1) j p1 mt(2) have ex: "ex = Map.empty"
        using \<open>pended _ \<and> _\<close> by (auto simp: pi_but_def)
      have "mutex_ok s1" by (rule mutex_ok_pri_only [OF m1(2) c(2)])
      then have "need_is ex s1 u (fst (mutex_pri_look u NULL s1))"
        using look_need_NULL [OF m1(1)] u pri_only_task [OF m1(2)] ex by simp
      then have "need_is ex s1 u (pr s1 u)" using r(2) True p1 mt(2) by simp
      moreover have "pr s' v = pr s1 v" for v using pr p1 by simp
      ultimately show ?thesis
        using need_is_cong [of s' u s1 ex "pr s1 u"] pri_only_task [OF po(2)] waiters_pri_only [OF po(2)]
          pri_only_task [OF m1(2)] waiters_pri_only [OF m1(2)] by simp
    qed
  qed
qed

lemma round_pi_Inr:
  assumes c: "core_ok s" "mutex_ok s" and t: "live (st s t)" "t \<noteq> g_idle_task s"
    and p: "p < RHINO_CONFIG_PRI_MAX" and j: "pi_but ex s t p"
    and i: "task_pri_change_round t p s = Inr (mt, q, s')"
  shows "pi_but ex s' mt q" and "p < pr s t \<Longrightarrow> q = p \<and> p < pr s mt"
proof -
  note oo = mutex_ok_owners_ok [OF c(2,1)]
  have po: "core_ok s'" "pri_only s s'" and s': "s' = pend_list_reorder t (set_prio t p s)"
    using task_pri_change_round_next [OF c(1) oo p i] by simp_all
  note pr = round_pri(2) [OF c(1) oo t p i]
  from i obtain s1 where a: "pended (st s t)" "is_mutex s (bo s t)" "mt = owner s (bo s t)" "mt \<noteq> NULL"
    "s1 = pend_list_reorder t (set_prio t p s)"
    "p < pr s1 mt \<and> q = p \<and> s' = s1 \<or>
     \<not> p < pr s1 mt \<and> pr s1 mt = pr s t \<and> (q, s') = mutex_pri_look mt NULL s1"
    by (cases rule: task_pri_change_round_Inr) (auto simp: pended_def is_mutex_def)
  have mt: "t \<in> waiters s mt" "live (st s mt)" "mt \<noteq> t"
    using pended_waiter [OF c(2) a(1,2)] a(3) by auto
  have n: "need_is ex s mt (pr s mt)" using j mt(2,3) by (simp add: pi_but_def)
  have p1: "pr s1 mt = pr s mt" using a(5) mt(3) by simp
  have s1: "s1 = s'" using a(5) s' by simp
  show r: "q = p \<and> p < pr s mt" if "p < pr s t" using a(6) p1 that by auto
  have "need_is ex s' mt q \<and> (ex = Map.empty \<or> q < pr s' mt)"
    using a(6)
  proof
    assume "p < pr s1 mt \<and> q = p \<and> s' = s1"
    then show ?thesis using need_owner_raise [OF n po(2) pr mt(1)] p1 pr [of mt] mt(3) by auto
  next
    assume l: "\<not> p < pr s1 mt \<and> pr s1 mt = pr s t \<and> (q, s') = mutex_pri_look mt NULL s1"
    then have "ex = Map.empty" using j p1 by (auto simp: pi_but_def)
    moreover have "need_is Map.empty s' mt q"
      using look_need_NULL [OF po(1) mutex_ok_pri_only [OF po(2) c(2)], of mt] mt(2) pri_only_task [OF po(2)] l s1
      by (metis fst_conv)
    ultimately show ?thesis by simp
  qed
  moreover have "need_is ex s' u (pr s' u)" if "live (st s' u)" "u \<noteq> mt" for u
  proof -
    have u: "live (st s u)" using that(1) pri_only_task [OF po(2)] by simp
    then have "t \<notin> waiters s u" using not_waiter [OF c(2) u, of t] that(2) a(3) by blast
    then show ?thesis using pi_but_set [OF c(2) j po(2) pr u] by simp
  qed
  ultimately show "pi_but ex s' mt q" by (simp add: pi_but_def)
qed

lemma task_pri_change_pi:
  assumes "core_ok s" "mutex_ok s" and "live (st s t)" "t \<noteq> g_idle_task s"
    and "p < RHINO_CONFIG_PRI_MAX" and "pi_but ex s t p"
  shows "pi_all ex (snd (task_pri_change t p s)) \<and>
    (p < pr s t \<longrightarrow> (\<forall>u. pr (snd (task_pri_change t p s)) u = pr s u \<or>
       p < pr s u \<and> pr (snd (task_pri_change t p s)) u = p))"
  using assms
proof (induction t p s rule: task_pri_change.induct)
  case (1 t p s)
  note oo = mutex_ok_owners_ok [OF 1(3,2)]
  show ?case
  proof (cases "task_pri_change_round t p s")
    case (Inl r)
    then have r: "task_pri_change_round t p s = Inl (fst r, snd r)" by simp
    have "pi_all ex (snd r)" by (rule round_pi_Inl [OF 1(2-7) r])
    moreover have "pr (snd r) u = (if u = t then p else pr s u)" for u
      by (rule round_pri(1) [OF 1(2) oo 1(4-6) r])
    ultimately show ?thesis using Inl by (auto simp: task_pri_change.simps [of t p s])
  next
    case (Inr r)
    then obtain mt q s' where r: "task_pri_change_round t p s = Inr (mt, q, s')" by (cases r) auto
    have n: "core_ok s'" "pri_only s s'" "live (st s' mt)" "mt \<noteq> g_idle_task s'" "q < 62"
      using task_pri_change_round_next(2) [OF 1(2) oo 1(6) r] by simp_all
    have pr: "pr s' u = (if u = t then p else pr s u)" for u
      by (rule round_pri(2) [OF 1(2) oo 1(4-6) r])
    have mt: "mt \<noteq> t"
    proof -
      from r have "pended (st s t)" "is_mutex s (bo s t)" "mt = owner s (bo s t)"
        by (cases rule: task_pri_change_round_Inr; auto simp: pended_def is_mutex_def)+
      then show ?thesis using pended_waiter(3) [OF 1(3)] by auto
    qed
    have e: "task_pri_change t p s = task_pri_change mt q s'"
      by (simp add: task_pri_change.simps [of t p s] r)
    have ih: "pi_all ex (snd (task_pri_change mt q s')) \<and>
      (q < pr s' mt \<longrightarrow> (\<forall>u. pr (snd (task_pri_change mt q s')) u = pr s' u \<or>
         q < pr s' u \<and> pr (snd (task_pri_change mt q s')) u = q))"
      by (rule 1(1) [OF r refl refl n(1) mutex_ok_pri_only [OF n(2) 1(3)] n(3-5)
            round_pi_Inr(1) [OF 1(2-7) r]])
    have "pr (snd (task_pri_change mt q s')) u = pr s u \<or>
        p < pr s u \<and> pr (snd (task_pri_change mt q s')) u = p" if "p < pr s t" for u
    proof -
      have q: "q = p" "p < pr s mt" using round_pi_Inr(2) [OF 1(2-7) r that] by simp_all
      with ih pr [of mt] mt have "pr (snd (task_pri_change mt q s')) u = pr s' u \<or>
         p < pr s' u \<and> pr (snd (task_pri_change mt q s')) u = p" by simp
      with pr [of u] that show ?thesis by (auto split: if_splits)
    qed
    with ih show ?thesis by (simp add: e)
  qed
qed

section \<open>Coming down from an inherited priority\<close>

text \<open>
  \<open>pi_except t s\<close>: inheritance holds for every task but possibly \<open>t\<close>.
\<close>

definition pi_except :: "ptr \<Rightarrow> kernel \<Rightarrow> bool" where
  "pi_except t s \<longleftrightarrow> (\<forall>u. live (st s u) \<and> u \<noteq> t \<longrightarrow> need_is Map.empty s u (pr s u))"

lemma mutex_release_NULL:
  assumes c: "core_ok s" "mutex_ok s" and t: "live (st s t)" "t \<noteq> g_idle_task s" and e: "pi_except t s"
  shows "core_ok (mutex_release t NULL s) \<and> pri_only s (mutex_release t NULL s) \<and>
    pi_ok (mutex_release t NULL s)"
proof -
  define q where "q = fst (mutex_pri_look t NULL s)"
  have n: "need_is Map.empty s t q" unfolding q_def by (rule look_need_NULL [OF c t(1)])
  have r: "mutex_release t NULL s = (if q \<noteq> pr s t then snd (task_pri_change t q s) else s)"
    using mutex_pri_look_NULL [OF core_okD(5) [OF c(1)], of t]
    by (simp add: mutex_release_def case_prod_beta q_def)
  show ?thesis
  proof (cases "q = pr s t")
    case True
    have "pi_ok s" unfolding pi_ok_def
    proof (intro allI impI)
      fix u assume "live (st s u)"
      then show "need_is Map.empty s u (pr s u)" using e n True by (cases "u = t") (auto simp: pi_except_def)
    qed
    with r True c show ?thesis by (simp add: pri_only_refl)
  next
    case False
    have q: "q < 62" unfolding q_def by (rule mutex_pri_look_bound [OF c(1) t(1)])
    have "pi_but Map.empty s t q" using e n by (simp add: pi_but_def pi_except_def)
    then show ?thesis
      using task_pri_change_core [OF c(1) mutex_ok_owners_ok [OF c(2,1)] t q]
        task_pri_change_pi [OF c t q] r False by (simp add: pi_ok_pi_all)
  qed
qed

text \<open>
  After a waiting task \<open>t\<close> has left the mutex \<open>blk_obj t\<close>, resetting the owner restores
  inheritance.
\<close>

lemma mutex_task_pri_reset_pi:
  assumes c: "core_ok s" "mutex_ok s" and b: "bo s t \<noteq> NULL"
    and o: "is_mutex s (bo s t) \<Longrightarrow> owner s (bo s t) \<noteq> NULL"
    and e: "if is_mutex s (bo s t)
      then pi_except (owner s (bo s t)) s \<and> (pr s (owner s (bo s t)) \<noteq> pr s t \<longrightarrow> pi_ok s) else pi_ok s"
  shows "core_ok (mutex_task_pri_reset t s)" and "mutex_ok (mutex_task_pri_reset t s)"
    and "pri_only s (mutex_task_pri_reset t s)" and "pi_ok (mutex_task_pri_reset t s)"
proof -
  have *: "core_ok (mutex_task_pri_reset t s) \<and> pri_only s (mutex_task_pri_reset t s) \<and>
    pi_ok (mutex_task_pri_reset t s)"
  proof (cases "is_mutex s (bo s t) \<and> pr s (owner s (bo s t)) = pr s t")
    case True
    have "live (st s (owner s (bo s t)))" "owner s (bo s t) \<noteq> g_idle_task s"
      using mutex_okD(2) [OF c(2), of "bo s t"] o True core_okD(6) [OF c(1)] by (auto simp: idle_ok_def)
    then show ?thesis
      using True mutex_release_NULL [OF c] e b o
      by (simp add: mutex_task_pri_reset_def Let_def is_mutex_def)
  next
    case False
    then have "mutex_task_pri_reset t s = s"
      using b o by (auto simp: mutex_task_pri_reset_def Let_def is_mutex_def)
    with False e c show ?thesis by (auto simp: pri_only_refl split: if_splits)
  qed
  then show "core_ok (mutex_task_pri_reset t s)" "pri_only s (mutex_task_pri_reset t s)"
    "pi_ok (mutex_task_pri_reset t s)" by simp_all
  with mutex_ok_pri_only c(2) show "mutex_ok (mutex_task_pri_reset t s)" by blast
qed

end
