(* ===== verification/Kernel_Moves.thy ===== *)
theory Kernel_Moves
  imports Mutex_Inv
begin

text \<open>
  The complete kernel invariant \<open>kinv\<close>, list membership with mutex ownership and priority
  inheritance, and the lemmas that carry it through the moves of theory \<open>Kernel_Inv\<close>: waking
  and blocking on objects that are no mutexes, sleeping, and changes outside the lists.
\<close>

definition kinv :: "kernel \<Rightarrow> bool" where
  "kinv s \<longleftrightarrow> core_ok s \<and> mutex_ok s \<and> pi_ok s"

lemma kinvD: "kinv s \<Longrightarrow> core_ok s" "kinv s \<Longrightarrow> mutex_ok s" "kinv s \<Longrightarrow> pi_ok s"
  by (simp_all add: kinv_def)

lemma kinvI: "core_ok s \<Longrightarrow> mutex_ok s \<Longrightarrow> pi_ok s \<Longrightarrow> kinv s"
  by (simp add: kinv_def)

section \<open>Waking\<close>

lemma goesD:
  assumes "goes t x s s'"
  shows "env s' = env s" "mutexes s' = mutexes s" "k_errs s' = k_errs s" "ub s' = ub s"
    "u \<noteq> t \<Longrightarrow> tasks s' u = tasks s u" "pr s' u = pr s u" "b_prio (tasks s' u) = b_prio (tasks s u)"
    "held s' u = held s u" "st s' t = x" "st s' u = (if u = t then x else st s u)"
    "obj_type (blks s' b) = obj_type (blks s b)" "blk_policy (blks s' b) = blk_policy (blks s b)"
    "bl s' b = remove1 t (bl s b)" "\<not> pended x" "x \<noteq> K_DELETED \<Longrightarrow> live x"
  using assms by (auto simp: goes_def same_links_def ready_placed_def)

lemma is_mutex_goes: "goes t x s s' \<Longrightarrow> is_mutex s' m = is_mutex s m"
  by (simp add: is_mutex_def goesD)

lemma goes_waiters: "goes t x s s' \<Longrightarrow> waiters s' u = waiters s u - {t}"
  using goesD(14) by (auto simp: waiters_def goesD(8,10) goesD(5))

lemma goes_mutex_ok:
  assumes m: "mutex_ok s" and g: "goes t x s s'" and t: "live (st s t)"
    and x: "x = K_DELETED \<Longrightarrow> (\<forall>m. is_mutex s m \<longrightarrow> owner s m \<noteq> t)"
  shows "mutex_ok s'"
proof -
  have l: "live (st s' u) \<Longrightarrow> live (st s u)" for u using t goesD(10) [OF g, of u] by (auto split: if_splits)
  have l': "live (st s u) \<Longrightarrow> live (st s' u) \<or> u = t \<and> x = K_DELETED" for u
    using goesD(10) [OF g, of u] goesD(15) [OF g] by auto
  have p: "pended (st s' u) \<Longrightarrow> u \<noteq> t \<and> pended (st s u) \<and> bo s' u = bo s u" for u
    using goesD(10) [OF g, of u] goesD(14) [OF g] goesD(5) [OF g, of u] by (auto split: if_splits)
  note s = is_mutex_goes [OF g] goesD(2,8,12) [OF g]
  show ?thesis unfolding mutex_ok_def s
  proof (intro conjI allI impI)
    fix m' assume a: "is_mutex s m' \<and> owner s m' \<noteq> NULL"
    then show "live (st s' (owner s m'))" using mutex_okD(2) [OF m, of m'] l' [of "owner s m'"] x by blast
    from a show "m' \<in> set (held s (owner s m'))" "0 < owner_nested (mutexes s m')"
      using mutex_okD(2) [OF m, of m'] by simp_all
  next
    fix u assume a: "pended (st s' u) \<and> is_mutex s (bo s' u)"
    then show "owner s (bo s' u) \<noteq> NULL" "owner s (bo s' u) \<noteq> u"
      using p [of u] mutex_okD(5) [OF m, of u] by auto
  qed (use l mutex_okD(1,3,4) [OF m] in auto)
qed

lemma goes_pi:
  assumes m: "mutex_ok s" "pi_ok s" and g: "goes t x s s'" and t: "live (st s t)"
  shows "if pended (st s t) \<and> is_mutex s (bo s t)
    then pi_except (owner s (bo s t)) s' \<and> (pr s (owner s (bo s t)) \<noteq> pr s t \<longrightarrow> pi_ok s')
    else pi_ok s'"
proof -
  have l: "live (st s' u) \<Longrightarrow> live (st s u)" for u using t goesD(10) [OF g, of u] by (auto split: if_splits)
  have n: "need_is Map.empty s' u (pr s' u)" if u: "live (st s' u)"
    and w: "t \<in> waiters s u \<Longrightarrow> pr s u \<noteq> pr s t" for u
  proof -
    have "need_is Map.empty s u (pr s u)" using m(2) l [OF u] by (simp add: pi_ok_def)
    with w show ?thesis
      unfolding need_is_def goes_waiters [OF g] goesD(6,7) [OF g]
      by (auto simp: Bex_def)
  qed
  show ?thesis
  proof (cases "pended (st s t) \<and> is_mutex s (bo s t)")
    case True
    have "pi_except (owner s (bo s t)) s'"
      unfolding pi_except_def using n not_waiter [OF m(1) l] by blast
    moreover have "pi_ok s'" if "pr s (owner s (bo s t)) \<noteq> pr s t"
      unfolding pi_ok_def
    proof (intro allI impI)
      fix u assume u: "live (st s' u)"
      show "need_is Map.empty s' u (pr s' u)"
        by (rule n [OF u]) (use waiters_owner(3) [OF m(1) l [OF u]] that in blast)
    qed
    ultimately show ?thesis using True by simp
  next
    case False
    then have "pi_ok s'" unfolding pi_ok_def using n not_waiter [OF m(1) l] by blast
    then show ?thesis by (simp only: False if_False)
  qed
qed

lemma goes_kinv:
  assumes k: "kinv s" and g: "goes t x s s'" and t: "live (st s t)" "t \<noteq> g_idle_task s"
    and x: "x \<noteq> K_DELETED" and n: "\<not> (pended (st s t) \<and> is_mutex s (bo s t))"
  shows "kinv s'"
  using goes_core_ok [OF kinvD(1) [OF k] g t] goes_mutex_ok [OF kinvD(2) [OF k] g t(1)] x
    goes_pi [OF kinvD(2) [OF k] kinvD(3) [OF k] g t(1)] n
  by (auto intro: kinvI)

lemma not_idle: "kinv s \<Longrightarrow> st s t \<noteq> K_RDY \<Longrightarrow> t \<noteq> g_idle_task s"
  using core_okD(6) [OF kinvD(1)] by (auto simp: idle_ok_def)

section \<open>Blocking\<close>

lemma waitsD:
  assumes "waits t x b time s s'"
  shows "env s' = env s" "mutexes s' = mutexes s" "k_errs s' = k_errs s" "ub s' = ub s"
    "u \<noteq> t \<Longrightarrow> tasks s' u = tasks s u" "pr s' u = pr s u" "b_prio (tasks s' u) = b_prio (tasks s u)"
    "held s' u = held s u" "st s' u = (if u = t then x else st s u)" "x = K_PEND \<Longrightarrow> bo s' t = b"
    "obj_type (blks s' o') = obj_type (blks s o')" "blk_policy (blks s' o') = blk_policy (blks s o')"
    "x = K_PEND \<or> x = K_SLEEP"
  using assms by (auto simp: waits_def same_links_def ready_placed_def)

lemma is_mutex_waits: "waits t x b time s s' \<Longrightarrow> is_mutex s' m = is_mutex s m"
  by (simp add: is_mutex_def waitsD)

lemma waits_waiters:
  assumes "waits t x b time s s'" and "\<not> pended (st s t)"
  shows "waiters s' u = waiters s u \<union> (if x = K_PEND \<and> b \<in> set (held s u) then {t} else {})"
  using waitsD(5) [OF assms(1)] waitsD(8,9,10,13) [OF assms(1)] assms(2)
  by (auto simp: waiters_def split: if_splits)

lemma waits_mutex_ok:
  assumes m: "mutex_ok s" and w: "waits t x b time s s'" and t: "st s t = K_RDY"
    and b: "x = K_PEND \<Longrightarrow> is_mutex s b \<Longrightarrow> owner s b \<noteq> NULL \<and> owner s b \<noteq> t"
  shows "mutex_ok s'"
proof -
  have l: "live (st s' u) = live (st s u)" for u
    using t waitsD(9,13) [OF w] by auto
  have p: "pended (st s' u) \<Longrightarrow> (if u = t then x = K_PEND \<and> bo s' u = b else pended (st s u) \<and> bo s' u = bo s u)" for u
    using waitsD(5) [OF w, of u] waitsD(9,10,13) [OF w] by (auto split: if_splits)
  show ?thesis unfolding mutex_ok_def is_mutex_waits [OF w] waitsD(2,8,12) [OF w] l
  proof (intro conjI allI impI)
    fix u assume "pended (st s' u) \<and> is_mutex s (bo s' u)"
    then show "owner s (bo s' u) \<noteq> NULL" "owner s (bo s' u) \<noteq> u"
      using p [of u] b mutex_okD(5) [OF m, of u] by (auto split: if_splits)
  qed (use mutex_okD(1,2,3,4) [OF m] in auto)
qed

lemma waits_kinv:
  assumes k: "kinv s" and w: "waits t x b time s s'" and t: "st s t = K_RDY" "t \<noteq> g_idle_task s"
    and b: "x = K_PEND \<Longrightarrow> \<not> is_mutex s b"
  shows "kinv s'"
proof (rule kinvI)
  have k': "mutex_ok s" "pi_ok s" using k by (simp_all add: kinv_def)
  show "core_ok s'" by (rule waits_core_ok [OF kinvD(1) [OF k] w t])
  show "mutex_ok s'" using waits_mutex_ok [OF k'(1) w t(1)] b by simp
  have l: "live (st s' u) = live (st s u)" for u
    using t waitsD(9,13) [OF w] by auto
  have "waiters s' u = waiters s u" if "live (st s u)" for u
    using waits_waiters [OF w, of u] t(1) mutex_okD(1) [OF k'(1) that, of b] b by auto
  then show "pi_ok s'"
    using k'(2) need_is_cong [of s' _ s] waitsD(6,7) [OF w] by (simp add: pi_ok_def l)
qed

section \<open>Changes outside the lists\<close>

text \<open>
  An update that leaves every task's place, priority and mutexes alone keeps the
  invariant: fields of task control blocks such as time slices and messages, counters of
  semaphores, kernel globals, and the creation of an object nobody waits for.
\<close>

lemma kinv_cong:
  assumes k: "kinv s"
    and r: "g_ready_queue s' = g_ready_queue s" "g_tick_head s' = g_tick_head s"
      "g_tick_count s' = g_tick_count s" "g_idle_task s' = g_idle_task s" "g_active_task s' \<noteq> NULL"
    and b: "\<And>b. bl s' b = bl s b" "\<And>b. bl s b \<noteq> [] \<or> is_mutex s b \<Longrightarrow> blk_policy (blks s' b) = blk_policy (blks s b)"
      "\<And>b. is_mutex s' b = is_mutex s b" "\<And>b. is_mutex s b \<Longrightarrow> owner s' b = owner s b"
      "\<And>b. is_mutex s b \<Longrightarrow> 0 < owner_nested (mutexes s b) \<Longrightarrow> 0 < owner_nested (mutexes s' b)"
    and t: "\<And>t. task_view (tasks s' t) = task_view (tasks s t)" "\<And>t. same_class (st s' t) (st s t)"
      "\<And>t. suspended (st s' t) \<Longrightarrow> 0 < suspend_count (tasks s' t)"
  shows "kinv s'"
proof (rule kinvI)
  have v: "pr s' u = pr s u" "held s' u = held s u" "b_prio (tasks s' u) = b_prio (tasks s u)" for u
    using t(1) [of u] by (simp_all add: task_view_def)
  have p: "pended (st s u) \<Longrightarrow> bo s' u = bo s u" for u
    using t(1) [of u] t(2) [of u] by (simp add: task_view_def same_class_def)
  have c: "pended (st s' u) = pended (st s u)" "live (st s' u) = live (st s u)" for u
    using t(2) [of u] by (simp_all add: same_class_def)
  show "core_ok s'"
    using b(1,2) by (intro core_ok_cong [OF kinvD(1) [OF k] r _ _ t]) auto
  have m: "mutex_ok s" by (rule kinvD(2) [OF k])
  show "mutex_ok s'"
    unfolding mutex_ok_def v c b(3)
  proof (intro conjI allI impI)
    fix m' assume "is_mutex s m' \<and> owner s' m' \<noteq> NULL"
    then show "live (st s (owner s' m'))" "m' \<in> set (held s (owner s' m'))"
      "0 < owner_nested (mutexes s' m')"
      using mutex_okD(2) [OF m, of m'] b(4,5) by auto
  next
    fix u assume "pended (st s u) \<and> is_mutex s (bo s' u)"
    then show "owner s' (bo s' u) \<noteq> NULL" "owner s' (bo s' u) \<noteq> u"
      using mutex_okD(5) [OF m, of u] b(4) [of "bo s u"] p [of u] by auto
  next
    fix u m' assume "live (st s u) \<and> m' \<in> set (held s u)"
    then show "is_mutex s m'" "owner s' m' = u"
      using mutex_okD(1) [OF m, of u m'] b(4) [of m'] by auto
  qed (use mutex_okD(3,4) [OF m] b(2) in auto)
  have "waiters s' u = waiters s u" for u using p by (auto simp: waiters_def v c)
  then show "pi_ok s'"
    using kinvD(3) [OF k] need_is_cong [of s' _ s] by (simp add: pi_ok_def v c)
qed

lemma remain_fun: "remain s = (\<lambda>t. tick_match (tasks s t) - g_tick_count s)"
  by (rule ext) (simp add: remain_def)

lemmas kinv_defs = kinv_def core_ok_def ready_ok_def blk_ok_def tick_ok_def task_ok_def idle_ok_def
  remain_fun mutex_ok_def is_mutex_def pi_ok_def need_is_def waiters_def

lemma kinv_fields [simp]:
  "kinv (s\<lparr>g_sys_stat := v0\<rparr>) = kinv s"
  "kinv (s\<lparr>g_sched_lock := v1\<rparr>) = kinv s"
  "kinv (s\<lparr>g_intrpt_nested_level := v2\<rparr>) = kinv s"
  "kinv (s\<lparr>g_preferred_ready_task := v3\<rparr>) = kinv s"
  "kinv (s\<lparr>g_kobj_list := v4\<rparr>) = kinv s"
  "kinv (s\<lparr>sems := v5\<rparr>) = kinv s"
  "kinv (s\<lparr>events := v6\<rparr>) = kinv s"
  "kinv (s\<lparr>queues := v7\<rparr>) = kinv s"
  "kinv (s\<lparr>buf_queues := v8\<rparr>) = kinv s"
  "kinv (s\<lparr>mem := v9\<rparr>) = kinv s"
  "kinv (s\<lparr>outs := v10\<rparr>) = kinv s"
  "kinv (s\<lparr>irq_off := v11\<rparr>) = kinv s"
  "kinv (s\<lparr>cpu_switch := v12\<rparr>) = kinv s"
  "kinv (s\<lparr>k_errs := v13\<rparr>) = kinv s"
  "kinv (s\<lparr>ub := v14\<rparr>) = kinv s"
  by (simp_all add: kinv_defs)

lemma tick_pos_fields [simp]:
  "tick_pos (s\<lparr>g_sys_stat := v0\<rparr>) = tick_pos s"
  "tick_pos (s\<lparr>g_sched_lock := v1\<rparr>) = tick_pos s"
  "tick_pos (s\<lparr>g_intrpt_nested_level := v2\<rparr>) = tick_pos s"
  "tick_pos (s\<lparr>g_preferred_ready_task := v3\<rparr>) = tick_pos s"
  "tick_pos (s\<lparr>g_kobj_list := v4\<rparr>) = tick_pos s"
  "tick_pos (s\<lparr>sems := v5\<rparr>) = tick_pos s"
  "tick_pos (s\<lparr>events := v6\<rparr>) = tick_pos s"
  "tick_pos (s\<lparr>queues := v7\<rparr>) = tick_pos s"
  "tick_pos (s\<lparr>buf_queues := v8\<rparr>) = tick_pos s"
  "tick_pos (s\<lparr>mem := v9\<rparr>) = tick_pos s"
  "tick_pos (s\<lparr>outs := v10\<rparr>) = tick_pos s"
  "tick_pos (s\<lparr>irq_off := v11\<rparr>) = tick_pos s"
  "tick_pos (s\<lparr>cpu_switch := v12\<rparr>) = tick_pos s"
  "tick_pos (s\<lparr>k_errs := v13\<rparr>) = tick_pos s"
  "tick_pos (s\<lparr>ub := v14\<rparr>) = tick_pos s"
  by (simp_all add: tick_pos_def remain_def)

lemma kinv_suspend_count: "kinv s \<Longrightarrow> suspended (st s t) \<Longrightarrow> 0 < suspend_count (tasks s t)"
  using core_okD(5) [OF kinvD(1)] by (simp add: task_ok_def)

lemma same_class_refl [simp]: "same_class x x"
  by (simp add: same_class_def)

lemma kinv_upd_task:
  assumes k: "kinv s" and "task_view (f (tasks s t)) = task_view (tasks s t)"
    and "same_class (task_state (f (tasks s t))) (st s t)"
    and "suspended (task_state (f (tasks s t))) \<Longrightarrow> 0 < suspend_count (f (tasks s t))"
  shows "kinv (upd_task t f s)"
proof (rule kinv_cong [OF k])
  show "g_active_task (upd_task t f s) \<noteq> NULL" using core_ok_active [OF kinvD(1) [OF k]] by simp
  show "task_view (tasks (upd_task t f s) u) = task_view (tasks s u)" for u using assms(2) by simp
  show "same_class (st (upd_task t f s) u) (st s u)" for u using assms(3) by simp
  show "0 < suspend_count (tasks (upd_task t f s) u)" if "suspended (st (upd_task t f s) u)" for u
    using that assms(4) kinv_suspend_count [OF k, of u] by (cases "u = t") simp_all
qed (simp_all add: is_mutex_def)

text \<open>Fields that the invariant does not read at all.\<close>

lemma kinv_upd_field:
  assumes "kinv s" and "task_view (f (tasks s t)) = task_view (tasks s t)"
    and "task_state (f (tasks s t)) = st s t" "suspend_count (f (tasks s t)) = suspend_count (tasks s t)"
  shows "kinv (upd_task t f s)"
  using assms kinv_suspend_count [OF assms(1), of t] by (intro kinv_upd_task) simp_all

section \<open>The tick list between ticks\<close>

lemma goes_tick_pos:
  assumes "tick_pos s" and c: "core_ok s" and g: "goes t x s s'"
  shows "tick_pos s'"
proof -
  have "g_tick_head s' = remove1 t (g_tick_head s)" using g by (simp add: goes_def)
  moreover have "distinct (g_tick_head s)" using core_okD(4) [OF c] by (simp add: tick_ok_def)
  ultimately have "u \<in> set (g_tick_head s') \<Longrightarrow> u \<noteq> t \<and> u \<in> set (g_tick_head s)" for u by auto
  then show ?thesis
    using assms(1) goesD(5) [OF g] env_sel(7) [OF goesD(1) [OF g]]
    by (auto simp: tick_pos_def remain_def)
qed

lemma waits_tick_pos:
  assumes "tick_pos s" and c: "core_ok s" and w: "waits t x b time s s'" and t: "st s t = K_RDY"
  shows "tick_pos s'"
proof -
  have nt: "t \<notin> set (g_tick_head s)" using ready_not_listed [OF c t] by simp
  obtain k where "tasks s' = (tasks s)(t := k)" "0 < time \<longrightarrow> tick_match k = g_tick_count s + time"
    "g_tick_head s' = (if 0 < time then insert_before (\<lambda>q. remain s q > time) t (g_tick_head s) else g_tick_head s)"
    using w by (auto simp: waits_def)
  then show ?thesis
    using assms(1) nt env_sel(7) [OF waitsD(1) [OF w]]
    by (auto simp: tick_pos_def remain_def split: if_splits)
qed

lemma pri_only_tick_pos: "tick_pos s \<Longrightarrow> pri_only s s' \<Longrightarrow> tick_pos s'"
  by (simp add: tick_pos_def remain_def pri_only_task pri_only_env env_sel(7) [OF pri_only_env(1)])

lemma tick_pos_cong:
  assumes "tick_pos s" and "g_tick_head s' = g_tick_head s" and "g_tick_count s' = g_tick_count s"
    and "\<And>t. tick_match (tasks s' t) = tick_match (tasks s t)"
  shows "tick_pos s'"
  using assms by (simp add: tick_pos_def remain_def)

section \<open>A task gives up waiting\<close>

text \<open>
  Timeout and abort take a task off its blocking list, let the owner of a mutex come down
  from the priority it inherited from the task, and clear the task's \<^verbatim>\<open>blk_obj\<close>.
\<close>

definition unblocks :: "ptr \<Rightarrow> task_stat_t \<Rightarrow> kernel \<Rightarrow> kernel \<Rightarrow> bool" where
  "unblocks t x s s' \<longleftrightarrow>
     env s' = env s \<and> mutexes s' = mutexes s \<and> k_errs s' = k_errs s \<and> ub s' = ub s \<and>
     (\<forall>u. st s' u = (if u = t then x else st s u)) \<and>
     (\<forall>u. u \<noteq> t \<longrightarrow> (tasks s' u)\<lparr>prio := 0\<rparr> = (tasks s u)\<lparr>prio := 0\<rparr>) \<and>
     (\<forall>b. obj_type (blks s' b) = obj_type (blks s b)) \<and>
     (\<forall>b. set (bl s' b) = set (bl s b) - {t}) \<and>
     g_tick_head s' = remove1 t (g_tick_head s)"

lemma goes_unblocks: "core_ok s \<Longrightarrow> goes t x s s' \<Longrightarrow> unblocks t x s s'"
  using core_okD(3) [of s] by (auto simp: unblocks_def goesD blk_ok_def) (simp add: goes_def)

lemma unblocks_pri_only:
  assumes "unblocks t x s s1" and "pri_only s1 s2"
  shows "unblocks t x s s2"
  using assms(1) pri_only_task [OF assms(2)] pri_only_blk [OF assms(2)] pri_only_env [OF assms(2)]
    assms(2) [unfolded pri_only_def] by (simp add: unblocks_def)

lemma unblock_kinv:
  assumes k: "kinv s" and t: "pended (st s t)" and g: "goes t x s s1" and x: "x \<noteq> K_DELETED"
    and b: "bo s1 t = bo s t"
  defines "s' \<equiv> upd_task t (\<lambda>k. k\<lparr>blk_obj := NULL\<rparr>) (mutex_task_pri_reset t s1)"
  shows "kinv s'" and "unblocks t x s s'" and "tick_pos s \<Longrightarrow> tick_pos s'"
    and "blk_state (tasks s' t) = blk_state (tasks s1 t)"
proof -
  have c: "core_ok s" "mutex_ok s" "pi_ok s" using k by (simp_all add: kinv_def)
  have "st s t \<noteq> K_RDY" using t by auto
  then have l: "live (st s t)" "t \<noteq> g_idle_task s" using t pended_live not_idle [OF k, of t] by auto
  have c1: "core_ok s1" by (rule goes_core_ok [OF c(1) g l])
  have m1: "mutex_ok s1" by (rule goes_mutex_ok [OF c(2) g l(1)]) (use x in simp)
  have "bo s t \<noteq> NULL" using core_okD(5) [OF c(1)] t by (simp add: task_ok_def)
  moreover have "is_mutex s (bo s t) \<Longrightarrow> owner s (bo s t) \<noteq> NULL" using mutex_okD(5) [OF c(2) t] by simp
  ultimately have r: "core_ok (mutex_task_pri_reset t s1)" "mutex_ok (mutex_task_pri_reset t s1)"
    "pri_only s1 (mutex_task_pri_reset t s1)" "pi_ok (mutex_task_pri_reset t s1)"
    using mutex_task_pri_reset_pi [OF c1 m1, of t] goes_pi [OF c(2,3) g l(1)] t b
    by (simp_all add: is_mutex_goes [OF g] goesD(2,6) [OF g])
  have st: "st (mutex_task_pri_reset t s1) t = x" using pri_only_task [OF r(3)] goesD(9) [OF g] by simp
  have p: "\<not> pended x" by (rule goesD(14) [OF g])
  show "kinv s'"
    unfolding s'_def using r st p by (intro kinv_upd_field) (simp_all add: kinv_def task_view_def)
  have "unblocks t x s (mutex_task_pri_reset t s1)"
    by (rule unblocks_pri_only [OF goes_unblocks [OF c(1) g] r(3)])
  then show "unblocks t x s s'" unfolding s'_def by (auto simp: unblocks_def upd_task_env)
  show "tick_pos s'" if "tick_pos s"
    using pri_only_tick_pos [OF goes_tick_pos [OF that c(1) g] r(3)]
    unfolding s'_def by (rule tick_pos_cong) simp_all
  show "blk_state (tasks s' t) = blk_state (tasks s1 t)"
    using pri_only_task [OF r(3)] by (simp add: s'_def)
qed

end
