(* ===== verification/Tick.thy ===== *)
theory Tick
  imports Kernel_Moves
begin

text \<open>
  The expiry of timeouts at a clock tick (\<^verbatim>\<open>tick_list_update\<close> of \<^verbatim>\<open>k_tick.c\<close>), the tick handler
  and the time functions (\<^verbatim>\<open>k_time.c\<close>). The lemmas show that a tick keeps the kernel
  invariant, wakes exactly the tasks that are due, and that none is due afterwards.
\<close>

section \<open>Model\<close>

text \<open>One expired task, by its state.\<close>

definition tick_expire :: "ptr \<Rightarrow> kernel \<Rightarrow> kernel" where
  "tick_expire p_tcb s =
     (case task_state (tasks s p_tcb) of
        K_SLEEP \<Rightarrow>
          let s = upd_task p_tcb (\<lambda>k. k\<lparr>blk_state := BLK_FINISH, task_state := K_RDY\<rparr>) s;
              s = tick_list_rm p_tcb s
          in ready_list_add p_tcb s
      | K_PEND \<Rightarrow>
          let s = tick_list_rm p_tcb s;
              s = task_list_rm p_tcb s;
              s = ready_list_add p_tcb s;
              s = upd_task p_tcb (\<lambda>k. k\<lparr>blk_state := BLK_TIMEOUT, task_state := K_RDY\<rparr>) s;
              s = mutex_task_pri_reset p_tcb s
          in upd_task p_tcb (\<lambda>k. k\<lparr>blk_obj := NULL\<rparr>) s
      | K_PEND_SUSPENDED \<Rightarrow>
          let s = tick_list_rm p_tcb s;
              s = task_list_rm p_tcb s;
              s = upd_task p_tcb (\<lambda>k. k\<lparr>blk_state := BLK_TIMEOUT, task_state := K_SUSPENDED\<rparr>) s;
              s = mutex_task_pri_reset p_tcb s
          in upd_task p_tcb (\<lambda>k. k\<lparr>blk_obj := NULL\<rparr>) s
      | K_SLEEP_SUSPENDED \<Rightarrow>
          let s = upd_task p_tcb (\<lambda>k. k\<lparr>task_state := K_SUSPENDED, blk_state := BLK_FINISH\<rparr>) s
          in tick_list_rm p_tcb s
      | _ \<Rightarrow> k_err_proc RHINO_SYS_FATAL_ERR s)"

text \<open>
  The walk along the tick list. The next node is read before a task is unlinked, so the
  walk follows the list as it was; it stops at the first task that is not due, judged by
  the sign of the difference of the two counts.
\<close>

fun tick_list_walk :: "ptr list \<Rightarrow> kernel \<Rightarrow> kernel" where
  "tick_list_walk [] s = s"
| "tick_list_walk (p_tcb # iter_temp) s =
     (if sint (tick_match (tasks s p_tcb) - g_tick_count s) \<le> 0
      then tick_list_walk iter_temp (tick_expire p_tcb s) else s)"

definition tick_list_update :: "tick_t \<Rightarrow> kernel \<Rightarrow> kernel" where
  "tick_list_update ticks s =
     (let cpsr = irq_off s;
          s = RHINO_CRITICAL_ENTER s;
          s = s\<lparr>g_tick_count := g_tick_count s + ticks\<rparr>;
          s = tick_list_walk (g_tick_head s) s
      in RHINO_CRITICAL_EXIT cpsr s)"

text \<open>The tick handler, with round-robin scheduling and without user hook.\<close>

definition krhino_tick_proc :: "kernel \<Rightarrow> kernel" where
  "krhino_tick_proc s = time_slice_update (tick_list_update 1 s)"

definition krhino_sys_tick_get :: "kernel \<Rightarrow> tick_t \<times> kernel" where
  "krhino_sys_tick_get s =
     (let cpsr = irq_off s;
          s = RHINO_CRITICAL_ENTER s;
          tick_tmp = g_tick_count s
      in (tick_tmp, RHINO_CRITICAL_EXIT cpsr s))"

section \<open>One expired task\<close>

lemma blks_not_pended:
  "blk_ok s \<Longrightarrow> \<not> pended (st s t) \<Longrightarrow> (\<lambda>b. (blks s b)\<lparr>blk_list := remove1 t (bl s b)\<rparr>) = blks s"
  by (auto simp: blk_ok_def remove1_idem fun_eq_iff)

lemma sleep_expire_goes:
  assumes c: "core_ok s" and t: "sleeping (st s t)"
  shows "goes t (woken (st s t)) s (tick_expire t s)"
proof (cases "st s t = K_SLEEP")
  case True
  have "goes t K_RDY s (tick_expire t s)"
    by (rule ready_goes [OF c, where
          sa = "tick_list_rm t (upd_task t (\<lambda>k. k\<lparr>blk_state := BLK_FINISH, task_state := K_RDY\<rparr>) s)" and
          k = "(tasks s t)\<lparr>blk_state := BLK_FINISH, task_state := K_RDY, tick_head := False\<rparr>"])
      (simp_all add: True tick_expire_def Let_def upd_task_env tick_list_rm_env ready_list_add_env
        blks_not_pended [OF core_okD(3) [OF c]] tick_list_rm_head [OF core_okD(4) [OF c]] same_links_def)
  then show ?thesis by (simp add: True woken_def)
next
  case False
  then have ss: "st s t = K_SLEEP_SUSPENDED" using t by (simp add: sleeping_def)
  have "goes t K_SUSPENDED s (tick_expire t s)"
    by (rule suspended_goes [OF c, where
          k = "(tasks s t)\<lparr>task_state := K_SUSPENDED, blk_state := BLK_FINISH, tick_head := False\<rparr>"])
      (simp_all add: ss tick_expire_def Let_def upd_task_env tick_list_rm_env
        blks_not_pended [OF core_okD(3) [OF c]] tick_list_rm_head [OF core_okD(4) [OF c]] same_links_def)
  then show ?thesis by (simp add: ss woken_def)
qed

definition pend_expired :: "ptr \<Rightarrow> kernel \<Rightarrow> kernel" where
  "pend_expired t s =
     (if st s t = K_PEND
      then upd_task t (\<lambda>k. k\<lparr>blk_state := BLK_TIMEOUT, task_state := K_RDY\<rparr>)
             (ready_list_add t (task_list_rm t (tick_list_rm t s)))
      else upd_task t (\<lambda>k. k\<lparr>blk_state := BLK_TIMEOUT, task_state := K_SUSPENDED\<rparr>)
             (task_list_rm t (tick_list_rm t s)))"

lemma pend_expired_goes:
  assumes c: "core_ok s" and t: "pended (st s t)"
  shows "goes t (woken (st s t)) s (pend_expired t s)" and "bo (pend_expired t s) t = bo s t"
    and "blk_state (tasks (pend_expired t s) t) = BLK_TIMEOUT"
    and "tick_expire t s = upd_task t (\<lambda>k. k\<lparr>blk_obj := NULL\<rparr>) (mutex_task_pri_reset t (pend_expired t s))"
proof -
  show "goes t (woken (st s t)) s (pend_expired t s)"
    using t
  proof (cases rule: pended_cases)
    case 1
    have "goes t K_RDY s (pend_expired t s)"
      by (rule ready_goes [OF c, where sa = "task_list_rm t (tick_list_rm t s)" and
            k = "(tasks s t)\<lparr>tick_head := False, blk_state := BLK_TIMEOUT, task_state := K_RDY\<rparr>"])
        (simp_all add: 1 pend_expired_def upd_task_env tick_list_rm_env ready_list_add_env
          task_list_rm_env blks_task_list_rm tick_list_rm_head [OF core_okD(4) [OF c]] same_links_def)
    then show ?thesis by (simp add: 1 woken_def)
  next
    case 2
    have "goes t K_SUSPENDED s (pend_expired t s)"
      by (rule suspended_goes [OF c, where
            k = "(tasks s t)\<lparr>tick_head := False, blk_state := BLK_TIMEOUT, task_state := K_SUSPENDED\<rparr>"])
        (simp_all add: 2 pend_expired_def upd_task_env tick_list_rm_env
          task_list_rm_env blks_task_list_rm tick_list_rm_head [OF core_okD(4) [OF c]] same_links_def)
    then show ?thesis by (simp add: 2 woken_def)
  qed
  show "bo (pend_expired t s) t = bo s t" "blk_state (tasks (pend_expired t s) t) = BLK_TIMEOUT"
    by (simp_all add: pend_expired_def)
  show "tick_expire t s = upd_task t (\<lambda>k. k\<lparr>blk_obj := NULL\<rparr>) (mutex_task_pri_reset t (pend_expired t s))"
    using t by (cases rule: pended_cases) (simp_all add: tick_expire_def pend_expired_def Let_def)
qed

lemma woken_not_deleted: "woken x \<noteq> K_DELETED"
  by (simp add: woken_def)

lemma tick_expire_effect:
  assumes k: "kinv s" and t: "pended (st s t) \<or> sleeping (st s t)"
  shows "kinv (tick_expire t s)" and "unblocks t (woken (st s t)) s (tick_expire t s)"
    and "blk_state (tasks (tick_expire t s) t) = (if pended (st s t) then BLK_TIMEOUT else BLK_FINISH)"
proof -
  note c = kinvD(1) [OF k]
  have "kinv (tick_expire t s) \<and> unblocks t (woken (st s t)) s (tick_expire t s) \<and>
    blk_state (tasks (tick_expire t s) t) = (if pended (st s t) then BLK_TIMEOUT else BLK_FINISH)"
  proof (cases "pended (st s t)")
    case True
    note p = pend_expired_goes [OF c True]
    show ?thesis unfolding p(4)
      using unblock_kinv [OF k True p(1) woken_not_deleted p(2)] p(3) True by simp
  next
    case False
    with t have sl: "sleeping (st s t)" by simp
    have g: "goes t (woken (st s t)) s (tick_expire t s)" by (rule sleep_expire_goes [OF c sl])
    have "live (st s t)" "t \<noteq> g_idle_task s"
      using sl not_idle [OF k, of t] by (auto simp: sleeping_def)
    with goes_kinv [OF k g _ _ woken_not_deleted] False goes_unblocks [OF c g] show ?thesis
      using sl by (auto simp: sleeping_def tick_expire_def Let_def)
  qed
  then show "kinv (tick_expire t s)" "unblocks t (woken (st s t)) s (tick_expire t s)"
    "blk_state (tasks (tick_expire t s) t) = (if pended (st s t) then BLK_TIMEOUT else BLK_FINISH)"
    by simp_all
qed

section \<open>The walk\<close>

definition due :: "kernel \<Rightarrow> ptr \<Rightarrow> bool" where
  "due s t \<longleftrightarrow> sint (remain s t) \<le> 0"

lemma nopri_sel:
  assumes "(k'::ktask_t)\<lparr>prio := 0\<rparr> = k\<lparr>prio := 0\<rparr>"
  shows "tick_match k' = tick_match k" "task_state k' = task_state k" "blk_state k' = blk_state k"
    "tick_head k' = tick_head k"
  using arg_cong [OF assms, of tick_match] arg_cong [OF assms, of task_state]
    arg_cong [OF assms, of blk_state] arg_cong [OF assms, of tick_head] by simp_all

lemma tick_in_waits:
  "core_ok s \<Longrightarrow> t \<in> set (g_tick_head s) \<Longrightarrow> pended (st s t) \<or> sleeping (st s t)"
  using core_okD(4) [of s] by (simp add: tick_ok_def)

lemma tick_list_walk_effect:
  assumes "kinv s" and "g_tick_head s = xs"
  shows "kinv (tick_list_walk xs s) \<and>
    g_tick_head (tick_list_walk xs s) = dropWhile (due s) xs \<and>
    env (tick_list_walk xs s) = env s \<and> ub (tick_list_walk xs s) = ub s \<and>
    k_errs (tick_list_walk xs s) = k_errs s \<and>
    (\<forall>u \<in> set (dropWhile (due s) xs). tick_match (tasks (tick_list_walk xs s) u) = tick_match (tasks s u)) \<and>
    (\<forall>u. if u \<in> set (takeWhile (due s) xs)
         then st (tick_list_walk xs s) u = woken (st s u) \<and>
              blk_state (tasks (tick_list_walk xs s) u) = (if pended (st s u) then BLK_TIMEOUT else BLK_FINISH)
         else (tasks (tick_list_walk xs s) u)\<lparr>prio := 0\<rparr> = (tasks s u)\<lparr>prio := 0\<rparr>)"
  using assms
proof (induction xs arbitrary: s)
  case Nil
  then show ?case by simp
next
  case (Cons t xs)
  note c = kinvD(1) [OF Cons.prems(1)]
  have d: "t \<notin> set xs" "distinct xs" using core_okD(4) [OF c] Cons.prems(2) by (auto simp: tick_ok_def)
  show ?case
  proof (cases "due s t")
    case False
    with Cons.prems show ?thesis by (simp add: due_def remain_def)
  next
    case True
    define s1 where "s1 = tick_expire t s"
    have w: "pended (st s t) \<or> sleeping (st s t)" using tick_in_waits [OF c] Cons.prems(2) by simp
    note e = tick_expire_effect [OF Cons.prems(1) w, folded s1_def]
    have u: "env s1 = env s" "ub s1 = ub s" "k_errs s1 = k_errs s" "g_tick_head s1 = xs"
      and o: "\<And>u. u \<noteq> t \<Longrightarrow> (tasks s1 u)\<lparr>prio := 0\<rparr> = (tasks s u)\<lparr>prio := 0\<rparr>"
      and stt: "st s1 t = woken (st s t)"
      using e(2) Cons.prems(2) by (simp_all add: unblocks_def)
    have tm: "tick_match (tasks s1 u) = tick_match (tasks s u)" if "u \<in> set xs" for u
      by (rule nopri_sel(1) [OF o]) (use that d(1) in auto)
    have dw: "u \<in> set xs \<Longrightarrow> due s1 u = due s u" for u
      using tm env_sel(7) [OF u(1)] by (simp add: due_def remain_def)
    have tw: "takeWhile (due s1) xs = takeWhile (due s) xs" "dropWhile (due s1) xs = dropWhile (due s) xs"
      using dw by (auto intro: takeWhile_cong dropWhile_cong)
    have ih: "kinv (tick_list_walk xs s1) \<and>
      g_tick_head (tick_list_walk xs s1) = dropWhile (due s) xs \<and>
      env (tick_list_walk xs s1) = env s1 \<and> ub (tick_list_walk xs s1) = ub s1 \<and>
      k_errs (tick_list_walk xs s1) = k_errs s1 \<and>
      (\<forall>u \<in> set (dropWhile (due s) xs). tick_match (tasks (tick_list_walk xs s1) u) = tick_match (tasks s1 u)) \<and>
      (\<forall>u. if u \<in> set (takeWhile (due s) xs)
         then st (tick_list_walk xs s1) u = woken (st s1 u) \<and>
              blk_state (tasks (tick_list_walk xs s1) u) = (if pended (st s1 u) then BLK_TIMEOUT else BLK_FINISH)
         else (tasks (tick_list_walk xs s1) u)\<lparr>prio := 0\<rparr> = (tasks s1 u)\<lparr>prio := 0\<rparr>)"
      using Cons.IH [OF e(1) u(4)] unfolding tw .
    have r: "tick_list_walk (t # xs) s = tick_list_walk xs s1"
      using True by (simp add: due_def remain_def s1_def)
    have "tick_match (tasks (tick_list_walk xs s1) u) = tick_match (tasks s u)"
      if "u \<in> set (dropWhile (due s) xs)" for u
      using ih that tm [OF set_dropWhileD [OF that]] by simp
    moreover have "if u \<in> set (takeWhile (due s) (t # xs))
         then st (tick_list_walk xs s1) u = woken (st s u) \<and>
              blk_state (tasks (tick_list_walk xs s1) u) = (if pended (st s u) then BLK_TIMEOUT else BLK_FINISH)
         else (tasks (tick_list_walk xs s1) u)\<lparr>prio := 0\<rparr> = (tasks s u)\<lparr>prio := 0\<rparr>" for u
    proof (cases "u = t")
      case ut: True
      have "t \<notin> set (takeWhile (due s) xs)" using d(1) by (auto dest: set_takeWhileD)
      then have "(tasks (tick_list_walk xs s1) t)\<lparr>prio := 0\<rparr> = (tasks s1 t)\<lparr>prio := 0\<rparr>" using ih by metis
      from nopri_sel [OF this] show ?thesis using ut True stt e(3) by simp
    next
      case False
      with ih nopri_sel(2) [OF o [OF False]] o [OF False] True show ?thesis
        by (metis list.simps(15) takeWhile.simps(2) insert_iff)
    qed
    ultimately show ?thesis using ih True unfolding r by (simp add: u)
  qed
qed

section \<open>A tick\<close>

lemma sorted_pred:
  assumes "sorted (map f xs)" and "\<forall>x \<in> set xs. 0 < (f x :: 64 word)"
  shows "sorted (map (\<lambda>x. f x - 1) xs)"
proof -
  have "f x - 1 \<le> f y - 1" if "f x \<le> f y" "0 < f x" for x y
  proof -
    have "f y \<noteq> 0" using that by auto
    with that show ?thesis by (simp add: word_le_nat_alt unat_minus_one word_greater_zero_iff)
  qed
  with assms show ?thesis by (induction xs) auto
qed

lemma kinv_count:
  assumes k: "kinv s" and p: "tick_pos s"
  shows "kinv (s\<lparr>g_tick_count := g_tick_count s + 1\<rparr>)"
proof -
  let ?s = "s\<lparr>g_tick_count := g_tick_count s + 1\<rparr>"
  have r: "remain ?s = (\<lambda>t. remain s t - 1)" by (simp add: remain_fun algebra_simps)
  have "sorted (map (remain ?s) (g_tick_head s))"
    unfolding r using core_okD(4) [OF kinvD(1) [OF k]] p
    by (intro sorted_pred) (simp_all add: tick_ok_def tick_pos_def)
  then have "tick_ok ?s" using core_okD(4) [OF kinvD(1) [OF k]] by (simp add: tick_ok_def)
  then show ?thesis
    using k by (simp add: kinv_def core_ok_def) (simp add: ready_ok_def blk_ok_def task_ok_def idle_ok_def
        mutex_ok_def is_mutex_def pi_ok_def need_is_def waiters_def)
qed

text \<open>The tasks that a tick expires, from the state before it.\<close>

definition expired :: "kernel \<Rightarrow> ptr list" where
  "expired s = takeWhile (\<lambda>t. sint (remain s t - 1) \<le> 0) (g_tick_head s)"

lemma dropWhile_pos:
  assumes "sorted (map f xs)" and "x \<in> set (dropWhile (\<lambda>x. sint (f x :: 64 word) \<le> 0) xs)"
  shows "0 < f x"
  using assms
proof (induction xs)
  case Nil
  then show ?case by simp
next
  case (Cons y ys)
  show ?case
  proof (cases "sint (f y) \<le> 0")
    case True
    with Cons show ?thesis by simp
  next
    case False
    then have "0 < f y" by (metis not_le sint_0 word_gt_0 order.refl)
    with False Cons.prems show ?thesis by (auto intro: less_le_trans)
  qed
qed

lemma tick_list_update_effect:
  assumes k: "kinv s" and p: "tick_pos s"
  defines "s' \<equiv> tick_list_update 1 s"
  shows "kinv s'" and "tick_pos s'"
    and "env s' = env (s\<lparr>g_tick_count := g_tick_count s + 1\<rparr>)" "ub s' = ub s" "k_errs s' = k_errs s"
    and "t \<in> set (expired s) \<Longrightarrow> st s' t = woken (st s t) \<and>
      blk_state (tasks s' t) = (if pended (st s t) then BLK_TIMEOUT else BLK_FINISH)"
    and "t \<notin> set (expired s) \<Longrightarrow> (tasks s' t)\<lparr>prio := 0\<rparr> = (tasks s t)\<lparr>prio := 0\<rparr>"
proof -
  define s0 where "s0 = s\<lparr>irq_off := True, g_tick_count := g_tick_count s + 1\<rparr>"
  define s1 where "s1 = tick_list_walk (g_tick_head s) s0"
  have s': "s' = s1\<lparr>irq_off := irq_off s\<rparr>"
    by (simp add: s'_def tick_list_update_def Let_def RHINO_CRITICAL_ENTER_def RHINO_CRITICAL_EXIT_def
        s1_def s0_def)
  have k0: "kinv s0" "g_tick_head s0 = g_tick_head s"
    using kinv_count [of "s\<lparr>irq_off := True\<rparr>"] k p by (simp_all add: s0_def)
  have r: "remain s0 t = remain s t - 1" for t by (simp add: remain_def s0_def algebra_simps)
  have ex: "takeWhile (due s0) (g_tick_head s) = expired s"
    by (simp add: expired_def due_def r cong: takeWhile_cong)
  have w: "kinv s1" "g_tick_head s1 = dropWhile (due s0) (g_tick_head s)" "env s1 = env s0" "ub s1 = ub s0"
    "k_errs s1 = k_errs s0"
    "\<And>u. u \<in> set (dropWhile (due s0) (g_tick_head s)) \<Longrightarrow> tick_match (tasks s1 u) = tick_match (tasks s0 u)"
    "\<And>u. if u \<in> set (expired s)
         then st s1 u = woken (st s0 u) \<and>
              blk_state (tasks s1 u) = (if pended (st s0 u) then BLK_TIMEOUT else BLK_FINISH)
         else (tasks s1 u)\<lparr>prio := 0\<rparr> = (tasks s0 u)\<lparr>prio := 0\<rparr>"
    using tick_list_walk_effect [OF k0] unfolding s1_def [symmetric] ex by auto
  show "kinv s'" using w(1) by (simp add: s')
  have "sorted (map (remain s0) (g_tick_head s))"
    using core_okD(4) [OF kinvD(1) [OF k0(1)]] k0(2) by (simp add: tick_ok_def)
  then have "0 < remain s0 u" if "u \<in> set (dropWhile (due s0) (g_tick_head s))" for u
    using dropWhile_pos [of "remain s0" "g_tick_head s" u] that by (simp add: due_def [abs_def])
  then show "tick_pos s'"
    using w(2,6) env_sel(7) [OF w(3)] by (simp add: s' tick_pos_def remain_def)
  show "env s' = env (s\<lparr>g_tick_count := g_tick_count s + 1\<rparr>)"
    using w(3) by (simp add: s' s0_def env_def)
  show "ub s' = ub s" "k_errs s' = k_errs s" using w(4,5) by (simp_all add: s' s0_def)
  show "t \<in> set (expired s) \<Longrightarrow> st s' t = woken (st s t) \<and>
      blk_state (tasks s' t) = (if pended (st s t) then BLK_TIMEOUT else BLK_FINISH)"
    "t \<notin> set (expired s) \<Longrightarrow> (tasks s' t)\<lparr>prio := 0\<rparr> = (tasks s t)\<lparr>prio := 0\<rparr>"
    using w(7) [of t] by (simp_all add: s' s0_def)
qed

end
