(* ===== verification/Wait_Cond.thy ===== *)
theory Wait_Cond
  imports Tick
begin

text \<open>
  No lost wake-ups: a task never waits for an object that could serve it now. A semaphore
  with a task in its blocking list has count zero, a queue with a waiting task is empty,
  and no task waits for an event condition that holds. (A free mutex with a waiting task
  is excluded by theory \<open>Mutex_Inv\<close> already.) Here are the condition and the moves that
  keep it.
\<close>

unbundle bit_operations_syntax

text \<open>The test of \<^verbatim>\<open>krhino_event_get\<close> and \<^verbatim>\<open>event_set\<close> on the flags of an event group.\<close>

definition event_match :: "8 word \<Rightarrow> 32 word \<Rightarrow> 32 word \<Rightarrow> bool" where
  "event_match opt flags cur =
     (if opt AND RHINO_FLAGS_AND_MASK \<noteq> 0 then cur AND flags = flags else cur AND flags \<noteq> 0)"

definition avail :: "kernel \<Rightarrow> ptr \<Rightarrow> ktask_t \<Rightarrow> bool" where
  "avail s b k \<longleftrightarrow>
     obj_type (blks s b) = RHINO_SEM_OBJ_TYPE \<and> 0 < sem_count (sems s b) \<or>
     obj_type (blks s b) = RHINO_QUEUE_OBJ_TYPE \<and> 0 < cur_num (msg_q (queues s b)) \<or>
     obj_type (blks s b) = RHINO_BUF_QUEUE_OBJ_TYPE \<and> \<not> ringbuf_is_empty (bq_ringbuf (buf_queues s b)) \<or>
     obj_type (blks s b) = RHINO_EVENT_OBJ_TYPE \<and>
       event_match (pend_option k) (pend_flags k) (event_flags (events s b))"

definition no_lost :: "kernel \<Rightarrow> bool" where
  "no_lost s \<longleftrightarrow> (\<forall>t. pended (st s t) \<longrightarrow> \<not> avail s (bo s t) (tasks s t))"

lemma avail_cong:
  assumes "obj_type (blks s' b) = obj_type (blks s b)" and "sems s' b = sems s b"
    and "queues s' b = queues s b" and "buf_queues s' b = buf_queues s b" and "events s' b = events s b"
    and "pend_option k' = pend_option k" and "pend_flags k' = pend_flags k"
  shows "avail s' b k' = avail s b k"
  using assms by (simp add: avail_def)

lemma no_lost_step:
  assumes "no_lost s" and e: "env s' = env s" and "\<And>b. obj_type (blks s' b) = obj_type (blks s b)"
    and "\<And>u. pended (st s' u) \<Longrightarrow> pended (st s u) \<and> bo s' u = bo s u \<and>
      pend_option (tasks s' u) = pend_option (tasks s u) \<and> pend_flags (tasks s' u) = pend_flags (tasks s u)"
  shows "no_lost s'"
  unfolding no_lost_def
proof (intro allI impI)
  fix t assume t: "pended (st s' t)"
  note a = assms(4) [OF t]
  have "avail s' (bo s t) (tasks s' t) = avail s (bo s t) (tasks s t)"
    using a assms(3) by (intro avail_cong) (simp_all add: env_sel [OF e])
  then show "\<not> avail s' (bo s' t) (tasks s' t)" using a assms(1) by (simp add: no_lost_def)
qed

lemma nopri_pend:
  assumes "(k'::ktask_t)\<lparr>prio := 0\<rparr> = k\<lparr>prio := 0\<rparr>"
  shows "pend_option k' = pend_option k" "pend_flags k' = pend_flags k" "blk_obj k' = blk_obj k"
  using arg_cong [OF assms, of pend_option] arg_cong [OF assms, of pend_flags]
    arg_cong [OF assms, of blk_obj] by simp_all

lemma goes_no_lost:
  assumes "no_lost s" and g: "goes t x s s'"
  shows "no_lost s'"
  by (rule no_lost_step [OF assms(1) goesD(1) [OF g] goesD(11) [OF g]])
    (use goesD(5,10,14) [OF g] in \<open>auto split: if_splits\<close>)

lemma unblocks_no_lost:
  assumes "no_lost s" and g: "unblocks t x s s'" and x: "\<not> pended x"
  shows "no_lost s'"
proof (rule no_lost_step [OF assms(1)])
  fix u assume "pended (st s' u)"
  then have u: "u \<noteq> t" "pended (st s u)" using g x by (auto simp: unblocks_def split: if_splits)
  then have "(tasks s' u)\<lparr>prio := 0\<rparr> = (tasks s u)\<lparr>prio := 0\<rparr>" using g by (simp add: unblocks_def)
  with u nopri_pend [OF this] show "pended (st s u) \<and> bo s' u = bo s u \<and> pend_option (tasks s' u) = pend_option (tasks s u) \<and>
      pend_flags (tasks s' u) = pend_flags (tasks s u)" by simp
qed (use g in \<open>simp_all add: unblocks_def\<close>)

lemma pri_only_no_lost:
  assumes "no_lost s" and g: "pri_only s s'"
  shows "no_lost s'"
proof (rule no_lost_step [OF assms(1) pri_only_env(1) [OF g] pri_only_blk(1) [OF g]])
  fix u assume p: "pended (st s' u)"
  have "(tasks s' u)\<lparr>prio := 0\<rparr> = (tasks s u)\<lparr>prio := 0\<rparr>" using g by (simp add: pri_only_def)
  from p nopri_pend [OF this] show "pended (st s u) \<and> bo s' u = bo s u \<and> pend_option (tasks s' u) = pend_option (tasks s u) \<and>
      pend_flags (tasks s' u) = pend_flags (tasks s u)"
    by (simp add: pri_only_task [OF g])
qed

lemma waits_no_lost:
  assumes "no_lost s" and w: "waits t x b time s s'"
    and b: "x = K_PEND \<Longrightarrow> \<not> avail s b (tasks s' t)"
  shows "no_lost s'"
  unfolding no_lost_def
proof (intro allI impI)
  fix u assume u: "pended (st s' u)"
  have a: "avail s' o' k = avail s o' k" for o' k
    by (rule avail_cong) (simp_all add: waitsD(11) [OF w] env_sel [OF waitsD(1) [OF w]])
  show "\<not> avail s' (bo s' u) (tasks s' u)"
  proof (cases "u = t")
    case True
    then have "x = K_PEND" using u waitsD(9,13) [OF w] by auto
    then show ?thesis using b True waitsD(10) [OF w] by (simp add: a)
  next
    case False
    then show ?thesis using u assms(1) waitsD(5,9) [OF w] by (auto simp: a no_lost_def split: if_splits)
  qed
qed

lemma upd_task_no_lost:
  assumes "no_lost s"
    and "pended (task_state (f (tasks s t))) \<Longrightarrow> pended (st s t) \<and> blk_obj (f (tasks s t)) = bo s t \<and>
      pend_option (f (tasks s t)) = pend_option (tasks s t) \<and> pend_flags (f (tasks s t)) = pend_flags (tasks s t)"
  shows "no_lost (upd_task t f s)"
  by (rule no_lost_step [OF assms(1) upd_task_env]) (use assms(2) in \<open>auto split: if_splits\<close>)

lemma no_lost_fields [simp]:
  "no_lost (s\<lparr>g_sys_stat := v0\<rparr>) = no_lost s"
  "no_lost (s\<lparr>g_sched_lock := v1\<rparr>) = no_lost s"
  "no_lost (s\<lparr>g_intrpt_nested_level := v2\<rparr>) = no_lost s"
  "no_lost (s\<lparr>g_preferred_ready_task := v3\<rparr>) = no_lost s"
  "no_lost (s\<lparr>g_kobj_list := v4\<rparr>) = no_lost s"
  "no_lost (s\<lparr>mem := v9\<rparr>) = no_lost s"
  "no_lost (s\<lparr>outs := v10\<rparr>) = no_lost s"
  "no_lost (s\<lparr>irq_off := v11\<rparr>) = no_lost s"
  "no_lost (s\<lparr>cpu_switch := v12\<rparr>) = no_lost s"
  "no_lost (s\<lparr>k_errs := v13\<rparr>) = no_lost s"
  "no_lost (s\<lparr>ub := v14\<rparr>) = no_lost s"
  "no_lost (s\<lparr>g_tick_count := v15\<rparr>) = no_lost s"
  "no_lost (s\<lparr>g_ready_queue := v16\<rparr>) = no_lost s"
  "no_lost (s\<lparr>g_active_task := v17\<rparr>) = no_lost s"
  "no_lost (s\<lparr>g_idle_task_spawned := v18\<rparr>) = no_lost s"
  by (simp_all add: no_lost_def avail_def)

lemma no_lost_same:
  assumes "tasks s' = tasks s" "blks s' = blks s" "sems s' = sems s" "queues s' = queues s"
    "buf_queues s' = buf_queues s" "events s' = events s"
  shows "no_lost s' = no_lost s"
  using assms by (simp add: no_lost_def avail_def)

section \<open>The tick\<close>

lemma tick_list_walk_no_lost:
  assumes "kinv s" and "g_tick_head s = xs" and "no_lost s"
  shows "no_lost (tick_list_walk xs s)"
  using assms
proof (induction xs arbitrary: s)
  case Nil
  then show ?case by simp
next
  case (Cons t xs)
  have w: "pended (st s t) \<or> sleeping (st s t)"
    using tick_in_waits [OF kinvD(1) [OF Cons.prems(1)]] Cons.prems(2) by simp
  note e = tick_expire_effect [OF Cons.prems(1) w]
  have "g_tick_head (tick_expire t s) = xs" using e(2) Cons.prems(2) by (simp add: unblocks_def)
  moreover have "no_lost (tick_expire t s)"
    by (rule unblocks_no_lost [OF Cons.prems(3) e(2)]) (simp add: woken_def)
  ultimately show ?case using Cons.IH [OF e(1)] Cons.prems(3) by simp
qed

lemma tick_list_update_no_lost:
  assumes "kinv s" "tick_pos s" "no_lost s"
  shows "no_lost (tick_list_update 1 s)"
proof -
  let ?s = "s\<lparr>irq_off := True\<rparr>"
  have "kinv (?s\<lparr>g_tick_count := g_tick_count ?s + 1\<rparr>)" using assms by (intro kinv_count) simp_all
  from tick_list_walk_no_lost [OF this refl] assms(3) show ?thesis
    by (simp add: tick_list_update_def Let_def RHINO_CRITICAL_ENTER_def RHINO_CRITICAL_EXIT_def)
qed

end
