(* ===== verification/System_Inv.thy ===== *)
theory System_Inv
  imports Wait_Cond
begin

text \<open>
  The invariant of the running system: the kernel invariant, together with what the
  scheduler promises. Outside interrupts and with the scheduler unlocked, the processor
  runs, or is about to switch to, the first task of the highest-priority ready ring. A
  kernel call ends in \<^verbatim>\<open>RHINO_CRITICAL_EXIT_SCHED\<close>, which establishes this from the weaker
  \<open>presched\<close>, the state inside the call's critical section.
\<close>

definition best :: "kernel \<Rightarrow> ptr" where
  "best s = hd (ring s (highest_pri (g_ready_queue s)))"

definition sched_ok :: "kernel \<Rightarrow> bool" where
  "sched_ok s \<longleftrightarrow>
     (g_sched_lock s > 0 \<longrightarrow> st s (g_active_task s) = K_RDY \<and> \<not> cpu_switch s) \<and>
     (g_intrpt_nested_level s = 0 \<and> g_sched_lock s = 0 \<longrightarrow>
        (if cpu_switch s then g_preferred_ready_task s else g_active_task s) = best s)"

definition no_fatal :: "kernel \<Rightarrow> bool" where
  "no_fatal s \<longleftrightarrow> \<not> ub s \<and> RHINO_SYS_FATAL_ERR \<notin> set (k_errs s)"

definition sysinv :: "kernel \<Rightarrow> bool" where
  "sysinv s \<longleftrightarrow> kinv s \<and> tick_pos s \<and> sched_ok s \<and> no_fatal s \<and> no_lost s"

text \<open>A kernel call is made by a handler, or by a task when no switch is pending.\<close>

definition callable :: "kernel \<Rightarrow> bool" where
  "callable s \<longleftrightarrow> (g_intrpt_nested_level s = 0 \<longrightarrow> \<not> cpu_switch s)"

definition presched0 :: "kernel \<Rightarrow> bool" where
  "presched0 s \<longleftrightarrow> kinv s \<and> tick_pos s \<and> no_fatal s \<and> callable s \<and>
     (g_sched_lock s > 0 \<longrightarrow> st s (g_active_task s) = K_RDY \<and> \<not> cpu_switch s)"

definition presched :: "kernel \<Rightarrow> bool" where
  "presched s \<longleftrightarrow> presched0 s \<and> no_lost s"

lemma sysinvD: "sysinv s \<Longrightarrow> kinv s" "sysinv s \<Longrightarrow> tick_pos s" "sysinv s \<Longrightarrow> sched_ok s"
  "sysinv s \<Longrightarrow> no_fatal s" "sysinv s \<Longrightarrow> no_lost s"
  by (simp_all add: sysinv_def)

lemma preschedD: "presched s \<Longrightarrow> kinv s" "presched s \<Longrightarrow> tick_pos s" "presched s \<Longrightarrow> no_fatal s"
  "presched s \<Longrightarrow> callable s" "presched s \<Longrightarrow> no_lost s" "presched s \<Longrightarrow> presched0 s"
  by (simp_all add: presched_def presched0_def)

lemma sysinv_presched: "sysinv s \<Longrightarrow> callable s \<Longrightarrow> presched s"
  by (simp add: sysinv_def presched_def presched0_def sched_ok_def)

section \<open>The highest-priority ready task\<close>

lemma best_ready:
  assumes c: "core_ok s"
  shows "highest_pri (g_ready_queue s) < RHINO_CONFIG_PRI_MAX"
    and "ring s (highest_pri (g_ready_queue s)) \<noteq> []"
    and "st s (best s) = K_RDY" and "pr s (best s) = highest_pri (g_ready_queue s)"
    and "st s t = K_RDY \<Longrightarrow> pr s (best s) \<le> pr s t"
proof -
  note rq = core_okD(1) [OF c, unfolded rq_ok_def]
  have i: "ring s RHINO_IDLE_PRI \<noteq> []" using idle_in_ring [OF c] by auto
  show h: "highest_pri (g_ready_queue s) < 62"
    using rq i by (metis (no_types, lifting) not_less_iff_gr_or_eq order_le_less numeral_less_iff semiring_norm(78) less_imp_le)
  then show n: "ring s (highest_pri (g_ready_queue s)) \<noteq> []" using rq by blast
  then have "best s \<in> set (ring s (highest_pri (g_ready_queue s)))" by (simp add: best_def)
  then show "st s (best s) = K_RDY" and p: "pr s (best s) = highest_pri (g_ready_queue s)"
    using in_ring_iff [OF core_okD(2) [OF c]] by blast+
  show "pr s (best s) \<le> pr s t" if "st s t = K_RDY"
  proof -
    have "t \<in> set (ring s (pr s t))" using in_ring_iff [OF core_okD(2) [OF c]] that by simp
    then have "ring s (pr s t) \<noteq> []" by auto
    then show ?thesis using rq p by (metis not_le)
  qed
qed

section \<open>Leaving a critical section\<close>

lemma sysinv_irq [simp]: "sysinv (s\<lparr>irq_off := b\<rparr>) = sysinv s"
  by (simp add: sysinv_def sched_ok_def no_fatal_def best_def)

lemma presched_irq [simp]: "presched (s\<lparr>irq_off := b\<rparr>) = presched s"
  by (simp add: presched_def presched0_def no_fatal_def callable_def)

lemma critical_simps [simp]:
  "sysinv (RHINO_CRITICAL_ENTER s) = sysinv s" "sysinv (RHINO_CRITICAL_EXIT c s) = sysinv s"
  "presched (RHINO_CRITICAL_ENTER s) = presched s" "presched (RHINO_CRITICAL_EXIT c s) = presched s"
  "kinv (RHINO_CRITICAL_ENTER s) = kinv s" "kinv (RHINO_CRITICAL_EXIT c s) = kinv s"
  "irq_off (RHINO_CRITICAL_EXIT c s) = c" "irq_off (RHINO_CRITICAL_ENTER s)"
  by (simp_all add: RHINO_CRITICAL_ENTER_def RHINO_CRITICAL_EXIT_def)

lemma critical_sel [simp]:
  "tasks (RHINO_CRITICAL_ENTER s) = tasks s" "blks (RHINO_CRITICAL_ENTER s) = blks s"
  "g_active_task (RHINO_CRITICAL_ENTER s) = g_active_task s"
  "g_idle_task (RHINO_CRITICAL_ENTER s) = g_idle_task s"
  "g_sched_lock (RHINO_CRITICAL_ENTER s) = g_sched_lock s"
  "g_intrpt_nested_level (RHINO_CRITICAL_ENTER s) = g_intrpt_nested_level s"
  "g_sys_stat (RHINO_CRITICAL_ENTER s) = g_sys_stat s" "sems (RHINO_CRITICAL_ENTER s) = sems s"
  "mutexes (RHINO_CRITICAL_ENTER s) = mutexes s" "events (RHINO_CRITICAL_ENTER s) = events s"
  "queues (RHINO_CRITICAL_ENTER s) = queues s" "buf_queues (RHINO_CRITICAL_ENTER s) = buf_queues s"
  "port (RHINO_CRITICAL_ENTER s) = port s" "mem (RHINO_CRITICAL_ENTER s) = mem s"
  "outs (RHINO_CRITICAL_ENTER s) = outs s" "g_ready_queue (RHINO_CRITICAL_ENTER s) = g_ready_queue s"
  "g_tick_head (RHINO_CRITICAL_ENTER s) = g_tick_head s"
  "g_tick_count (RHINO_CRITICAL_ENTER s) = g_tick_count s"
  "cpu_switch (RHINO_CRITICAL_ENTER s) = cpu_switch s" "ub (RHINO_CRITICAL_ENTER s) = ub s"
  "k_errs (RHINO_CRITICAL_ENTER s) = k_errs s" "g_kobj_list (RHINO_CRITICAL_ENTER s) = g_kobj_list s"
  "g_idle_task_spawned (RHINO_CRITICAL_ENTER s) = g_idle_task_spawned s"
  "g_preferred_ready_task (RHINO_CRITICAL_ENTER s) = g_preferred_ready_task s"
  "tasks (RHINO_CRITICAL_EXIT c s) = tasks s" "blks (RHINO_CRITICAL_EXIT c s) = blks s"
  "g_active_task (RHINO_CRITICAL_EXIT c s) = g_active_task s"
  "sems (RHINO_CRITICAL_EXIT c s) = sems s" "mutexes (RHINO_CRITICAL_EXIT c s) = mutexes s"
  "events (RHINO_CRITICAL_EXIT c s) = events s" "queues (RHINO_CRITICAL_EXIT c s) = queues s"
  "buf_queues (RHINO_CRITICAL_EXIT c s) = buf_queues s"
  "mem (RHINO_CRITICAL_EXIT c s) = mem s" "outs (RHINO_CRITICAL_EXIT c s) = outs s"
  "port (RHINO_CRITICAL_EXIT c s) = port s" "g_sys_stat (RHINO_CRITICAL_EXIT c s) = g_sys_stat s"
  "g_intrpt_nested_level (RHINO_CRITICAL_EXIT c s) = g_intrpt_nested_level s"
  "g_idle_task (RHINO_CRITICAL_EXIT c s) = g_idle_task s"
  "g_sched_lock (RHINO_CRITICAL_EXIT c s) = g_sched_lock s"
  "g_tick_count (RHINO_CRITICAL_EXIT c s) = g_tick_count s"
  "g_idle_task_spawned (RHINO_CRITICAL_EXIT c s) = g_idle_task_spawned s"
  "cpu_switch (RHINO_CRITICAL_EXIT c s) = cpu_switch s"
  "g_kobj_list (RHINO_CRITICAL_EXIT c s) = g_kobj_list s"
  by (simp_all add: RHINO_CRITICAL_ENTER_def RHINO_CRITICAL_EXIT_def)

text \<open>What \<^verbatim>\<open>core_sched\<close> does in a consistent state: nothing but choose and request a switch.\<close>

lemma core_sched_effect:
  assumes c: "core_ok s"
  shows "core_sched s =
    (if g_intrpt_nested_level s > 0 \<or> g_sched_lock s > 0 then s
     else if best s = g_active_task s then s\<lparr>g_preferred_ready_task := best s\<rparr>
     else s\<lparr>g_preferred_ready_task := best s, cpu_switch := True\<rparr>)"
  using best_ready(1,2) [OF c]
  by (simp add: core_sched_def Let_def RHINO_CRITICAL_ENTER_def RHINO_CRITICAL_EXIT_def
      preferred_cpu_ready_task_get_def best_def cpu_task_switch_def)

lemma exit_sched_sel:
  assumes "presched s"
  shows "tasks (RHINO_CRITICAL_EXIT_SCHED c s) = tasks s" "blks (RHINO_CRITICAL_EXIT_SCHED c s) = blks s"
    "sems (RHINO_CRITICAL_EXIT_SCHED c s) = sems s" "mutexes (RHINO_CRITICAL_EXIT_SCHED c s) = mutexes s"
    "events (RHINO_CRITICAL_EXIT_SCHED c s) = events s" "queues (RHINO_CRITICAL_EXIT_SCHED c s) = queues s"
    "buf_queues (RHINO_CRITICAL_EXIT_SCHED c s) = buf_queues s"
    "mem (RHINO_CRITICAL_EXIT_SCHED c s) = mem s" "outs (RHINO_CRITICAL_EXIT_SCHED c s) = outs s"
    "irq_off (RHINO_CRITICAL_EXIT_SCHED c s) = c"
    "g_ready_queue (RHINO_CRITICAL_EXIT_SCHED c s) = g_ready_queue s"
    "g_active_task (RHINO_CRITICAL_EXIT_SCHED c s) = g_active_task s"
    "g_sched_lock (RHINO_CRITICAL_EXIT_SCHED c s) = g_sched_lock s"
proof -
  have "core_ok (RHINO_CRITICAL_EXIT c s)"
    using kinvD(1) [OF preschedD(1) [OF assms]] kinvD(1) [of "RHINO_CRITICAL_EXIT c s"]
      preschedD(1) [OF assms] by simp
  from core_sched_effect [OF this] show "tasks (RHINO_CRITICAL_EXIT_SCHED c s) = tasks s"
    "blks (RHINO_CRITICAL_EXIT_SCHED c s) = blks s"
    "sems (RHINO_CRITICAL_EXIT_SCHED c s) = sems s" "mutexes (RHINO_CRITICAL_EXIT_SCHED c s) = mutexes s"
    "events (RHINO_CRITICAL_EXIT_SCHED c s) = events s" "queues (RHINO_CRITICAL_EXIT_SCHED c s) = queues s"
    "buf_queues (RHINO_CRITICAL_EXIT_SCHED c s) = buf_queues s"
    "mem (RHINO_CRITICAL_EXIT_SCHED c s) = mem s" "outs (RHINO_CRITICAL_EXIT_SCHED c s) = outs s"
    "irq_off (RHINO_CRITICAL_EXIT_SCHED c s) = c"
    "g_ready_queue (RHINO_CRITICAL_EXIT_SCHED c s) = g_ready_queue s"
    "g_active_task (RHINO_CRITICAL_EXIT_SCHED c s) = g_active_task s"
    "g_sched_lock (RHINO_CRITICAL_EXIT_SCHED c s) = g_sched_lock s"
    by (simp_all add: RHINO_CRITICAL_EXIT_SCHED_def) (simp_all add: RHINO_CRITICAL_EXIT_def)
qed

lemma exit_sched_sysinv:
  assumes p: "presched s"
  shows "sysinv (RHINO_CRITICAL_EXIT_SCHED c s)"
proof -
  define s1 where "s1 = RHINO_CRITICAL_EXIT c s"
  have p1: "presched s1" using p by (simp add: s1_def)
  have c1: "core_ok s1" by (rule kinvD(1) [OF preschedD(1) [OF p1]])
  from p1 show ?thesis
    unfolding RHINO_CRITICAL_EXIT_SCHED_def s1_def [symmetric] core_sched_effect [OF c1]
    by (auto simp: presched_def presched0_def sysinv_def sched_ok_def no_fatal_def callable_def best_def)
qed

section \<open>Moves inside a critical section\<close>

lemma presched0_step:
  assumes p: "presched0 s" and k: "kinv s'" "tick_pos s'" and e: "env s' = env s"
    and u: "ub s' = ub s" "k_errs s' = k_errs s"
    and a: "g_sched_lock s > 0 \<Longrightarrow> st s (g_active_task s) = K_RDY \<Longrightarrow> st s' (g_active_task s) = K_RDY"
  shows "presched0 s'"
  using p k u a by (simp add: presched0_def no_fatal_def callable_def env_sel [OF e])

lemma presched_step:
  assumes "presched s" and "kinv s'" "tick_pos s'" and "no_lost s'" and "env s' = env s"
    and "ub s' = ub s" "k_errs s' = k_errs s"
    and "g_sched_lock s > 0 \<Longrightarrow> st s (g_active_task s) = K_RDY \<Longrightarrow> st s' (g_active_task s) = K_RDY"
  shows "presched s'"
  using assms presched0_step [OF preschedD(6) [OF assms(1)]] by (simp add: presched_def)

lemma goes_presched0:
  assumes "presched0 s" and "kinv s'" and g: "goes t x s s'" and "st s t \<noteq> K_RDY"
  shows "presched0 s'"
proof (rule presched0_step [OF assms(1,2)])
  show "tick_pos s'" using assms(1) goes_tick_pos [OF _ _ g] kinvD(1) by (auto simp: presched0_def)
qed (use assms(4) in \<open>auto simp: goesD [OF g]\<close>)

lemma goes_presched:
  assumes "presched s" and "kinv s'" and g: "goes t x s s'" and "st s t \<noteq> K_RDY"
  shows "presched s'"
  using goes_presched0 [OF preschedD(6) [OF assms(1)] assms(2-4)] goes_no_lost [OF preschedD(5) [OF assms(1)] g]
  by (simp add: presched_def)

lemma unblocks_presched:
  assumes "presched s" and "kinv s'" "tick_pos s'" and g: "unblocks t x s s'" and "st s t \<noteq> K_RDY"
    and "\<not> pended x"
  shows "presched s'"
  using g assms by (intro presched_step [OF assms(1-3) unblocks_no_lost [OF preschedD(5) [OF assms(1)] g assms(6)]])
    (auto simp: unblocks_def)

lemma pri_only_presched:
  assumes "presched s" and "kinv s'" and g: "pri_only s s'"
  shows "presched s'"
  using assms pri_only_tick_pos [OF preschedD(2) [OF assms(1)] g] pri_only_no_lost [OF preschedD(5) [OF assms(1)] g]
  by (intro presched_step [OF assms(1,2)]) (auto simp: pri_only_env [OF g] pri_only_task [OF g])

lemma waits_presched:
  assumes "presched s" and "kinv s'" and w: "waits t x b time s s'" and "st s t = K_RDY"
    and "g_sched_lock s = 0" and "x = K_PEND \<Longrightarrow> \<not> avail s b (tasks s' t)"
  shows "presched s'"
  using assms waits_tick_pos [OF preschedD(2) [OF assms(1)] kinvD(1) [OF preschedD(1) [OF assms(1)]] w]
    waits_no_lost [OF preschedD(5) [OF assms(1)] w assms(6)]
  by (intro presched_step [OF assms(1,2)]) (auto simp: waitsD [OF w])

lemma upd_task_presched:
  assumes "presched s" and "kinv (upd_task t f s)" and "tick_match (f (tasks s t)) = tick_match (tasks s t)"
    and "st s t = K_RDY \<Longrightarrow> task_state (f (tasks s t)) = K_RDY"
    and "pended (task_state (f (tasks s t))) \<Longrightarrow> pended (st s t) \<and> blk_obj (f (tasks s t)) = bo s t \<and>
      pend_option (f (tasks s t)) = pend_option (tasks s t) \<and> pend_flags (f (tasks s t)) = pend_flags (tasks s t)"
  shows "presched (upd_task t f s)"
  using assms(1,2)
proof (rule presched_step)
  show "tick_pos (upd_task t f s)"
    using preschedD(2) [OF assms(1)] by (rule tick_pos_cong) (simp_all add: assms(3))
  show "st (upd_task t f s) (g_active_task s) = K_RDY" if "st s (g_active_task s) = K_RDY"
    using that assms(4) by auto
  show "no_lost (upd_task t f s)" using assms(5) by (intro upd_task_no_lost [OF preschedD(5) [OF assms(1)]]) simp
qed (simp_all add: upd_task_env)

end
