(* ===== verification/Task.thy ===== *)
theory Task
  imports System_Inv
begin

text \<open>
  Task management (\<^verbatim>\<open>k_task.c\<close>): creation, deletion, sleeping, suspension, priority change,
  aborting a wait, and the small setters and getters. Every operation is shown to keep the
  kernel invariant on all of its branches, with its effect on the task it is called for.
\<close>

section \<open>Model\<close>

text \<open>
  An operation that may block either returns or leaves its task waiting; the rest of the
  function runs when the task is scheduled again (\<open>pend_resume\<close>).
\<close>

datatype kret = Returned kstat_t | Blocked

definition pend_resume :: "kernel \<Rightarrow> kstat_t \<times> kernel" where
  "pend_resume s =
     (let cpsr = irq_off s;
          s = RHINO_CRITICAL_ENTER s;
          (ret, s) = pend_state_end_proc (g_active_task s) s
      in (ret, RHINO_CRITICAL_EXIT cpsr s))"

definition task_create ::
  "ptr \<Rightarrow> ptr \<Rightarrow> ptr \<Rightarrow> nat \<Rightarrow> tick_t \<Rightarrow> ptr \<Rightarrow> size_t \<Rightarrow> ptr \<Rightarrow> bool \<Rightarrow> alloc_flag_t \<Rightarrow> nat \<Rightarrow>
   kernel \<Rightarrow> kstat_t \<times> kernel" where
  "task_create task name arg pri ticks stack_buf stack_sz entry autorun flag cpu s =
     (if task = NULL then (RHINO_NULL_PTR, s)
      else if name = NULL then (RHINO_NULL_PTR, s)
      else if entry = NULL then (RHINO_NULL_PTR, s)
      else if stack_buf = NULL then (RHINO_NULL_PTR, s)
      else if stack_sz = 0 then (RHINO_TASK_INV_STACK_SIZE, s)
      else if pri \<ge> RHINO_CONFIG_PRI_MAX then (RHINO_BEYOND_MAX_PRI, s)
      else
        let cpsr = irq_off s;
            s = RHINO_CRITICAL_ENTER s in
        if g_intrpt_nested_level s > 0 then (RHINO_NOT_CALLED_BY_INTRPT, RHINO_CRITICAL_EXIT cpsr s)
        else if pri = RHINO_IDLE_PRI \<and> g_idle_task_spawned s
        then (RHINO_IDLE_TASK_EXIST, RHINO_CRITICAL_EXIT cpsr s)
        else
          let s = (if pri = RHINO_IDLE_PRI then s\<lparr>g_idle_task_spawned := True\<rparr> else s);
              s = RHINO_CRITICAL_EXIT cpsr s;
              total = (if ticks > 0 then ucast ticks else RHINO_CONFIG_TIME_SLICE_DEFAULT);
              s = upd_task task (\<lambda>_. zero_task
                    \<lparr>time_total := total,
                     time_slice_cnt := total,
                     sched_policy := KSCHED_RR,
                     task_state := (if autorun then K_RDY else K_SUSPENDED),
                     suspend_count := (if autorun then 0 else 1),
                     task_stack_base := stack_buf,
                     task_name := name,
                     prio := pri,
                     b_prio := pri,
                     stack_size := stack_sz,
                     mm_alloc_flag := flag,
                     cpu_num := cpu,
                     task_stack := cpu_task_stack_init (port s) stack_buf stack_sz arg entry\<rparr>) s;
              cpsr = irq_off s;
              s = RHINO_CRITICAL_ENTER s;
              s = upd_kobj (\<lambda>g. g\<lparr>task_head := task_head g @ [task]\<rparr>) s in
          if autorun then
            let s = ready_list_add_tail task s in
            if g_sys_stat s = RHINO_RUNNING then (RHINO_SUCCESS, RHINO_CRITICAL_EXIT_SCHED cpsr s)
            else (RHINO_SUCCESS, RHINO_CRITICAL_EXIT cpsr s)
          else (RHINO_SUCCESS, RHINO_CRITICAL_EXIT cpsr s))"

definition krhino_task_create ::
  "ptr \<Rightarrow> ptr \<Rightarrow> ptr \<Rightarrow> nat \<Rightarrow> tick_t \<Rightarrow> ptr \<Rightarrow> size_t \<Rightarrow> ptr \<Rightarrow> bool \<Rightarrow> kernel \<Rightarrow> kstat_t \<times> kernel" where
  "krhino_task_create task name arg pri ticks stack_buf stack_sz entry autorun s =
     task_create task name arg pri ticks stack_buf stack_sz entry autorun K_OBJ_STATIC_ALLOC 0 s"

definition krhino_task_sleep :: "tick_t \<Rightarrow> kernel \<Rightarrow> kret \<times> kernel" where
  "krhino_task_sleep ticks s =
     (if ticks = 0 then (Returned RHINO_INV_PARAM, s)
      else
        let cpsr = irq_off s;
            s = RHINO_CRITICAL_ENTER s in
        if g_intrpt_nested_level s > 0
        then (Returned RHINO_NOT_CALLED_BY_INTRPT, RHINO_CRITICAL_EXIT cpsr s)
        else if g_sched_lock s > 0 then (Returned RHINO_SCHED_DISABLE, RHINO_CRITICAL_EXIT cpsr s)
        else
          let s = upd_task (g_active_task s) (\<lambda>k. k\<lparr>task_state := K_SLEEP\<rparr>) s;
              s = tick_list_insert (g_active_task s) ticks s;
              s = ready_list_rm (g_active_task s) s
          in (Blocked, RHINO_CRITICAL_EXIT_SCHED cpsr s))"

definition krhino_task_yield :: "kernel \<Rightarrow> kstat_t \<times> kernel" where
  "krhino_task_yield s =
     (let cpsr = irq_off s;
          s = RHINO_CRITICAL_ENTER s;
          s = ready_list_head_to_tail (g_active_task s) s
      in (RHINO_SUCCESS, RHINO_CRITICAL_EXIT_SCHED cpsr s))"

definition krhino_cur_task_get :: "kernel \<Rightarrow> ptr \<times> kernel" where
  "krhino_cur_task_get s =
     (let cpsr = irq_off s;
          s = RHINO_CRITICAL_ENTER s;
          task = g_active_task s
      in (task, RHINO_CRITICAL_EXIT cpsr s))"

definition task_suspend :: "ptr \<Rightarrow> kernel \<Rightarrow> kstat_t \<times> kernel" where
  "task_suspend task s =
     (let cpsr = irq_off s;
          s = RHINO_CRITICAL_ENTER s in
      if task = g_active_task s \<and> g_sched_lock s > 0
      then (RHINO_SCHED_DISABLE, RHINO_CRITICAL_EXIT cpsr s)
      else
        (case task_state (tasks s task) of
           K_RDY \<Rightarrow>
             let s = upd_task task (\<lambda>k. k\<lparr>suspend_count := 1, task_state := K_SUSPENDED\<rparr>) s;
                 s = ready_list_rm task s
             in (RHINO_SUCCESS, RHINO_CRITICAL_EXIT_SCHED cpsr s)
         | K_SLEEP \<Rightarrow>
             let s = upd_task task (\<lambda>k. k\<lparr>suspend_count := 1, task_state := K_SLEEP_SUSPENDED\<rparr>) s
             in (RHINO_SUCCESS, RHINO_CRITICAL_EXIT_SCHED cpsr s)
         | K_PEND \<Rightarrow>
             let s = upd_task task (\<lambda>k. k\<lparr>suspend_count := 1, task_state := K_PEND_SUSPENDED\<rparr>) s
             in (RHINO_SUCCESS, RHINO_CRITICAL_EXIT_SCHED cpsr s)
         | K_SEED \<Rightarrow> (RHINO_INV_TASK_STATE, RHINO_CRITICAL_EXIT cpsr s)
         | K_DELETED \<Rightarrow> (RHINO_INV_TASK_STATE, RHINO_CRITICAL_EXIT cpsr s)
         | _ \<Rightarrow>
             if suspend_count (tasks s task) = suspend_nested_max (port s)
             then (RHINO_SUSPENDED_COUNT_OVF, RHINO_CRITICAL_EXIT cpsr s)
             else
               let s = upd_task task
                         (\<lambda>k. k\<lparr>suspend_count := cinc (suspend_nested_max (port s)) (suspend_count k)\<rparr>) s
               in (RHINO_SUCCESS, RHINO_CRITICAL_EXIT_SCHED cpsr s)))"

definition krhino_task_suspend :: "ptr \<Rightarrow> kernel \<Rightarrow> kstat_t \<times> kernel" where
  "krhino_task_suspend task s =
     (if task = NULL then (RHINO_NULL_PTR, s)
      else if prio (tasks s task) = RHINO_IDLE_PRI then (RHINO_TASK_SUSPEND_NOT_ALLOWED, s)
      else task_suspend task s)"

definition task_resume :: "ptr \<Rightarrow> kernel \<Rightarrow> kstat_t \<times> kernel" where
  "task_resume task s =
     (let cpsr = irq_off s;
          s = RHINO_CRITICAL_ENTER s;
          dec = (\<lambda>k. k\<lparr>suspend_count := cdec (suspend_nested_max (port s)) (suspend_count k)\<rparr>) in
      case task_state (tasks s task) of
        K_SUSPENDED \<Rightarrow>
          let s = upd_task task dec s;
              s = (if suspend_count (tasks s task) = 0 then
                     let s = upd_task task (\<lambda>k. k\<lparr>task_state := K_RDY\<rparr>) s
                     in ready_list_add task s
                   else s)
          in (RHINO_SUCCESS, RHINO_CRITICAL_EXIT_SCHED cpsr s)
      | K_SLEEP_SUSPENDED \<Rightarrow>
          let s = upd_task task dec s;
              s = (if suspend_count (tasks s task) = 0
                   then upd_task task (\<lambda>k. k\<lparr>task_state := K_SLEEP\<rparr>) s else s)
          in (RHINO_SUCCESS, RHINO_CRITICAL_EXIT_SCHED cpsr s)
      | K_PEND_SUSPENDED \<Rightarrow>
          let s = upd_task task dec s;
              s = (if suspend_count (tasks s task) = 0
                   then upd_task task (\<lambda>k. k\<lparr>task_state := K_PEND\<rparr>) s else s)
          in (RHINO_SUCCESS, RHINO_CRITICAL_EXIT_SCHED cpsr s)
      | K_SEED \<Rightarrow> (RHINO_INV_TASK_STATE, RHINO_CRITICAL_EXIT cpsr s)
      | K_DELETED \<Rightarrow> (RHINO_INV_TASK_STATE, RHINO_CRITICAL_EXIT cpsr s)
      | _ \<Rightarrow> (RHINO_TASK_NOT_SUSPENDED, RHINO_CRITICAL_EXIT cpsr s))"

definition krhino_task_resume :: "ptr \<Rightarrow> kernel \<Rightarrow> kstat_t \<times> kernel" where
  "krhino_task_resume task s =
     (if task = NULL then (RHINO_NULL_PTR, s) else task_resume task s)"

definition krhino_task_pri_change :: "ptr \<Rightarrow> nat \<Rightarrow> ptr \<Rightarrow> kernel \<Rightarrow> kstat_t \<times> kernel" where
  "krhino_task_pri_change task pri old_pri s =
     (if task = NULL then (RHINO_NULL_PTR, s)
      else if old_pri = NULL then (RHINO_NULL_PTR, s)
      else if prio (tasks s task) \<ge> RHINO_IDLE_PRI then (RHINO_PRI_CHG_NOT_ALLOWED, s)
      else if pri \<ge> RHINO_IDLE_PRI then (RHINO_PRI_CHG_NOT_ALLOWED, s)
      else if task_state (tasks s task) = K_DELETED then (RHINO_INV_TASK_STATE, s)
      else
        let cpsr = irq_off s;
            s = RHINO_CRITICAL_ENTER s in
        if g_intrpt_nested_level s > 0 then (RHINO_NOT_CALLED_BY_INTRPT, RHINO_CRITICAL_EXIT cpsr s)
        else
          let pri_limit = mutex_pri_limit task pri s;
              s = upd_task task (\<lambda>k. k\<lparr>b_prio := pri\<rparr>) s;
              s = set_out old_pri (prio (tasks s task)) s;
              (error, s) = task_pri_change task pri_limit s in
          if error \<noteq> RHINO_SUCCESS then (error, RHINO_CRITICAL_EXIT cpsr s)
          else (RHINO_SUCCESS, RHINO_CRITICAL_EXIT_SCHED cpsr s))"

definition krhino_task_wait_abort :: "ptr \<Rightarrow> kernel \<Rightarrow> kstat_t \<times> kernel" where
  "krhino_task_wait_abort task s =
     (if task = NULL then (RHINO_NULL_PTR, s)
      else
        let cpsr = irq_off s;
            s = RHINO_CRITICAL_ENTER s in
        if g_intrpt_nested_level s > 0 then (RHINO_NOT_CALLED_BY_INTRPT, RHINO_CRITICAL_EXIT cpsr s)
        else
          let sleep = (\<lambda>s.
                let s = tick_list_rm task s;
                    s = ready_list_add task s
                in upd_task task (\<lambda>k. k\<lparr>task_state := K_RDY, blk_state := BLK_ABORT\<rparr>) s);
              pend = (\<lambda>s.
                let s = tick_list_rm task s;
                    s = task_list_rm task s;
                    s = ready_list_add task s;
                    s = upd_task task (\<lambda>k. k\<lparr>task_state := K_RDY, blk_state := BLK_ABORT\<rparr>) s;
                    s = mutex_task_pri_reset task s
                in upd_task task (\<lambda>k. k\<lparr>blk_obj := NULL\<rparr>) s) in
          (case task_state (tasks s task) of
             K_RDY \<Rightarrow> (RHINO_SUCCESS, RHINO_CRITICAL_EXIT_SCHED cpsr s)
           | K_SUSPENDED \<Rightarrow>
               let s = upd_task task (\<lambda>k. k\<lparr>task_state := K_RDY\<rparr>) s;
                   s = ready_list_add task s
               in (RHINO_SUCCESS, RHINO_CRITICAL_EXIT_SCHED cpsr s)
           | K_SLEEP \<Rightarrow> (RHINO_SUCCESS, RHINO_CRITICAL_EXIT_SCHED cpsr (sleep s))
           | K_SLEEP_SUSPENDED \<Rightarrow> (RHINO_SUCCESS, RHINO_CRITICAL_EXIT_SCHED cpsr (sleep s))
           | K_PEND_SUSPENDED \<Rightarrow> (RHINO_SUCCESS, RHINO_CRITICAL_EXIT_SCHED cpsr (pend s))
           | K_PEND \<Rightarrow> (RHINO_SUCCESS, RHINO_CRITICAL_EXIT_SCHED cpsr (pend s))
           | _ \<Rightarrow> (RHINO_INV_TASK_STATE, RHINO_CRITICAL_EXIT cpsr s)))"

text \<open>
  The mutexes of a deleted task go to their first waiting tasks. The loop reads the next
  mutex before it changes the link, so it follows the list as it was. The nesting counter
  of a mutex that changes hands is not written.
\<close>

definition task_mutex_free_one :: "ptr \<Rightarrow> kernel \<Rightarrow> kernel" where
  "task_mutex_free_one mutex s =
     (case blk_list (blks s mutex) of
        next_task # _ \<Rightarrow>
          let s = pend_task_wakeup next_task s;
              s = upd_mutex mutex (\<lambda>m. m\<lparr>mutex_task := next_task\<rparr>) s
          in upd_task next_task (\<lambda>k. k\<lparr>mutex_list := mutex # mutex_list k\<rparr>) s
      | [] \<Rightarrow> upd_mutex mutex (\<lambda>m. m\<lparr>mutex_task := NULL\<rparr>) s)"

definition task_mutex_free :: "ptr \<Rightarrow> kernel \<Rightarrow> kernel" where
  "task_mutex_free task s = fold task_mutex_free_one (mutex_list (tasks s task)) s"

text \<open>
  Deletion. The branch for the idle priority returns without leaving the critical section,
  as the code does.
\<close>

definition krhino_task_del :: "ptr \<Rightarrow> kernel \<Rightarrow> kstat_t \<times> kernel" where
  "krhino_task_del task s =
     (let cpsr = irq_off s;
          s = RHINO_CRITICAL_ENTER s in
      if g_intrpt_nested_level s > 0 then (RHINO_NOT_CALLED_BY_INTRPT, RHINO_CRITICAL_EXIT cpsr s)
      else
        let task = (if task = NULL then g_active_task s else task) in
        if prio (tasks s task) = RHINO_IDLE_PRI then (RHINO_TASK_DEL_NOT_ALLOWED, s)
        else if mm_alloc_flag (tasks s task) \<noteq> K_OBJ_STATIC_ALLOC
        then (RHINO_KOBJ_DEL_ERR, RHINO_CRITICAL_EXIT cpsr s)
        else if task = g_active_task s \<and> g_sched_lock s > 0
        then (RHINO_SCHED_DISABLE, RHINO_CRITICAL_EXIT cpsr s)
        else
          let s = task_mutex_free task s;
              finish = (\<lambda>s.
                let s = upd_kobj (\<lambda>g. g\<lparr>task_head := remove1 task (task_head g)\<rparr>) s
                in (RHINO_SUCCESS, RHINO_CRITICAL_EXIT_SCHED cpsr s));
              deleted = upd_task task (\<lambda>k. k\<lparr>task_state := K_DELETED\<rparr>) in
          (case task_state (tasks s task) of
             K_RDY \<Rightarrow> finish (deleted (ready_list_rm task s))
           | K_SUSPENDED \<Rightarrow> finish (deleted s)
           | K_SLEEP \<Rightarrow> finish (deleted (tick_list_rm task s))
           | K_SLEEP_SUSPENDED \<Rightarrow> finish (deleted (tick_list_rm task s))
           | K_PEND \<Rightarrow>
               finish (mutex_task_pri_reset task (deleted (task_list_rm task (tick_list_rm task s))))
           | K_PEND_SUSPENDED \<Rightarrow>
               finish (mutex_task_pri_reset task (deleted (task_list_rm task (tick_list_rm task s))))
           | _ \<Rightarrow> (RHINO_INV_TASK_STATE, RHINO_CRITICAL_EXIT cpsr s)))"

definition krhino_task_time_slice_set :: "ptr \<Rightarrow> size_t \<Rightarrow> kernel \<Rightarrow> kstat_t \<times> kernel" where
  "krhino_task_time_slice_set task ticks s =
     (if task = NULL then (RHINO_NULL_PTR, s)
      else
        let cpsr = irq_off s;
            s = RHINO_CRITICAL_ENTER s in
        if g_intrpt_nested_level s > 0 then (RHINO_NOT_CALLED_BY_INTRPT, RHINO_CRITICAL_EXIT cpsr s)
        else
          let total = (if ticks > 0 then ticks else RHINO_CONFIG_TIME_SLICE_DEFAULT);
              s = upd_task task (\<lambda>k. k\<lparr>time_total := total, time_slice_cnt := total\<rparr>) s
          in (RHINO_SUCCESS, RHINO_CRITICAL_EXIT cpsr s))"

text \<open>A policy argument that is neither of the two constants is \<open>None\<close>.\<close>

definition krhino_sched_policy_set :: "ptr \<Rightarrow> sched_policy_t option \<Rightarrow> kernel \<Rightarrow> kstat_t \<times> kernel" where
  "krhino_sched_policy_set task policy s =
     (if task = NULL then (RHINO_NULL_PTR, s)
      else case policy of
        None \<Rightarrow> (RHINO_INV_SCHED_WAY, s)
      | Some pol \<Rightarrow>
          let cpsr = irq_off s;
              s = RHINO_CRITICAL_ENTER s in
          if g_intrpt_nested_level s > 0 then (RHINO_NOT_CALLED_BY_INTRPT, RHINO_CRITICAL_EXIT cpsr s)
          else (RHINO_SUCCESS,
                RHINO_CRITICAL_EXIT cpsr (upd_task task (\<lambda>k. k\<lparr>sched_policy := pol\<rparr>) s)))"

definition krhino_sched_policy_get :: "ptr \<Rightarrow> ptr \<Rightarrow> kernel \<Rightarrow> kstat_t \<times> kernel" where
  "krhino_sched_policy_get task policy s =
     (if task = NULL then (RHINO_NULL_PTR, s)
      else if policy = NULL then (RHINO_NULL_PTR, s)
      else
        let cpsr = irq_off s;
            s = RHINO_CRITICAL_ENTER s in
        if g_intrpt_nested_level s > 0 then (RHINO_NOT_CALLED_BY_INTRPT, RHINO_CRITICAL_EXIT cpsr s)
        else
          let v = (case sched_policy (tasks s task) of KSCHED_FIFO \<Rightarrow> 0 | KSCHED_RR \<Rightarrow> 1)
          in (RHINO_SUCCESS, RHINO_CRITICAL_EXIT cpsr (set_out policy v s)))"

definition krhino_task_info_set :: "ptr \<Rightarrow> nat \<Rightarrow> ptr \<Rightarrow> kernel \<Rightarrow> kstat_t \<times> kernel" where
  "krhino_task_info_set task idx info s =
     (if task = NULL then (RHINO_NULL_PTR, s)
      else if idx \<ge> RHINO_CONFIG_TASK_INFO_NUM then (RHINO_INV_PARAM, s)
      else
        let cpsr = irq_off s;
            s = RHINO_CRITICAL_ENTER s;
            s = upd_task task (\<lambda>k. k\<lparr>user_info := (user_info k)[idx := info]\<rparr>) s
        in (RHINO_SUCCESS, RHINO_CRITICAL_EXIT cpsr s))"

definition krhino_task_info_get :: "ptr \<Rightarrow> nat \<Rightarrow> ptr \<Rightarrow> kernel \<Rightarrow> kstat_t \<times> kernel" where
  "krhino_task_info_get task idx info s =
     (if task = NULL then (RHINO_NULL_PTR, s)
      else if info = NULL then (RHINO_NULL_PTR, s)
      else if idx \<ge> RHINO_CONFIG_TASK_INFO_NUM then (RHINO_INV_PARAM, s)
      else (RHINO_SUCCESS, set_out info (unat (user_info (tasks s task) ! idx)) s))"

section \<open>Preliminaries\<close>

lemma active_ready:
  assumes "presched s" and "g_intrpt_nested_level s = 0" and "sysinv s"
  shows "st s (g_active_task s) = K_RDY"
proof (cases "g_sched_lock s > 0")
  case True
  then show ?thesis using assms(1) by (simp add: presched_def presched0_def)
next
  case False
  then have "g_active_task s = best s"
    using sysinvD(3) [OF assms(3)] preschedD(4) [OF assms(1)] assms(2)
    by (auto simp: sched_ok_def callable_def word_neq_0_conv)
  then show ?thesis using best_ready(3) [OF kinvD(1) [OF preschedD(1) [OF assms(1)]]] by simp
qed

text \<open>A ready task leaves the ready queue for good.\<close>

lemma leave_goes:
  assumes c: "core_ok s" and t: "st s t = K_RDY" "t \<noteq> g_idle_task s"
    and sa: "g_ready_queue sa = g_ready_queue s" "ub sa = ub s" "pr sa t = pr s t"
    and s': "g_ready_queue s' = g_ready_queue (ready_list_rm t sa)" "ub s' = ub (ready_list_rm t sa)"
    and "env s' = env s" "mutexes s' = mutexes s" "k_errs s' = k_errs s"
    and "tasks s' = (tasks s)(t := k)" "same_links (tasks s t) k" "task_state k = x" "\<not> tick_head k"
    and "x \<in> {K_SUSPENDED, K_DELETED}" "x = K_SUSPENDED \<longrightarrow> 0 < suspend_count k"
    and "blks s' = blks s" "g_tick_head s' = g_tick_head s"
  shows "goes t x s s'"
proof -
  have "ready_placed t False (pr sa t) sa (ready_list_rm t sa)"
    by (rule ready_rm_placed [OF c sa(1,3) t])
  then have "ready_placed t False (pr s t) s s'"
    using sa s' by (simp add: ready_placed_def)
  moreover have "remove1 t (g_tick_head s) = g_tick_head s"
    using ready_not_listed [OF c t(1)] by (simp add: remove1_idem)
  moreover have "(\<lambda>b. (blks s b)\<lparr>blk_list := remove1 t (bl s b)\<rparr>) = blks s"
    using t(1) by (intro blks_not_pended [OF core_okD(3) [OF c]]) simp
  ultimately show ?thesis using assms by (auto simp: goes_def)
qed

text \<open>A ready ring may be turned.\<close>

lemma kinv_turn:
  assumes k: "kinv s" and r: "rq_ok rq" "\<And>p. distinct (cur_list_item rq p)"
    "\<And>p. set (cur_list_item rq p) = set (ring s p)"
  shows "kinv (s\<lparr>g_ready_queue := rq\<rparr>)"
proof -
  let ?s = "s\<lparr>g_ready_queue := rq\<rparr>"
  have "ready_ok ?s" using core_okD(2) [OF kinvD(1) [OF k]] r(2,3) by (simp add: ready_ok_def)
  then show ?thesis
    using k r(1) by (simp add: kinv_def core_ok_def) (simp add: blk_ok_def tick_ok_def task_ok_def
        idle_ok_def remain_fun mutex_ok_def is_mutex_def pi_ok_def need_is_def waiters_def)
qed

lemma head_to_tail_presched:
  assumes p: "presched s" and n: "ring s (pr s t) \<noteq> []"
  shows "presched (ready_list_head_to_tail t s)"
proof -
  have k: "kinv s" by (rule preschedD(1) [OF p])
  note rq = core_okD(1) [OF kinvD(1) [OF k]]
  note e = ready_list_head_to_tail_effect [OF rq n]
  define rq' where "rq' = g_ready_queue (ready_list_head_to_tail t s)"
  have r: "ready_list_head_to_tail t s = s\<lparr>g_ready_queue := rq'\<rparr>"
    using n by (simp add: rq'_def ready_list_head_to_tail_def Let_def upd_rq_def)
  have "kinv (s\<lparr>g_ready_queue := rq'\<rparr>)"
    using core_okD(2) [OF kinvD(1) [OF k]] e by (intro kinv_turn [OF k]) (auto simp: rq'_def ready_ok_def)
  then show ?thesis
    using p unfolding r by (simp add: presched_def presched0_def no_fatal_def callable_def tick_pos_def remain_fun)
qed

section \<open>Sleeping, yielding, suspending and resuming\<close>

lemma krhino_task_yield_sysinv:
  assumes i: "sysinv s" "callable s" and "g_intrpt_nested_level s = 0"
  shows "sysinv (snd (krhino_task_yield s))"
proof -
  have p: "presched s" by (rule sysinv_presched [OF i])
  have "g_active_task s \<in> set (ring s (pr s (g_active_task s)))"
    using active_ready [OF p assms(3) i(1)] in_ring_iff [OF core_okD(2) [OF kinvD(1) [OF preschedD(1) [OF p]]]]
    by simp
  then have "ring s (pr s (g_active_task s)) \<noteq> []" by auto
  then have "presched (ready_list_head_to_tail (g_active_task s) (RHINO_CRITICAL_ENTER s))"
    using p by (intro head_to_tail_presched) simp_all
  then show ?thesis by (simp add: krhino_task_yield_def Let_def exit_sched_sysinv)
qed

lemma sleep_waits:
  assumes c: "core_ok s" and t: "st s t = K_RDY" "t \<noteq> g_idle_task s" and ticks: "0 < ticks"
  shows "waits t K_SLEEP NULL ticks s
    (ready_list_rm t (tick_list_insert t ticks (upd_task t (\<lambda>k. k\<lparr>task_state := K_SLEEP\<rparr>) s)))"
proof -
  define sa where "sa = upd_task t (\<lambda>k. k\<lparr>task_state := K_SLEEP\<rparr>) s"
  define sb where "sb = tick_list_insert t ticks sa"
  have nt: "t \<notin> set (g_tick_head sa)"
    using ready_not_listed [OF c t(1)] by (simp add: sa_def)
  have rs: "remain sa = remain s" by (simp add: sa_def remain_fun fun_eq_iff)
  have "ready_placed t False (pr sb t) sb (ready_list_rm t sb)"
    by (rule ready_rm_placed [OF c _ _ t]) (simp_all add: sb_def sa_def tick_list_insert_effect)
  then have "ready_placed t False (pr s t) s (ready_list_rm t sb)"
    using ticks by (simp add: ready_placed_def sb_def sa_def tick_list_insert_effect)
  moreover have "env (ready_list_rm t sb) = env s"
    by (simp add: sb_def sa_def ready_list_rm_env tick_list_insert_effect upd_task_env)
  moreover have "tasks sb = (tasks s)(t := (tasks s t)\<lparr>task_state := K_SLEEP,
      tick_match := g_tick_count s + ticks, tick_remain := ticks, tick_head := True\<rparr>)"
    using ticks by (simp add: sb_def sa_def tick_list_insert_effect)
  moreover have "g_tick_head sb = insert_before (\<lambda>q. remain s q > ticks) t (g_tick_head s)"
    using ticks tick_list_insert_effect(10) [OF nt, of ticks] by (simp add: sb_def rs) (simp add: sa_def)
  ultimately show ?thesis
    using ticks unfolding sa_def [symmetric] sb_def [symmetric] waits_def
    by (auto simp: same_links_def) (simp_all add: sb_def sa_def tick_list_insert_effect)
qed

lemma krhino_task_sleep_sysinv:
  assumes i: "sysinv s" "callable s" and "g_intrpt_nested_level s = 0 \<Longrightarrow> g_active_task s \<noteq> g_idle_task s"
  shows "sysinv (snd (krhino_task_sleep ticks s))"
proof (cases "ticks = 0 \<or> g_intrpt_nested_level s > 0 \<or> g_sched_lock s > 0")
  case True
  then show ?thesis using i(1) by (auto simp: krhino_task_sleep_def Let_def)
next
  case False
  then have f: "0 < ticks" "g_intrpt_nested_level s = 0" "g_sched_lock s = 0"
    by (auto simp: word_gt_0)
  define sa where "sa = RHINO_CRITICAL_ENTER s"
  have p: "presched sa" and k: "kinv sa" "core_ok sa"
    using sysinv_presched [OF i] preschedD(1) kinvD(1) by (auto simp: sa_def)
  have a: "st sa (g_active_task sa) = K_RDY" "g_active_task sa \<noteq> g_idle_task sa" "g_sched_lock sa = 0"
    using active_ready [OF sysinv_presched [OF i] f(2) i(1)] assms(3) [OF f(2)] f(3) by (simp_all add: sa_def)
  note w = sleep_waits [OF k(2) a(1,2) f(1)]
  have "presched (ready_list_rm (g_active_task sa) (tick_list_insert (g_active_task sa) ticks
     (upd_task (g_active_task sa) (\<lambda>k. k\<lparr>task_state := K_SLEEP\<rparr>) sa)))"
    by (rule waits_presched [OF p waits_kinv [OF k(1) w a(1,2)] w a(1,3)]) simp_all
  then show ?thesis using False
    by (simp add: krhino_task_sleep_def Let_def sa_def exit_sched_sysinv tick_list_insert_effect
        env_sel [OF tick_list_insert_effect(1)])
qed

lemma relabel_presched:
  assumes p: "presched s" and v: "task_view (f (tasks s t)) = task_view (tasks s t)"
    and c: "same_class (task_state (f (tasks s t))) (st s t)"
    and n: "suspended (task_state (f (tasks s t))) \<Longrightarrow> 0 < suspend_count (f (tasks s t))"
    and w: "pend_option (f (tasks s t)) = pend_option (tasks s t)" "pend_flags (f (tasks s t)) = pend_flags (tasks s t)"
  shows "presched (upd_task t f s)"
  using p v c n w by (intro upd_task_presched kinv_upd_task preschedD(1))
    (auto simp: task_view_def same_class_def)

lemma suspend_ready_presched:
  assumes p: "presched s" and t: "st s t = K_RDY" "t \<noteq> g_idle_task s"
    and a: "t = g_active_task s \<Longrightarrow> g_sched_lock s = 0"
  shows "presched (ready_list_rm t (upd_task t (\<lambda>k. k\<lparr>suspend_count := 1, task_state := K_SUSPENDED\<rparr>) s))"
    (is "presched ?s")
proof -
  note k = preschedD(1) [OF p]
  note c = kinvD(1) [OF k]
  have g: "goes t K_SUSPENDED s ?s"
    by (rule leave_goes [OF c t, where sa = "upd_task t (\<lambda>k. k\<lparr>suspend_count := 1, task_state := K_SUSPENDED\<rparr>) s"
          and k = "(tasks s t)\<lparr>suspend_count := 1, task_state := K_SUSPENDED\<rparr>"])
      (simp_all add: ready_list_rm_env upd_task_env same_links_def ready_not_listed [OF c t(1)])
  have k': "kinv ?s" using t by (intro goes_kinv [OF k g]) simp_all
  show ?thesis
    by (rule presched_step [OF p k' goes_tick_pos [OF preschedD(2) [OF p] c g] goes_no_lost [OF preschedD(5) [OF p] g] goesD(1,4,3) [OF g]])
      (use a goesD(10) [OF g, of "g_active_task s"] in auto)
qed

lemma krhino_task_suspend_sysinv:
  assumes i: "sysinv s" "callable s"
  shows "sysinv (snd (krhino_task_suspend t s))"
proof (cases "t = NULL \<or> pr s t = RHINO_IDLE_PRI \<or> t = g_active_task s \<and> g_sched_lock s > 0")
  case True
  then show ?thesis using i by (auto simp: krhino_task_suspend_def task_suspend_def Let_def)
next
  case False
  define sa where "sa = RHINO_CRITICAL_ENTER s"
  have p: "presched sa" using sysinv_presched [OF i] by (simp add: sa_def)
  note k = preschedD(1) [OF p]
  have ti: "t \<noteq> g_idle_task sa"
    using False core_okD(6) [OF kinvD(1) [OF k]] by (auto simp: idle_ok_def sa_def)
  have a: "t = g_active_task sa \<Longrightarrow> g_sched_lock sa = 0" using False by (simp add: sa_def word_gt_0)
  have r: "presched (upd_task t (\<lambda>k. k\<lparr>suspend_count := n, task_state := x\<rparr>) sa)"
    if "same_class x (st s t)" "0 < n" for n x
    using that by (intro relabel_presched [OF p]) (auto simp: task_view_def same_class_def sa_def)
  have r': "presched (upd_task t (\<lambda>k. k\<lparr>suspend_count := cinc M (suspend_count k)\<rparr>) sa)"
    if "suspend_count (tasks s t) \<noteq> M" for M
    using that by (intro relabel_presched [OF p]) (auto simp: task_view_def cinc_def sa_def)
  show ?thesis
    using False i(1) suspend_ready_presched [OF p _ ti a] r [of K_SLEEP_SUSPENDED 1] r [of K_PEND_SUSPENDED 1] r'
    by (auto simp: krhino_task_suspend_def task_suspend_def Let_def sa_def [symmetric] same_class_def
        intro!: exit_sched_sysinv split: task_stat_t.splits) (simp_all add: sa_def)
qed

lemma resume_presched:
  assumes p: "presched s" and t: "st s t = K_SUSPENDED" and k: "same_links (tasks s t) (f (tasks s t))"
    "task_state (f (tasks s t)) = K_RDY" "tick_head (f (tasks s t)) = tick_head (tasks s t)"
  shows "presched (ready_list_add t (upd_task t f s))"
proof -
  note ki = preschedD(1) [OF p]
  note c = kinvD(1) [OF ki]
  have nh: "\<not> tick_head (tasks s t)" using core_okD(4) [OF c] t by (auto simp: tick_ok_def)
  have g: "goes t K_RDY s (ready_list_add t (upd_task t f s))"
    using k t nh
    by (intro ready_goes [OF c, where sa = "upd_task t f s" and k = "f (tasks s t)"])
      (simp_all add: ready_list_add_env upd_task_env same_links_def
        blks_not_pended [OF core_okD(3) [OF c]] tick_list_rm_head [OF core_okD(4) [OF c]])
  have "kinv (ready_list_add t (upd_task t f s))"
    using t not_idle [OF ki, of t] by (intro goes_kinv [OF ki g]) simp_all
  then show ?thesis using t by (intro goes_presched [OF p _ g]) simp_all
qed

lemma krhino_task_resume_sysinv:
  assumes i: "sysinv s" "callable s"
  shows "sysinv (snd (krhino_task_resume t s))"
proof -
  define sa where "sa = RHINO_CRITICAL_ENTER s"
  have p: "presched sa" using sysinv_presched [OF i] by (simp add: sa_def)
  define dec :: "ktask_t \<Rightarrow> ktask_t" where "dec = (\<lambda>k. k\<lparr>suspend_count := cdec (suspend_nested_max (port sa)) (suspend_count k)\<rparr>)"
  have tasks: "tasks sa = tasks s" by (simp add: sa_def)
  have d: "suspend_count (dec k) = cdec (suspend_nested_max (port sa)) (suspend_count k)"
    "task_state (dec k) = task_state k" "task_view (dec k) = task_view k"
    "same_links k (dec k)" "tick_head (dec k) = tick_head k" "blk_obj (dec k) = blk_obj k"
    "pend_option (dec k) = pend_option k" "pend_flags (dec k) = pend_flags k" for k
    by (simp_all add: dec_def task_view_def same_links_def)
  have keep: "presched (upd_task t dec sa)" if "suspend_count (dec (tasks s t)) \<noteq> 0"
    using that by (intro relabel_presched [OF p]) (simp_all add: d tasks)
  have ready: "presched (ready_list_add t (upd_task t (\<lambda>k. k\<lparr>task_state := K_RDY\<rparr>) (upd_task t dec sa)))"
    if "st s t = K_SUSPENDED"
  proof -
    have "presched (ready_list_add t (upd_task t (\<lambda>k. (dec k)\<lparr>task_state := K_RDY\<rparr>) sa))"
      using that d(4) by (intro resume_presched [OF p]) (simp_all add: tasks d same_links_def)
    then show ?thesis by (simp add: upd_task_def)
  qed
  have lbl: "presched (upd_task t (\<lambda>k. k\<lparr>task_state := x\<rparr>) (upd_task t dec sa))"
    if "same_class x (st s t)" "\<not> suspended x" for x
  proof -
    have "presched (upd_task t (\<lambda>k. (dec k)\<lparr>task_state := x\<rparr>) sa)"
      using that d(3) [of "tasks s t"]
      by (intro relabel_presched [OF p]) (simp_all add: tasks d task_view_def same_class_def)
    then show ?thesis by (simp add: upd_task_def)
  qed
  show ?thesis
    using i(1) keep ready lbl [of K_SLEEP] lbl [of K_PEND]
    by (auto simp: krhino_task_resume_def task_resume_def Let_def sa_def [symmetric] dec_def [symmetric]
        same_class_def tasks intro!: exit_sched_sysinv split: task_stat_t.splits) (simp_all add: sa_def)
qed

end
