(* ===== verification/Hand_Over.thy ===== *)
theory Hand_Over
  imports Kernel_Moves
begin

text \<open>
  A mutex leaves its owner: it goes to the first task in its blocking list or becomes free.
  Both \<^verbatim>\<open>krhino_mutex_unlock\<close> and the deletion of a task do this with the mutex still, or no
  longer, in the list of the task that gives it up; \<open>holding t ms s\<close> is the state in which
  that list is \<open>ms\<close>.
\<close>

definition holding :: "ptr \<Rightarrow> ptr list \<Rightarrow> kernel \<Rightarrow> kernel" where
  "holding t ms s = upd_task t (\<lambda>k. k\<lparr>mutex_list := ms\<rparr>) s"

lemma holding_sel [simp]:
  "st (holding t ms s) u = st s u" "pr (holding t ms s) u = pr s u" "bo (holding t ms s) u = bo s u"
  "b_prio (tasks (holding t ms s) u) = b_prio (tasks s u)"
  "held (holding t ms s) u = (if u = t then ms else held s u)"
  "blks (holding t ms s) = blks s" "mutexes (holding t ms s) = mutexes s"
  "is_mutex (holding t ms s) m = is_mutex s m"
  by (simp_all add: holding_def is_mutex_def)

lemma holding_same: "held s t = ms \<Longrightarrow> holding t ms s = s"
  by (rule kernel.equality) (auto simp: holding_def upd_task_def fun_eq_iff intro: ktask_t.equality)

lemma core_ok_mutex_list:
  assumes c: "core_ok s" and "NULL \<notin> set ms" "t \<noteq> g_idle_task s"
  shows "core_ok (holding t ms s)"
proof -
  let ?s = "holding t ms s"
  have r: "remain ?s = remain s" "g_ready_queue ?s = g_ready_queue s" "g_tick_head ?s = g_tick_head s"
    "g_idle_task ?s = g_idle_task s" "g_active_task ?s = g_active_task s"
    "tick_head (tasks ?s u) = tick_head (tasks s u)" "suspend_count (tasks ?s u) = suspend_count (tasks s u)" for u
    by (auto simp: holding_def remain_def fun_eq_iff)
  show ?thesis
    using core_okD [OF c] assms(2,3)
    by (intro core_okI) (simp_all add: ready_ok_def blk_ok_def tick_ok_def task_ok_def idle_ok_def r)
qed

lemma goes_holding:
  assumes "goes n x s s'" and "n \<noteq> t"
  shows "goes n x (holding t ms s) (holding t ms s')"
proof -
  obtain k where k: "tasks s' = (tasks s)(n := k)" "same_links (tasks s n) k" "task_state k = x"
    "\<not> tick_head k" "x = K_SUSPENDED \<longrightarrow> 0 < suspend_count k"
    using assms(1) by (auto simp: goes_def)
  have "tasks (holding t ms s') = (tasks (holding t ms s))(n := k)" "tasks (holding t ms s) n = tasks s n"
    using assms(2) k(1) by (auto simp: holding_def)
  then show ?thesis
    using assms k
    by (auto simp: goes_def ready_placed_def holding_def upd_task_env)
qed

text \<open>A mutex on its way between owners may have a count of nested locks of zero.\<close>

definition nest :: "ptr \<Rightarrow> kernel \<Rightarrow> kernel" where
  "nest m s = upd_mutex m (\<lambda>k. k\<lparr>owner_nested := 1\<rparr>) s"

lemma nest_sel [simp]:
  "tasks (nest m s) = tasks s" "blks (nest m s) = blks s" "owner (nest m s) m' = owner s m'"
  "is_mutex (nest m s) m' = is_mutex s m'"
  "owner_nested (mutexes (nest m s) m') = (if m' = m then 1 else owner_nested (mutexes s m'))"
  by (simp_all add: nest_def is_mutex_def)

lemma goes_nest: "goes n x s s' \<Longrightarrow> goes n x (nest m s) (nest m s')"
  by (auto simp: goes_def ready_placed_def nest_def upd_mutex_env)

lemma mutex_ok_nest:
  assumes "mutex_ok (holding t ms s)"
  shows "mutex_ok (holding t ms (nest m s))"
proof -
  have "nest m (holding t ms s) = holding t ms (nest m s)"
    by (cases s) (simp add: nest_def holding_def upd_task_def upd_mutex_def)
  moreover have "mutex_ok (nest m (holding t ms s))" using assms by (simp add: mutex_ok_def)
  ultimately show ?thesis by simp
qed

text \<open>The task that gets a mutex has at least the priority of those that go on waiting for it.\<close>

definition given :: "ptr \<Rightarrow> (kmutex_t \<Rightarrow> kmutex_t) \<Rightarrow> ptr \<Rightarrow> kernel \<Rightarrow> kernel" where
  "given m f n s = upd_task n (\<lambda>k. k\<lparr>mutex_list := m # mutex_list k\<rparr>) (upd_mutex m f (pend_task_wakeup n s))"

lemma given_holding:
  "given m f n s = holding n (m # held (pend_task_wakeup n s) n) (upd_mutex m f (pend_task_wakeup n s))"
  by (simp add: given_def holding_def upd_task_def)

lemma core_ok_upd_mutex [simp]: "core_ok (upd_mutex m f s) = core_ok s"
  by (simp add: core_ok_def ready_ok_def blk_ok_def tick_ok_def task_ok_def idle_ok_def remain_fun)

lemma given_effect:
  assumes c: "core_ok s" and mu: "mutex_ok (holding t (m # ms) (nest m s))" and e: "pi_except t s"
    and t: "live (st s t)" and m: "m \<noteq> NULL" and n: "bl s m = n # ns"
    and f: "mutex_task (f (mutexes s m)) = n" "0 < owner_nested (f (mutexes s m))"
  defines "s' \<equiv> given m f n s"
  shows "core_ok s'" and "mutex_ok (holding t ms s')" and "pi_except t s'" and "tasks s' t = tasks s t"
    and "n \<noteq> t" and "goes n (woken (st s n)) s (pend_task_wakeup n s)"
proof -
  have im: "is_mutex s m" "owner s m = t" using mutex_okD(1) [OF mu, of t m] t by simp_all
  have n': "pended (st s n)" "bo s n = m" using in_bl_iff [OF core_okD(3) [OF c], of n m] n by simp_all
  show nt: "n \<noteq> t" using mutex_okD(5) [OF mu, of n] n' im by auto
  have ni: "n \<noteq> g_idle_task s" "st s n \<noteq> K_RDY" "live (st s n)"
    using n'(1) core_okD(6) [OF c] pended_live by (auto simp: idle_ok_def)
  show g: "goes n (woken (st s n)) s (pend_task_wakeup n s)" by (rule pend_task_wakeup_goes [OF c n'(1)])
  define s1 where "s1 = pend_task_wakeup n s"
  note g1 = g [folded s1_def]
  note d = goesD [OF g1]
  have c1: "core_ok s1" by (rule goes_core_ok [OF c g1 ni(3,1)])
  have x: "woken (st s n) \<noteq> K_DELETED" by (simp add: woken_def)
  have m1: "mutex_ok (holding t (m # ms) (nest m s1))"
    by (rule goes_mutex_ok [OF mu goes_holding [OF goes_nest [OF g1] nt]]) (simp_all add: ni x)
  have s': "s' = holding n (m # held s n) (upd_mutex m f s1)"
    unfolding s'_def given_holding s1_def [symmetric] by (simp add: d(8))
  show "core_ok s'"
    unfolding s' using c1 m core_okD(5) [OF c] ni(1) env_sel(6) [OF d(1)]
    by (intro core_ok_mutex_list) (simp_all add: task_ok_def)
  show ts: "tasks s' t = tasks s t" unfolding s' using nt d(5) [of t] by (simp add: holding_def)
  have v: "st s' u = st s1 u" "pr s' u = pr s1 u" "bo s' u = bo s1 u" "is_mutex s' m' = is_mutex s1 m'"
    "b_prio (tasks s' u) = b_prio (tasks s1 u)" "blks s' = blks s1"
    "owner s' m' = (if m' = m then n else owner s1 m')"
    "owner_nested (mutexes s' m') = owner_nested (if m' = m then f (mutexes s m) else mutexes s1 m')"
    "held s' u = (if u = n then m # held s n else held s1 u)" for u m'
    unfolding s' using f d(2) by (simp_all add: is_mutex_def)
  have nm: "m \<notin> set (held s n)"
    using mutex_okD(1) [OF mu, of n m] ni(3) nt im(2) by auto
  have live1: "live (st s1 u) = live (st s u)" for u using d(10) [of u] d(15) x ni(3) by auto
  show "mutex_ok (holding t ms s')"
    unfolding mutex_ok_def holding_sel v
  proof (intro conjI allI impI)
    fix u m' assume a: "live (st s1 u) \<and> m' \<in> set (if u = t then ms else if u = n then m # held s n else held s1 u)"
    have dt: "m \<notin> set ms" using mutex_okD(3) [OF m1, of t] t live1 by simp
    show "is_mutex s1 m'" "(if m' = m then n else owner s1 m') = u"
      using a mutex_okD(1) [OF m1, of u m'] mutex_okD(1) [OF m1, of t m] mutex_okD(1) [OF m1, of n m'] dt nm nt t live1 d(8)
        im is_mutex_goes [OF g1]
      by (auto split: if_splits)
  next
    fix m' assume a: "is_mutex s1 m' \<and> (if m' = m then n else owner s1 m') \<noteq> NULL"
    show "live (st s1 (if m' = m then n else owner s1 m'))"
      "m' \<in> set (if (if m' = m then n else owner s1 m') = t then ms
         else if (if m' = m then n else owner s1 m') = n then m # held s n
         else held s1 (if m' = m then n else owner s1 m'))"
      "0 < owner_nested (if m' = m then f (mutexes s m) else mutexes s1 m')"
      using a mutex_okD(2) [OF m1, of m'] f(2) nt ni(3) live1 d(8) by (auto split: if_splits)
  next
    fix u assume a: "live (st s1 u)"
    show "distinct (if u = t then ms else if u = n then m # held s n else held s1 u)"
      using mutex_okD(3) [OF m1, of u] a nm nt d(8) by (auto split: if_splits)
  next
    fix m' assume "is_mutex s1 m'"
    then show "blk_policy (blks s1 m') = BLK_POLICY_PRI" using mutex_okD(4) [OF m1, of m'] by simp
  next
    fix u assume a: "pended (st s1 u) \<and> is_mutex s1 (bo s1 u)"
    then have "u \<noteq> n" using d(10,14) by (auto split: if_splits)
    with a show "(if bo s1 u = m then n else owner s1 (bo s1 u)) \<noteq> NULL"
      "(if bo s1 u = m then n else owner s1 (bo s1 u)) \<noteq> u"
      using mutex_okD(5) [OF m1, of u] core_okD(5) [OF c] ni(3) by (auto simp: task_ok_def)
  qed
  have w1: "waiters s1 u = waiters s u" if "live (st s u)" "u \<noteq> t" for u
  proof -
    have "n \<notin> waiters s u"
      using mutex_okD(1) [OF mu, of u m] that im(2) n' by (auto simp: waiters_def)
    then show ?thesis using goes_waiters [OF g1, of u] by simp
  qed
  have pri: "blk_policy (blks s m) = BLK_POLICY_PRI" using mutex_okD(4) [OF mu, of m] im by simp
  have wn: "waiters s' u = waiters s1 u \<union> (if u = n then set (bl s1 m) else {})" for u
    using in_bl_iff [OF core_okD(3) [OF c1], of _ m] by (auto simp: waiters_def v d(8))
  have least: "pr s n \<le> pr s w" if "w \<in> set (bl s1 m)" for w
    using that hd_waiter_least [OF c pri, of w] n d(13) [of m] by (auto dest: notin_set_remove1)
  show "pi_except t s'"
    unfolding pi_except_def
  proof (intro allI impI)
    fix u assume u: "live (st s' u) \<and> u \<noteq> t"
    then have "live (st s u)" by (simp add: v live1)
    with e u have "need_is Map.empty s u (pr s u)" by (simp add: pi_except_def)
    then show "need_is Map.empty s' u (pr s' u)"
      using least w1 [OF \<open>live (st s u)\<close>] u
      by (auto simp: need_is_def v wn d(6,7) split: if_splits)
  qed
qed

lemma freed_effect:
  assumes c: "core_ok s" and mu: "mutex_ok (holding t (m # ms) (nest m s))" and e: "pi_except t s"
    and t: "live (st s t)" and n: "bl s m = []" and f: "mutex_task (f (mutexes s m)) = NULL"
  defines "s' \<equiv> upd_mutex m f s"
  shows "core_ok s'" and "mutex_ok (holding t ms s')" and "pi_except t s'" and "tasks s' t = tasks s t"
proof -
  have im: "is_mutex s m" "owner s m = t" using mutex_okD(1) [OF mu, of t m] t by simp_all
  have tn: "t \<noteq> NULL" using core_okD(5) [OF c] t by (auto simp: task_ok_def)
  show "core_ok s'" "tasks s' t = tasks s t" using c by (simp_all add: s'_def)
  have v: "tasks s' = tasks s" "is_mutex s' m' = is_mutex s m'" "blks s' = blks s"
    "mutexes s' = (mutexes s)(m := f (mutexes s m))" for m'
    by (simp_all add: s'_def is_mutex_def)
  show "pi_except t s'" using e by (simp add: pi_except_def need_is_def waiters_def v)
  have nb: "pended (st s u) \<Longrightarrow> bo s u \<noteq> m" for u
    using in_bl_iff [OF core_okD(3) [OF c], of u m] n by auto
  show "mutex_ok (holding t ms s')"
    unfolding mutex_ok_def holding_sel v
  proof (intro conjI allI impI)
    fix u m' assume a: "live (st s u) \<and> m' \<in> set (if u = t then ms else held s u)"
    then show "is_mutex s m'" "mutex_task (((mutexes s)(m := f (mutexes s m))) m') = u"
      using mutex_okD(1) [OF mu, of u m'] mutex_okD(3) [OF mu, of t] t im by (auto split: if_splits)
  next
    fix m' assume a: "is_mutex s m' \<and> mutex_task (((mutexes s)(m := f (mutexes s m))) m') \<noteq> NULL"
    then show "live (st s (mutex_task (((mutexes s)(m := f (mutexes s m))) m')))"
      "m' \<in> set (if mutex_task (((mutexes s)(m := f (mutexes s m))) m') = t then ms
         else held s (mutex_task (((mutexes s)(m := f (mutexes s m))) m')))"
      "0 < owner_nested (((mutexes s)(m := f (mutexes s m))) m')"
      using mutex_okD(2) [OF mu, of m'] f by (auto split: if_splits)
  next
    fix u assume "live (st s u)"
    then show "distinct (if u = t then ms else held s u)"
      using mutex_okD(3) [OF mu, of u] by (auto split: if_splits)
  next
    fix m' assume "is_mutex s m'"
    then show "blk_policy (blks s m') = BLK_POLICY_PRI" using mutex_okD(4) [OF mu, of m'] by simp
  next
    fix u assume "pended (st s u) \<and> is_mutex s (bo s u)"
    then show "mutex_task (((mutexes s)(m := f (mutexes s m))) (bo s u)) \<noteq> NULL"
      "mutex_task (((mutexes s)(m := f (mutexes s m))) (bo s u)) \<noteq> u"
      using mutex_okD(5) [OF mu, of u] nb by auto
  qed
qed

end
