(* ===== verification/Task_Inv.thy ===== *)
theory Task_Inv
  imports Task Hand_Over
begin

text \<open>
  Aborting a wait, changing a base priority, creating and deleting a task keep the
  invariant of the running system.
\<close>

section \<open>Aborting a wait\<close>

definition pend_aborted :: "ptr \<Rightarrow> kernel \<Rightarrow> kernel" where
  "pend_aborted t s = upd_task t (\<lambda>k. k\<lparr>task_state := K_RDY, blk_state := BLK_ABORT\<rparr>)
     (ready_list_add t (task_list_rm t (tick_list_rm t s)))"

lemma pend_aborted_goes:
  assumes c: "core_ok s" and t: "pended (st s t)"
  shows "goes t K_RDY s (pend_aborted t s)" and "bo (pend_aborted t s) t = bo s t"
  using t pended_live [OF t]
  by (auto simp: pend_aborted_def upd_task_env tick_list_rm_env ready_list_add_env
      task_list_rm_env blks_task_list_rm tick_list_rm_head [OF core_okD(4) [OF c]] same_links_def
      intro!: ready_goes [OF c, where sa = "task_list_rm t (tick_list_rm t s)" and
        k = "(tasks s t)\<lparr>tick_head := False, task_state := K_RDY, blk_state := BLK_ABORT\<rparr>"])

lemma sleep_abort_goes:
  assumes c: "core_ok s" and t: "sleeping (st s t)"
  shows "goes t K_RDY s (upd_task t (\<lambda>k. k\<lparr>task_state := K_RDY, blk_state := BLK_ABORT\<rparr>)
    (ready_list_add t (tick_list_rm t s)))"
proof -
  have x: "live (st s t)" "st s t \<noteq> K_RDY" "\<not> pended (st s t)"
    using t by (auto simp: sleeping_def)
  then show ?thesis
    by (intro ready_goes [OF c, where sa = "tick_list_rm t s" and
          k = "(tasks s t)\<lparr>tick_head := False, task_state := K_RDY, blk_state := BLK_ABORT\<rparr>"])
      (simp_all add: upd_task_env tick_list_rm_env ready_list_add_env
        blks_not_pended [OF core_okD(3) [OF c]] tick_list_rm_head [OF core_okD(4) [OF c]] same_links_def)
qed

lemma krhino_task_wait_abort_sysinv:
  assumes i: "sysinv s" "callable s"
  shows "sysinv (snd (krhino_task_wait_abort t s))"
proof -
  define sa where "sa = RHINO_CRITICAL_ENTER s"
  have p: "presched sa" and tasks: "tasks sa = tasks s"
    using sysinv_presched [OF i] by (simp_all add: sa_def)
  note k = preschedD(1) [OF p]
  note c = kinvD(1) [OF k]
  have pend: "presched (upd_task t (\<lambda>k. k\<lparr>blk_obj := NULL\<rparr>) (mutex_task_pri_reset t (pend_aborted t sa)))"
    if "pended (st s t)"
  proof -
    have t: "pended (st sa t)" "st sa t \<noteq> K_RDY" using that by (auto simp: tasks)
    note g = pend_aborted_goes [OF c t(1)]
    note u = unblock_kinv [OF k t(1) g(1) _ g(2)]
    show ?thesis using u(3) [OF _ preschedD(2) [OF p]] by (intro unblocks_presched [OF p u(1) _ u(2) t(2)]) simp_all
  qed
  have sleep: "presched (upd_task t (\<lambda>k. k\<lparr>task_state := K_RDY, blk_state := BLK_ABORT\<rparr>)
    (ready_list_add t (tick_list_rm t sa)))" if "sleeping (st s t)"
  proof -
    have t: "sleeping (st sa t)" using that by (simp add: tasks)
    then have x: "live (st sa t)" "st sa t \<noteq> K_RDY" "\<not> pended (st sa t)" by (auto simp: sleeping_def)
    note g = sleep_abort_goes [OF c t]
    show ?thesis
      using x by (intro goes_presched [OF p goes_kinv [OF k g] g] not_idle [OF k]) simp_all
  qed
  have susp: "presched (ready_list_add t (upd_task t (\<lambda>k. k\<lparr>task_state := K_RDY\<rparr>) sa))"
    if "st s t = K_SUSPENDED"
    using that by (intro resume_presched [OF p]) (simp_all add: tasks same_links_def)
  show ?thesis
    using i(1) p pend sleep susp
    by (auto simp: krhino_task_wait_abort_def Let_def sa_def [symmetric] pend_aborted_def tasks
        intro!: exit_sched_sysinv split: task_stat_t.splits) (simp_all add: sa_def)
qed

section \<open>Changing the base priority\<close>

lemma set_out_env_sel [simp]:
  "tasks (set_out p v s) = tasks s" "blks (set_out p v s) = blks s" "mutexes (set_out p v s) = mutexes s"
  "g_idle_task (set_out p v s) = g_idle_task s" "g_active_task (set_out p v s) = g_active_task s"
  "kinv (set_out p v s) = kinv s" "presched (set_out p v s) = presched s" "sysinv (set_out p v s) = sysinv s"
  by (simp_all add: set_out_def presched_def presched0_def sysinv_def sched_ok_def best_def no_fatal_def callable_def)

lemma set_out_inv [simp]:
  "core_ok (set_out p v s) = core_ok s" "mutex_ok (set_out p v s) = mutex_ok s"
  "pi_except t (set_out p v s) = pi_except t s"
  by (simp_all add: set_out_def core_ok_def ready_ok_def blk_ok_def tick_ok_def task_ok_def idle_ok_def
      remain_fun mutex_ok_def is_mutex_def pi_except_def need_is_def waiters_def)

lemma limit_loop_look:
  "NULL \<notin> set ms \<Longrightarrow> mutex_pri_limit_loop s ms pri hp = mutex_pri_look_loop s NULL ms pri hp"
  by (induction s ms pri hp rule: mutex_pri_limit_loop.induct) (auto simp: Let_def)

lemma look_loop_cong:
  "blks s' = blks s \<Longrightarrow> (\<And>t. pr s' t = pr s t) \<Longrightarrow>
   mutex_pri_look_loop s' rel ms pri hp = mutex_pri_look_loop s rel ms pri hp"
  by (induction s rel ms pri hp rule: mutex_pri_look_loop.induct) (auto simp: Let_def)

text \<open>
  \<^verbatim>\<open>mutex_pri_limit\<close> computes the priority the task is to have once its base priority is
  the new one.
\<close>

lemma mutex_pri_limit_look:
  assumes "task_ok s"
  shows "mutex_pri_limit t p s = fst (mutex_pri_look t NULL (upd_task t (\<lambda>k. k\<lparr>b_prio := p\<rparr>) s))"
  using assms by (simp add: mutex_pri_limit_def mutex_pri_look_def Let_def task_ok_def limit_loop_look
      look_loop_cong [of "upd_task t _ s" s])

lemma b_prio_ok:
  assumes k: "kinv s" and p: "p < RHINO_IDLE_PRI" and t: "t \<noteq> g_idle_task s"
  defines "s' \<equiv> upd_task t (\<lambda>k. k\<lparr>b_prio := p\<rparr>) s"
  shows "core_ok s'" and "mutex_ok s'" and "pi_except t s'"
proof -
  have c: "core_ok s" "mutex_ok s" "pi_ok s" using k by (simp_all add: kinv_def)
  have v: "st s' u = st s u" "pr s' u = pr s u" "bo s' u = bo s u" "held s' u = held s u"
    "tick_head (tasks s' u) = tick_head (tasks s u)" "remain s' u = remain s u" for u
    by (simp_all add: s'_def remain_def)
  have v': "b_prio (tasks s' u) = (if u = t then p else b_prio (tasks s u))"
    "suspend_count (tasks s' u) = suspend_count (tasks s u)" for u
    by (simp_all add: s'_def)
  have r: "remain s' = remain s" "blks s' = blks s" "g_ready_queue s' = g_ready_queue s"
    "g_tick_head s' = g_tick_head s" "g_idle_task s' = g_idle_task s" "g_active_task s' = g_active_task s"
    "mutexes s' = mutexes s"
    using v by (auto simp: fun_eq_iff) (simp_all add: s'_def)
  show "core_ok s'"
    using core_okD [OF c(1)] p t
    by (intro core_okI) (simp_all add: ready_ok_def blk_ok_def tick_ok_def task_ok_def idle_ok_def v v' r)
  show "mutex_ok s'" using c(2) unfolding mutex_ok_def is_mutex_def v r .
  show "pi_except t s'"
    using c(3) need_is_cong [of s' _ s] by (simp add: pi_ok_def pi_except_def v v' r waiters_def)
qed

lemma pi_except_but: "pi_except t s \<Longrightarrow> need_is Map.empty s t p \<Longrightarrow> pi_but Map.empty s t p"
  by (simp add: pi_except_def pi_but_def)

lemma task_pri_change_kinv:
  assumes c: "core_ok s" "mutex_ok s" "pi_except t s" and t: "live (st s t)" "t \<noteq> g_idle_task s"
    and p: "p = fst (mutex_pri_look t NULL s)"
  shows "kinv (snd (task_pri_change t p s))" "pri_only s (snd (task_pri_change t p s))"
    "fst (task_pri_change t p s) = RHINO_SUCCESS"
proof -
  have b: "p < RHINO_CONFIG_PRI_MAX" unfolding p by (rule mutex_pri_look_bound [OF c(1) t(1)])
  note r = task_pri_change_core [OF c(1) mutex_ok_owners_ok [OF c(2,1)] t b]
  have "need_is Map.empty s t p" unfolding p by (rule look_need_NULL [OF c(1,2) t(1)])
  then have "pi_ok (snd (task_pri_change t p s))"
    using task_pri_change_pi [OF c(1,2) t b pi_except_but [OF c(3)]] by (simp add: pi_ok_pi_all)
  then show "kinv (snd (task_pri_change t p s))" "pri_only s (snd (task_pri_change t p s))"
    "fst (task_pri_change t p s) = RHINO_SUCCESS"
    using r mutex_ok_pri_only [OF _ c(2)] by (auto intro: kinvI)
qed

lemma pri_change_steps:
  fixes old :: ptr
  assumes pa: "presched s" and l: "live (st s t)" and p: "pr s t < RHINO_IDLE_PRI" "p < RHINO_IDLE_PRI"
  defines "sb \<equiv> set_out old (pr s t) (upd_task t (\<lambda>k. k\<lparr>b_prio := p\<rparr>) s)"
  defines "r \<equiv> task_pri_change t (mutex_pri_limit t p s) sb"
  shows "fst r = RHINO_SUCCESS" and "pri_only sb (snd r)" and "presched (snd r)"
proof -
  note k = preschedD(1) [OF pa]
  have ti: "t \<noteq> g_idle_task s" using p(1) core_okD(6) [OF kinvD(1) [OF k]] by (auto simp: idle_ok_def)
  have b: "core_ok sb" "mutex_ok sb" "pi_except t sb" using b_prio_ok [OF k p(2) ti] by (simp_all add: sb_def)
  have lim: "mutex_pri_limit t p s = fst (mutex_pri_look t NULL sb)"
    unfolding mutex_pri_limit_look [OF core_okD(5) [OF kinvD(1) [OF k]]]
    by (simp add: sb_def mutex_pri_look_def Let_def look_loop_cong [of "set_out _ _ _" s] look_loop_cong [of "upd_task _ _ _" s])
  have e: "env sb = env (set_out old (pr s t) s)" "tasks sb = (tasks s)(t := (tasks s t)\<lparr>b_prio := p\<rparr>)"
    "g_tick_head sb = g_tick_head s" "ub sb = ub s" "k_errs sb = k_errs s"
    by (simp_all add: sb_def set_out_def env_def)
  have "st sb t = st s t" "g_idle_task sb = g_idle_task s" by (simp_all add: e) (simp add: sb_def)
  then have c: "kinv (snd r)" "pri_only sb (snd r)" "fst r = RHINO_SUCCESS"
    using task_pri_change_kinv [OF _ _ _ _ _ lim] b l ti by (auto simp: r_def)
  then show "fst r = RHINO_SUCCESS" "pri_only sb (snd r)" by simp_all
  show "presched (snd r)"
  proof (rule presched_step [of "set_out old (pr s t) s"])
    show "tick_pos (snd r)"
      by (rule pri_only_tick_pos [OF tick_pos_cong [OF preschedD(2) [OF pa]] c(2)])
        (simp_all add: e env_sel(7) [OF e(1)], simp add: set_out_def)
    have "no_lost (upd_task t (\<lambda>k. k\<lparr>b_prio := p\<rparr>) s)"
      by (rule upd_task_no_lost [OF preschedD(5) [OF pa]]) simp
    then have "no_lost sb" unfolding sb_def
      by (subst no_lost_same [of _ "upd_task t (\<lambda>k. k\<lparr>b_prio := p\<rparr>) s"]) (simp_all add: set_out_def)
    then show "no_lost (snd r)" by (rule pri_only_no_lost [OF _ c(2)])
  qed (use pa c(1) pri_only_env [OF c(2)] pri_only_task [OF c(2)] in \<open>simp_all add: e\<close>,
      auto simp: set_out_def)
qed

lemma pri_change_call:
  assumes "t \<noteq> NULL" "old \<noteq> NULL" "g_intrpt_nested_level s = 0" "live (st s t)" "pr s t < RHINO_IDLE_PRI" "p < RHINO_IDLE_PRI"
    and "presched s"
  defines "sa \<equiv> RHINO_CRITICAL_ENTER s"
  shows "krhino_task_pri_change t p old s = (RHINO_SUCCESS, RHINO_CRITICAL_EXIT_SCHED (irq_off s)
    (snd (task_pri_change t (mutex_pri_limit t p sa) (set_out old (pr s t) (upd_task t (\<lambda>k. k\<lparr>b_prio := p\<rparr>) sa)))))"
proof -
  have "st s t \<noteq> K_DELETED" using assms(4) by auto
  moreover have "fst (task_pri_change t (mutex_pri_limit t p sa) (set_out old (pr s t) (upd_task t (\<lambda>k. k\<lparr>b_prio := p\<rparr>) sa))) = RHINO_SUCCESS"
    using pri_change_steps(1) [of sa t p old] assms(4-7) by (simp add: sa_def)
  ultimately show ?thesis
    using assms(1-6) by (simp add: krhino_task_pri_change_def Let_def sa_def case_prod_beta)
qed

lemma krhino_task_pri_change_sysinv:
  assumes i: "sysinv s" "callable s" and t: "live (st s t) \<or> st s t = K_DELETED \<or> t = NULL"
  shows "sysinv (snd (krhino_task_pri_change t p old s))"
proof (cases "t = NULL \<or> old = NULL \<or> pr s t \<ge> RHINO_IDLE_PRI \<or> p \<ge> RHINO_IDLE_PRI \<or> st s t = K_DELETED
    \<or> g_intrpt_nested_level s > 0")
  case True
  then show ?thesis using i(1) by (auto simp: krhino_task_pri_change_def Let_def)
next
  case False
  have p: "presched s" "presched (RHINO_CRITICAL_ENTER s)" using sysinv_presched [OF i] by simp_all
  have f: "live (st s t)" "pr s t < RHINO_IDLE_PRI" "p < RHINO_IDLE_PRI" "g_intrpt_nested_level s = 0"
    using t False by (auto simp: word_gt_0)
  show ?thesis
    using pri_change_call [of t old s p] pri_change_steps(3) [OF p(2), of t p old] p(1) f False
    by (simp add: exit_sched_sysinv)
qed

section \<open>Creating a task\<close>

lemma dead_not_listed:
  assumes k: "kinv s" and t: "\<not> live (st s t)"
  shows "t \<notin> set (g_tick_head s)" "t \<notin> set (bl s b)" "t \<notin> set (ring s p)" "t \<noteq> g_idle_task s"
    "\<not> pended (st s t)" "st s t \<noteq> K_RDY" "is_mutex s m \<Longrightarrow> owner s m \<noteq> t \<or> t = NULL"
proof -
  note c = core_okD [OF kinvD(1) [OF k]]
  show r: "st s t \<noteq> K_RDY" and n: "\<not> pended (st s t)" using t pended_live by auto
  have "\<not> sleeping (st s t)" using t by (auto simp: sleeping_def)
  then show "t \<notin> set (g_tick_head s)" using c(4) n by (auto simp: tick_ok_def)
  show "t \<notin> set (bl s b)" "t \<notin> set (ring s p)" "t \<noteq> g_idle_task s"
    using in_bl_iff [OF c(3)] in_ring_iff [OF c(2)] n r c(6) by (auto simp: idle_ok_def)
  show "is_mutex s m \<Longrightarrow> owner s m \<noteq> t \<or> t = NULL"
    using mutex_okD(2) [OF kinvD(2) [OF k], of m] t by auto
qed

lemma fresh_kinv:
  assumes k: "kinv s" and t: "\<not> live (st s t)" "t \<noteq> NULL"
    and e: "g_idle_task s' = g_idle_task s" "g_active_task s' = g_active_task s"
      "g_tick_count s' = g_tick_count s" "blks s' = blks s" "mutexes s' = mutexes s"
      "g_tick_head s' = g_tick_head s" "tasks s' = (tasks s)(t := tcb)"
    and x: "task_state tcb = K_RDY \<or> task_state tcb = K_SUSPENDED \<and> 0 < suspend_count tcb"
      "prio tcb < RHINO_CONFIG_PRI_MAX" "b_prio tcb = prio tcb" "mutex_list tcb = []" "\<not> tick_head tcb"
    and r: "ready_placed t (task_state tcb = K_RDY) (prio tcb) s s'"
  shows "kinv s'" and "tick_pos s \<Longrightarrow> tick_pos s'"
proof -
  note d = dead_not_listed [OF k t(1)]
  note c = kinvD(1) [OF k]
  have v: "u \<noteq> t \<Longrightarrow> tasks s' u = tasks s u" "tasks s' t = tcb" for u by (simp_all add: e)
  have np: "\<not> pended (task_state tcb)" "\<not> sleeping (task_state tcb)" "live (task_state tcb)"
    "suspended (task_state tcb) \<Longrightarrow> 0 < suspend_count tcb" using x(1) by auto
  have srt: "sorted (map (pr s') (bl s b))" if "blk_policy (blks s b) = BLK_POLICY_PRI" for b
  proof (rule sorted_map_cong)
    show "sorted (map (pr s) (bl s b))" using core_okD(3) [OF c] that by (simp add: blk_ok_def)
    show "pr s' u = pr s u" if "u \<in> set (bl s b)" for u using that v(1) d(2) by metis
  qed
  have rem: "sorted (map (remain s') (g_tick_head s))"
  proof (rule sorted_map_cong)
    show "sorted (map (remain s) (g_tick_head s))" using core_okD(4) [OF c] by (simp add: tick_ok_def)
    show "remain s' u = remain s u" if "u \<in> set (g_tick_head s)" for u
      using that v(1) d(1) e(3) unfolding remain_def by metis
  qed
  have pl: "placed t False (bl s b) (bl s b)" "placed t False (g_tick_head s) (g_tick_head s)" for b
    using core_okD(3,4) [OF c] d(1,2) by (auto simp: blk_ok_def tick_ok_def intro!: placed_same)
  have "moved t s s'"
    using r x np d(4) t e(1-6) v srt rem pl by (simp add: moved_def ready_placed_def)
  then have c': "core_ok s'" by (rule moved_core_ok [OF c])
  have w: "waiters s' u = (if u = t then {} else waiters s u)" for u
    using np(1) d(5) x(4) by (auto simp: waiters_def e)
  have m: "mutex_ok s'"
    using kinvD(2) [OF k] d(5,7) np x(4) t unfolding mutex_ok_def is_mutex_def e
    by (auto simp: is_mutex_def)
  have "pi_ok s'"
    unfolding pi_ok_def
  proof (intro allI impI)
    fix u assume u: "live (st s' u)"
    show "need_is Map.empty s' u (pr s' u)"
    proof (cases "u = t")
      case False
      then have "need_is Map.empty s u (pr s u)" using kinvD(3) [OF k] u v by (simp add: pi_ok_def)
      moreover have "pr s' x = pr s x" if "x \<in> waiters s u" for x
        using that d(5) v(1) [of x] by (cases "x = t") (auto simp: waiters_def)
      ultimately show ?thesis
        using False v(1) [of u] w [of u] need_is_cong [of s' u s] by simp
    qed (simp add: need_is_def w v x(3))
  qed
  then show "kinv s'" using c' m by (intro kinvI)
  show "tick_pos s'" if "tick_pos s" using that d(1) by (auto simp: tick_pos_def remain_def e)
qed

lemma fresh_presched:
  fixes f
  assumes p: "presched s" and t: "\<not> live (st s t)" "t \<noteq> NULL"
    and x: "prio tcb < RHINO_CONFIG_PRI_MAX" "b_prio tcb = prio tcb" "mutex_list tcb = []" "\<not> tick_head tcb"
  defines "sa \<equiv> upd_kobj f (RHINO_CRITICAL_ENTER (upd_task t (\<lambda>_. tcb) s))"
  shows "task_state tcb = K_RDY \<Longrightarrow> presched (ready_list_add_tail t sa)"
    and "task_state tcb = K_SUSPENDED \<Longrightarrow> 0 < suspend_count tcb \<Longrightarrow> kinv sa \<and> tick_pos sa \<and> no_lost sa"
proof -
  note k = preschedD(1) [OF p]
  note rq = core_okD(1,2) [OF kinvD(1) [OF k]]
  have d: "st s t \<noteq> K_RDY" using t by auto
  have e: "tasks sa = (tasks s)(t := tcb)" "g_ready_queue sa = g_ready_queue s" "blks sa = blks s"
    "mutexes sa = mutexes s" "g_tick_head sa = g_tick_head s" "g_tick_count sa = g_tick_count s"
    "g_idle_task sa = g_idle_task s" "g_active_task sa = g_active_task s" "ub sa = ub s" "k_errs sa = k_errs s"
    "g_sched_lock sa = g_sched_lock s" "g_intrpt_nested_level sa = g_intrpt_nested_level s"
    "cpu_switch sa = cpu_switch s"
    by (simp_all add: sa_def)
  show "presched (ready_list_add_tail t sa)" if r: "task_state tcb = K_RDY"
  proof -
    have "ready_placed t True (pr sa t) sa (ready_list_add_tail t sa)"
      by (rule ready_add_placed(1) [OF _ rq(2)]) (simp_all add: e rq x d)
    then have pl: "ready_placed t (task_state tcb = K_RDY) (prio tcb) s (ready_list_add_tail t sa)"
      by (simp add: ready_placed_def r e)
    have "kinv (ready_list_add_tail t sa)" "tick_pos (ready_list_add_tail t sa)"
      using preschedD(2) [OF p] r x by (auto intro!: fresh_kinv [OF k t _ _ _ _ _ _ _ _ _ _ _ _ pl] simp: e)
    moreover have "no_lost (upd_task t (\<lambda>_. tcb) s)"
      using r by (intro upd_task_no_lost [OF preschedD(5) [OF p]]) simp
    then have "no_lost (ready_list_add_tail t sa)"
      by (subst no_lost_same [of _ "upd_task t (\<lambda>_. tcb) s"]) (simp_all add: sa_def)
    ultimately show ?thesis using p t d by (auto simp: presched_def presched0_def no_fatal_def callable_def e)
  qed
  show "kinv sa \<and> tick_pos sa \<and> no_lost sa" if r: "task_state tcb = K_SUSPENDED" "0 < suspend_count tcb"
  proof -
    have "no_lost (upd_task t (\<lambda>_. tcb) s)"
      using r by (intro upd_task_no_lost [OF preschedD(5) [OF p]]) simp
    then have nl: "no_lost sa"
      by (subst no_lost_same [of _ "upd_task t (\<lambda>_. tcb) s"]) (simp_all add: sa_def)
    have pl: "ready_placed t (task_state tcb = K_RDY) (prio tcb) s sa"
      using rq(1) core_okD(2) [OF kinvD(1) [OF k]] dead_not_listed(3) [OF k t(1)]
      by (auto simp: ready_placed_def r e ready_ok_def intro!: placed_same)
    show ?thesis
      using nl preschedD(2) [OF p] r x by (auto intro!: fresh_kinv [OF k t _ _ _ _ _ _ _ _ _ _ _ _ pl] simp: e)
  qed
qed

lemma task_create_sysinv:
  assumes i: "sysinv s" "callable s" and run: "g_sys_stat s = RHINO_RUNNING" and t: "\<not> live (st s t)"
  shows "sysinv (snd (task_create t name arg pri ticks stack sz entry autorun flag cpu s))"
proof (cases "t = NULL \<or> name = NULL \<or> entry = NULL \<or> stack = NULL \<or> sz = 0 \<or> pri \<ge> RHINO_CONFIG_PRI_MAX
    \<or> g_intrpt_nested_level s > 0 \<or> pri = RHINO_IDLE_PRI \<and> g_idle_task_spawned s")
  case True
  then show ?thesis using i(1) by (auto simp: task_create_def Let_def)
next
  case False
  define sa where "sa = RHINO_CRITICAL_EXIT (irq_off s) (let s = RHINO_CRITICAL_ENTER s in
     if pri = RHINO_IDLE_PRI then s\<lparr>g_idle_task_spawned := True\<rparr> else s)"
  have kf: "kinv (s\<lparr>g_idle_task_spawned := b\<rparr>) = kinv s" for s b by (simp add: kinv_defs)
  have s1: "presched (s\<lparr>g_idle_task_spawned := b\<rparr>) = presched s" "sysinv (s\<lparr>g_idle_task_spawned := b\<rparr>) = sysinv s" for s b
    by (simp_all add: presched_def presched0_def sysinv_def sched_ok_def best_def no_fatal_def callable_def kf tick_pos_def remain_def)
  have sa: "presched sa" "sysinv sa" "st sa t = st s t" "port sa = port s" "irq_off sa = irq_off s"
    "g_sys_stat sa = RHINO_RUNNING" "g_intrpt_nested_level sa = 0"
    using sysinv_presched [OF i] i(1) run False by (simp_all add: sa_def Let_def s1 word_gt_0)
  define total where "total = (if ticks > 0 then ucast ticks else RHINO_CONFIG_TIME_SLICE_DEFAULT :: 32 word)"
  define tcb where "tcb = zero_task
     \<lparr>time_total := total, time_slice_cnt := total, sched_policy := KSCHED_RR,
      task_state := (if autorun then K_RDY else K_SUSPENDED), suspend_count := (if autorun then 0 else 1),
      task_stack_base := stack, task_name := name, prio := pri, b_prio := pri, stack_size := sz,
      mm_alloc_flag := flag, cpu_num := cpu,
      task_stack := cpu_task_stack_init (port sa) stack sz arg entry\<rparr>"
  define sb where "sb = upd_kobj (\<lambda>g. g\<lparr>task_head := task_head g @ [t]\<rparr>) (RHINO_CRITICAL_ENTER (upd_task t (\<lambda>_. tcb) sa))"
  have x: "prio tcb < RHINO_CONFIG_PRI_MAX" "b_prio tcb = prio tcb" "mutex_list tcb = []" "\<not> tick_head tcb"
    "task_state tcb = (if autorun then K_RDY else K_SUSPENDED)" "suspend_count tcb = (if autorun then 0 else 1)"
    using False by (simp_all add: tcb_def zero_task_def)
  have tl: "\<not> live (st sa t)" "t \<noteq> NULL" using t False by (simp_all add: sa)
  note f = fresh_presched [OF sa(1) tl x(1-4), of "\<lambda>g. g\<lparr>task_head := task_head g @ [t]\<rparr>", folded sb_def]
  have c: "snd (task_create t name arg pri ticks stack sz entry autorun flag cpu s) =
    (if autorun then RHINO_CRITICAL_EXIT_SCHED (irq_off s) (ready_list_add_tail t sb)
     else RHINO_CRITICAL_EXIT (irq_off s) sb)"
    using False run unfolding sb_def tcb_def total_def
    by (simp add: task_create_def Let_def sa_def)
  have "g_active_task sa \<noteq> t" using active_ready [OF sa(1,7,2)] tl(1) by auto
  then have "sysinv sb" if "\<not> autorun"
    using f(2) x(5,6) that sa(2)
    by (simp add: sysinv_def sched_ok_def no_fatal_def) (auto simp: sb_def best_def)
  then show ?thesis unfolding c using f(1) x(5) by (simp add: exit_sched_sysinv)
qed

section \<open>Deleting a task\<close>

text \<open>What the release of mutexes leaves alone.\<close>

definition only_wakes :: "kernel \<Rightarrow> kernel \<Rightarrow> bool" where
  "only_wakes s s' \<longleftrightarrow> env s' = env s \<and> ub s' = ub s \<and> k_errs s' = k_errs s \<and>
     (tick_pos s \<longrightarrow> tick_pos s') \<and> (no_lost s \<longrightarrow> no_lost s') \<and> (\<forall>u. st s u = K_RDY \<longrightarrow> st s' u = K_RDY)"

lemma given_only_wakes:
  assumes "core_ok s" and g: "goes n x s (pend_task_wakeup n s)" and "st s n \<noteq> K_RDY"
  shows "only_wakes s (given m f n s)"
proof -
  have "tick_pos s \<Longrightarrow> tick_pos (given m f n s)"
    by (rule tick_pos_cong [OF goes_tick_pos [OF _ assms(1) g]])
      (simp_all add: given_def)
  moreover have "no_lost (given m f n s)" if "no_lost s"
  proof -
    have "no_lost (upd_mutex m f (pend_task_wakeup n s))"
      using goes_no_lost [OF that g] no_lost_same [of "upd_mutex m f (pend_task_wakeup n s)" "pend_task_wakeup n s"]
      by simp
    then show ?thesis unfolding given_def by (rule upd_task_no_lost) simp
  qed
  ultimately show ?thesis
    using goesD [OF g] assms(3) by (auto simp: only_wakes_def given_def upd_task_env upd_mutex_env)
qed

lemma only_wakes_trans: "only_wakes s s1 \<Longrightarrow> only_wakes s1 s2 \<Longrightarrow> only_wakes s s2"
  by (simp add: only_wakes_def)

lemma task_mutex_free_one_effect:
  assumes c: "core_ok s" and mu: "mutex_ok (holding t (m # ms) s)" and e: "pi_except t s"
    and t: "live (st s t)" and m: "m \<noteq> NULL"
  defines "s' \<equiv> task_mutex_free_one m s"
  shows "core_ok s'" and "mutex_ok (holding t ms s')" and "pi_except t s'" and "tasks s' t = tasks s t"
    and "only_wakes s s'"
proof -
  have im: "is_mutex s m" "owner s m = t" using mutex_okD(1) [OF mu, of t m] t by simp_all
  have "t \<noteq> NULL" using core_okD(5) [OF c] t by (auto simp: task_ok_def)
  then have nest: "0 < owner_nested (mutexes s m)" using mutex_okD(2) [OF mu, of m] im by simp
  note mn = mutex_ok_nest [OF mu, of m]
  have "core_ok s' \<and> mutex_ok (holding t ms s') \<and> pi_except t s' \<and> tasks s' t = tasks s t \<and> only_wakes s s'"
  proof (cases "bl s m")
    case Nil
    have s': "s' = upd_mutex m (\<lambda>m. m\<lparr>mutex_task := NULL\<rparr>) s" by (simp add: s'_def task_mutex_free_one_def Nil)
    have "tick_pos s \<Longrightarrow> tick_pos s'" unfolding s' by (rule tick_pos_cong) simp_all
    moreover have "no_lost s' = no_lost s" unfolding s' by (rule no_lost_same) simp_all
    ultimately have "only_wakes s s'" by (simp add: only_wakes_def) (simp add: s' upd_mutex_env)
    then show ?thesis unfolding s' using freed_effect [OF c mn e t Nil, of "\<lambda>m. m\<lparr>mutex_task := NULL\<rparr>"] by simp
  next
    case (Cons n ns)
    have s': "s' = given m (\<lambda>m. m\<lparr>mutex_task := n\<rparr>) n s"
      by (simp add: s'_def task_mutex_free_one_def Cons given_def Let_def)
    have "pended (st s n)" using in_bl_iff [OF core_okD(3) [OF c], of n m] Cons by simp
    then have "st s n \<noteq> K_RDY" by auto
    then show ?thesis
      unfolding s' using given_effect [OF c mn e t m Cons, of "\<lambda>m. m\<lparr>mutex_task := n\<rparr>"] nest given_only_wakes [OF c] by simp
  qed
  then show "core_ok s'" and "mutex_ok (holding t ms s')" and "pi_except t s'" and "tasks s' t = tasks s t"
    and "only_wakes s s'" by simp_all
qed

lemma task_mutex_free_effect:
  assumes "core_ok s" and "mutex_ok (holding t ms s)" and "pi_except t s"
    and "live (st s t)" and "NULL \<notin> set ms"
  shows "core_ok (fold task_mutex_free_one ms s) \<and> mutex_ok (holding t [] (fold task_mutex_free_one ms s)) \<and>
    pi_except t (fold task_mutex_free_one ms s) \<and> tasks (fold task_mutex_free_one ms s) t = tasks s t \<and>
    only_wakes s (fold task_mutex_free_one ms s)"
  using assms
proof (induction ms arbitrary: s)
  case Nil
  then show ?case by (simp add: only_wakes_def)
next
  case (Cons m ms)
  have "m \<noteq> NULL" using Cons.prems(5) by auto
  note e = task_mutex_free_one_effect [OF Cons.prems(1-4) this]
  show ?case
    using Cons.IH [OF e(1-3)] e(4) Cons.prems(4,5) only_wakes_trans [OF e(5)] by simp
qed

definition retired :: "ptr \<Rightarrow> kernel \<Rightarrow> kernel" where
  "retired t s = upd_task t (\<lambda>k. k\<lparr>mutex_list := [], b_prio := prio k\<rparr>) s"

lemma retired_sel [simp]:
  "st (retired t s) u = st s u" "pr (retired t s) u = pr s u" "bo (retired t s) u = bo s u"
  "b_prio (tasks (retired t s) u) = (if u = t then pr s u else b_prio (tasks s u))"
  "held (retired t s) u = (if u = t then [] else held s u)"
  "blks (retired t s) = blks s" "mutexes (retired t s) = mutexes s"
  "is_mutex (retired t s) m = is_mutex s m" "g_idle_task (retired t s) = g_idle_task s"
  by (simp_all add: retired_def is_mutex_def)

lemma goes_retired: "goes t x s s' \<Longrightarrow> goes t x (retired t s) (retired t s')"
  by (auto simp: goes_def ready_placed_def retired_def upd_task_env same_links_def)

lemma retired_dead:
  assumes "\<not> live (st s t)"
  shows "mutex_ok (retired t s) = mutex_ok s" "pi_ok (retired t s) = pi_ok s"
    "pi_except u (retired t s) = pi_except u s"
proof -
  have h: "live (st s u) \<Longrightarrow> held (retired t s) u = held s u"
    "live (st s u) \<Longrightarrow> b_prio (tasks (retired t s) u) = b_prio (tasks s u)" for u
    using assms by auto
  have w: "live (st s u) \<Longrightarrow> waiters (retired t s) u = waiters s u" for u
    by (simp add: waiters_def h(1) del: retired_sel(5))
  have n: "live (st s u) \<Longrightarrow> need_is Map.empty (retired t s) u r = need_is Map.empty s u r" for u r
    by (simp add: need_is_def w h(2) del: retired_sel(4))
  show "mutex_ok (retired t s) = mutex_ok s"
    by (simp add: mutex_ok_def h(1) del: retired_sel(5) cong: conj_cong imp_cong)
  show "pi_ok (retired t s) = pi_ok s" "pi_except u (retired t s) = pi_except u s"
    by (simp_all add: pi_ok_def pi_except_def n cong: imp_cong)
qed

lemma retired_ok:
  assumes "mutex_ok (holding t [] s)" and "pi_except t s"
  shows "mutex_ok (retired t s)" "pi_ok (retired t s)"
proof -
  show "mutex_ok (retired t s)" using assms(1) by (simp add: mutex_ok_def)
  show "pi_ok (retired t s)"
    using assms(2) by (auto simp: pi_ok_def pi_except_def need_is_def waiters_def)
qed

lemma deleted_effect:
  assumes c: "core_ok s" and mu: "mutex_ok (holding t [] s)" and e: "pi_except t s"
    and t: "live (st s t)" "t \<noteq> g_idle_task s" and g: "goes t K_DELETED s s1" and b: "bo s1 t = bo s t"
  shows "pended (st s t) \<Longrightarrow> kinv (mutex_task_pri_reset t s1) \<and> pri_only s1 (mutex_task_pri_reset t s1)"
    and "\<not> pended (st s t) \<Longrightarrow> kinv s1"
proof -
  note r = retired_ok [OF mu e]
  note gr = goes_retired [OF g]
  have d: "\<not> live (st s1 t)" using goesD(9) [OF g] by simp
  have c1: "core_ok s1" by (rule goes_core_ok [OF c g t])
  have tn: "t \<noteq> NULL" using core_okD(5) [OF c] t(1) by (auto simp: task_ok_def)
  have m1: "mutex_ok s1"
    using goes_mutex_ok [OF r(1) gr] t(1) mutex_okD(2) [OF r(1)] tn retired_dead(1) [OF d]
    by (metis retired_sel(1,5,7) empty_iff list.set(1))
  note p = goes_pi [OF r gr]
  show "kinv s1" if "\<not> pended (st s t)"
    using p that t(1) c1 m1 retired_dead(2) [OF d] by (auto intro: kinvI)
  show "kinv (mutex_task_pri_reset t s1) \<and> pri_only s1 (mutex_task_pri_reset t s1)" if pd: "pended (st s t)"
  proof -
    have "bo s t \<noteq> NULL" using core_okD(5) [OF c] pd by (simp add: task_ok_def)
    moreover have "is_mutex s (bo s t) \<Longrightarrow> owner s (bo s t) \<noteq> NULL" using mutex_okD(5) [OF mu, of t] pd by simp
    ultimately show ?thesis
      using mutex_task_pri_reset_pi [OF c1 m1, of t] p pd t(1) b retired_dead [OF d]
      by (auto simp: is_mutex_goes [OF g] goesD(2,6) [OF g] intro!: kinvI split: if_splits)
  qed
qed

lemma del_goes:
  assumes c: "core_ok s" and t: "st s t \<noteq> K_RDY"
    and s': "g_ready_queue s' = g_ready_queue s" "ub s' = ub s"
    and "env s' = env s" "mutexes s' = mutexes s" "k_errs s' = k_errs s"
    and "tasks s' = (tasks s)(t := k)" "same_links (tasks s t) k" "task_state k = K_DELETED" "\<not> tick_head k"
    and "blks s' = (\<lambda>b. (blks s b)\<lparr>blk_list := remove1 t (bl s b)\<rparr>)"
    and "g_tick_head s' = remove1 t (g_tick_head s)"
  shows "goes t K_DELETED s s'"
proof -
  have "ready_placed t False (pr s t) s s'"
    using core_okD(1,2) [OF c] t s' by (auto simp: ready_placed_def ready_ok_def intro!: placed_same)
  then show ?thesis using assms by (auto simp: goes_def)
qed

definition del_steps :: "ptr \<Rightarrow> kernel \<Rightarrow> kernel" where
  "del_steps t s = upd_task t (\<lambda>k. k\<lparr>task_state := K_DELETED\<rparr>)
     (if st s t = K_RDY then ready_list_rm t s
      else if pended (st s t) then task_list_rm t (tick_list_rm t s)
      else if sleeping (st s t) then tick_list_rm t s else s)"

lemma del_steps_goes:
  assumes c: "core_ok s" and t: "live (st s t)" "t \<noteq> g_idle_task s"
  shows "goes t K_DELETED s (del_steps t s)" and "bo (del_steps t s) t = bo s t"
proof -
  show "bo (del_steps t s) t = bo s t" by (simp add: del_steps_def)
  have nh: "\<not> pended (st s t) \<Longrightarrow> \<not> sleeping (st s t) \<Longrightarrow> \<not> tick_head (tasks s t)"
    using core_okD(4) [OF c] by (auto simp: tick_ok_def)
  show "goes t K_DELETED s (del_steps t s)"
  proof (cases "st s t = K_RDY")
    case True
    show ?thesis
      by (rule leave_goes [OF c True t(2), where sa = s and k = "(tasks s t)\<lparr>task_state := K_DELETED\<rparr>"])
        (simp_all add: del_steps_def True upd_task_env ready_list_rm_env same_links_def ready_not_listed [OF c True])
  next
    case False
    have th: "\<not> pended (st s t) \<Longrightarrow> \<not> sleeping (st s t) \<Longrightarrow> (tasks s t)\<lparr>tick_head := False, task_state := K_DELETED\<rparr> =
        (tasks s t)\<lparr>task_state := K_DELETED\<rparr>"
      using nh by (cases "tasks s t") simp
    have ts: "tasks (del_steps t s) = (tasks s)(t := (tasks s t)\<lparr>tick_head := False, task_state := K_DELETED\<rparr>)"
    proof (cases "pended (st s t) \<or> sleeping (st s t)")
      case True
      then show ?thesis by (simp add: del_steps_def False) metis
    next
      case f: False
      then show ?thesis unfolding th [OF conjunct1 [OF f [unfolded de_Morgan_disj]] conjunct2 [OF f [unfolded de_Morgan_disj]]]
        by (simp add: del_steps_def False)
    qed
    have tk: "g_tick_head (del_steps t s) = remove1 t (g_tick_head s)"
      using nh by (auto simp: del_steps_def False tick_list_rm_head [OF core_okD(4) [OF c]])
    have bs: "blks (del_steps t s) = (\<lambda>b. (blks s b)\<lparr>blk_list := remove1 t (bl s b)\<rparr>)"
      by (cases "pended (st s t)")
        (simp_all add: del_steps_def False blks_task_list_rm blks_not_pended [OF core_okD(3) [OF c]])
    show ?thesis
      by (rule del_goes [OF c False _ _ _ _ _ ts _ _ _ bs tk])
        (simp_all add: del_steps_def False upd_task_env tick_list_rm_env task_list_rm_env same_links_def)
  qed
qed

lemma presched_upd_kobj [simp]: "presched (upd_kobj f s) = presched s" "kinv (upd_kobj f s) = kinv s"
  by (simp_all add: upd_kobj_def presched_def presched0_def no_fatal_def callable_def)

lemma krhino_task_del_sysinv:
  assumes i: "sysinv s" "callable s"
    and l: "live (st s (if t = NULL then g_active_task s else t))"
  shows "sysinv (snd (krhino_task_del t s))"
proof -
  define u where "u = (if t = NULL then g_active_task s else t)"
  define sa where "sa = RHINO_CRITICAL_ENTER s"
  show ?thesis
  proof (cases "g_intrpt_nested_level s > 0 \<or> pr s u = RHINO_IDLE_PRI \<or>
      mm_alloc_flag (tasks s u) \<noteq> K_OBJ_STATIC_ALLOC \<or> u = g_active_task s \<and> g_sched_lock s > 0")
    case True
    then show ?thesis using i(1) by (auto simp: krhino_task_del_def Let_def u_def)
  next
    case False
    have p: "presched sa" using sysinv_presched [OF i] by (simp add: sa_def)
    have k: "core_ok sa" "mutex_ok sa" "pi_ok sa" using preschedD(1) [OF p] by (simp_all add: kinv_def)
    have tasks: "tasks sa = tasks s" by (simp add: sa_def)
    have lu: "live (st sa u)" using l by (simp add: u_def tasks)
    have ui: "u \<noteq> g_idle_task sa" using False core_okD(6) [OF k(1)] by (auto simp: idle_ok_def tasks)
    define sb where "sb = task_mutex_free u sa"
    have f: "core_ok sb" "mutex_ok (holding u [] sb)" "pi_except u sb" "tasks sb u = tasks s u" "only_wakes sa sb"
      using task_mutex_free_effect [OF k(1) _ _ lu, of "held sa u"] k core_okD(5) [OF k(1)]
      by (simp_all add: holding_same pi_ok_def pi_except_def task_ok_def sb_def task_mutex_free_def tasks)
    note e = env_sel [of sb sa]
    have fe: "env sb = env sa" "ub sb = ub sa" "k_errs sb = k_errs sa" "tick_pos sb" "no_lost sb"
      using f(5) preschedD(2,5) [OF p] by (simp_all add: only_wakes_def)
    have lb: "live (st sb u)" "u \<noteq> g_idle_task sb" using lu ui e(6) [OF fe(1)] f(4) tasks by simp_all
    note g = del_steps_goes [OF f(1) lb]
    note d = deleted_effect [OF f(1-3) lb g]
    have act: "g_sched_lock sa > 0 \<Longrightarrow> st sa (g_active_task sa) = K_RDY \<Longrightarrow> st sb (g_active_task sa) = K_RDY \<and> g_active_task sa \<noteq> u"
      using f(5) False by (auto simp: only_wakes_def sa_def)
    define sc where "sc = (if pended (st sb u) then mutex_task_pri_reset u (del_steps u sb) else del_steps u sb)"
    have po: "pri_only (del_steps u sb) sc" "kinv sc" using d by (auto simp: sc_def pri_only_refl)
    have "presched sc"
    proof (rule presched_step [OF p po(2)])
      show "no_lost sc" by (rule pri_only_no_lost [OF goes_no_lost [OF fe(5) g(1)] po(1)])
      show "tick_pos sc" by (rule pri_only_tick_pos [OF goes_tick_pos [OF fe(4) f(1) g(1)] po(1)])
      show "st sc (g_active_task sa) = K_RDY" if "g_sched_lock sa > 0" "st sa (g_active_task sa) = K_RDY"
        using act [OF that] goesD(10) [OF g(1)] pri_only_task [OF po(1)] by simp
    qed (use pri_only_env [OF po(1)] goesD(1,3,4) [OF g(1)] fe in simp_all)
    moreover have "snd (krhino_task_del t s) =
      RHINO_CRITICAL_EXIT_SCHED (irq_off s) (upd_kobj (\<lambda>g. g\<lparr>task_head := remove1 u (task_head g)\<rparr>) sc)"
    proof -
      have "g_active_task sa = g_active_task s" "g_sched_lock sa = g_sched_lock s"
        "g_intrpt_nested_level sa = g_intrpt_nested_level s" by (simp_all add: sa_def)
      moreover have "\<not> g_intrpt_nested_level s > 0" "pr s u \<noteq> RHINO_IDLE_PRI"
        "mm_alloc_flag (tasks s u) = K_OBJ_STATIC_ALLOC" "\<not> (u = g_active_task s \<and> g_sched_lock s > 0)"
        using False by auto
      ultimately show ?thesis
        unfolding krhino_task_del_def Let_def sa_def [symmetric] sc_def del_steps_def
        using lb(1)
        by (cases "st sb u") (simp_all only: u_def [symmetric] sb_def [symmetric] tasks simp_thms if_False if_True
            snd_conv task_stat_t.case state_simps task_stat_t.distinct)
    qed
    ultimately show ?thesis by (simp add: exit_sched_sysinv)
  qed
qed

end
