(* ===== verification/Blocking.thy ===== *)
theory Blocking
  imports Task_Inv
begin

text \<open>
  What the kernel objects share: the loop that wakes every task in a blocking list, the
  way a task blocks on an object, and the creation and deletion of an object nobody else
  uses. The loop is written for any function that wakes the first task; the locale
  \<open>waker\<close> states what it needs, and the three functions the kernel uses are its
  interpretations.
\<close>

section \<open>Model\<close>

text \<open>
  \<^verbatim>\<open>while (!is_klist_empty(head)) wake(first task)\<close>. A step that wakes a blocked task takes it
  off the list, and one that meets a task that is not blocked changes no list, so the
  loop either ends after at most as many steps as the list has tasks or runs forever; an
  endless loop is recorded in \<open>ub\<close>.
\<close>

primrec wake_loop :: "(ptr \<Rightarrow> kernel \<Rightarrow> kernel) \<Rightarrow> ptr \<Rightarrow> nat \<Rightarrow> kernel \<Rightarrow> kernel" where
  "wake_loop wake b 0 s = (if blk_list (blks s b) = [] then s else undefined_behaviour s)"
| "wake_loop wake b (Suc n) s =
     (case blk_list (blks s b) of [] \<Rightarrow> s | t # _ \<Rightarrow> wake_loop wake b n (wake t s))"

definition wake_all :: "(ptr \<Rightarrow> kernel \<Rightarrow> kernel) \<Rightarrow> ptr \<Rightarrow> kernel \<Rightarrow> kernel" where
  "wake_all wake b s = wake_loop wake b (length (blk_list (blks s b))) s"

section \<open>Waking\<close>

locale waker =
  fixes wake :: "ptr \<Rightarrow> kernel \<Rightarrow> kernel" and result :: blk_state_t
  assumes wake_goes: "core_ok s \<Longrightarrow> pended (st s t) \<Longrightarrow> goes t (woken (st s t)) s (wake t s)"
    and wake_result: "core_ok s \<Longrightarrow> pended (st s t) \<Longrightarrow> blk_state (tasks (wake t s) t) = result"
begin

lemma wake_kinv:
  assumes k: "kinv s" and t: "pended (st s t)" and b: "\<not> is_mutex s (bo s t)"
  shows "kinv (wake t s)"
proof -
  have "st s t \<noteq> K_RDY" using t by auto
  then show ?thesis
    using t b not_idle [OF k] by (intro goes_kinv [OF k wake_goes [OF kinvD(1) [OF k] t]])
      (simp_all add: pended_live woken_def)
qed

lemma wake_presched0:
  assumes p: "presched0 s" and t: "pended (st s t)" and b: "\<not> is_mutex s (bo s t)"
  shows "presched0 (wake t s)"
proof -
  have k: "kinv s" using p by (simp add: presched0_def)
  have "st s t \<noteq> K_RDY" using t by auto
  then show ?thesis by (rule goes_presched0 [OF p wake_kinv [OF k t b] wake_goes [OF kinvD(1) [OF k] t]])
qed

lemma wake_presched:
  assumes p: "presched s" and t: "pended (st s t)" and b: "\<not> is_mutex s (bo s t)"
  shows "presched (wake t s)"
  using wake_presched0 [OF preschedD(6) [OF p] t b]
    goes_no_lost [OF preschedD(5) [OF p] wake_goes [OF kinvD(1) [OF preschedD(1) [OF p]] t]]
  by (simp add: presched_def)

text \<open>The loop wakes exactly the tasks of the list and ends.\<close>

lemma wake_loop_effect:
  assumes "presched s" and "\<not> is_mutex s b" and "length (bl s b) \<le> n"
  shows "presched (wake_loop wake b n s) \<and> bl (wake_loop wake b n s) b = [] \<and>
    env (wake_loop wake b n s) = env s \<and> mutexes (wake_loop wake b n s) = mutexes s \<and>
    (\<forall>u. if u \<in> set (bl s b)
       then st (wake_loop wake b n s) u = woken (st s u) \<and> blk_state (tasks (wake_loop wake b n s) u) = result
       else tasks (wake_loop wake b n s) u = tasks s u) \<and>
    (\<forall>o'. obj_type (blks (wake_loop wake b n s) o') = obj_type (blks s o') \<and>
       (o' \<noteq> b \<longrightarrow> bl (wake_loop wake b n s) o' = bl s o'))"
  using assms
proof (induction n arbitrary: s)
  case 0
  then show ?case by simp
next
  case (Suc n)
  show ?case
  proof (cases "bl s b")
    case Nil
    with Suc.prems show ?thesis by simp
  next
    case (Cons t ts)
    note c = kinvD(1) [OF preschedD(1) [OF Suc.prems(1)]]
    have bo: "blk_ok s" by (rule core_okD(3) [OF c])
    have t: "pended (st s t)" "bo s t = b" using in_bl_iff [OF bo, of t b] Cons by simp_all
    have d: "distinct (t # ts)" using bo Cons by (metis blk_ok_def)
    note g = wake_goes [OF c t(1)]
    have p: "presched (wake t s)" using Suc.prems(2) t by (intro wake_presched [OF Suc.prems(1)]) simp_all
    have l: "bl (wake t s) b = ts" using goesD(13) [OF g, of b] Cons by simp
    have other: "bl (wake t s) o' = bl s o'" if "o' \<noteq> b" for o'
      using that goesD(13) [OF g, of o'] in_bl_iff [OF bo, of t o'] t(2) by (simp add: remove1_idem)
    have ih: "presched (wake_loop wake b n (wake t s)) \<and> bl (wake_loop wake b n (wake t s)) b = [] \<and>
      env (wake_loop wake b n (wake t s)) = env (wake t s) \<and>
      mutexes (wake_loop wake b n (wake t s)) = mutexes (wake t s) \<and>
      (\<forall>u. if u \<in> set ts
         then st (wake_loop wake b n (wake t s)) u = woken (st (wake t s) u) \<and>
           blk_state (tasks (wake_loop wake b n (wake t s)) u) = result
         else tasks (wake_loop wake b n (wake t s)) u = tasks (wake t s) u) \<and>
      (\<forall>o'. obj_type (blks (wake_loop wake b n (wake t s)) o') = obj_type (blks (wake t s) o') \<and>
         (o' \<noteq> b \<longrightarrow> bl (wake_loop wake b n (wake t s)) o' = bl (wake t s) o'))"
      using Suc.IH [OF p] Suc.prems(2,3) is_mutex_goes [OF g] Cons l by simp
    have "if u \<in> set (bl s b)
       then st (wake_loop wake b n (wake t s)) u = woken (st s u) \<and> blk_state (tasks (wake_loop wake b n (wake t s)) u) = result
       else tasks (wake_loop wake b n (wake t s)) u = tasks s u" for u
      using ih d Cons goesD(5) [OF g, of u] goesD(9) [OF g] goesD(10) [OF g, of u] wake_result [OF c t(1)] by (auto split: if_splits)
    moreover have "wake_loop wake b (Suc n) s = wake_loop wake b n (wake t s)" using Cons by simp
    ultimately show ?thesis using ih goesD(1,2,11) [OF g] other by simp
  qed
qed

lemmas wake_all_effect = wake_loop_effect [OF _ _ order_refl, folded wake_all_def]

end

interpretation wk: waker pend_task_wakeup BLK_FINISH
  by unfold_locales (erule (1) pend_task_wakeup_goes, simp add: pend_task_wakeup_def Let_def)

interpretation rm: waker pend_task_rm BLK_DEL
  by unfold_locales (erule (1) pend_task_rm_goes, simp add: pend_task_rm_def Let_def)

section \<open>Fields of objects\<close>

lemma upd_sem_sel [simp]:
  "tasks (upd_sem p f s) = tasks s" "blks (upd_sem p f s) = blks s" "mutexes (upd_sem p f s) = mutexes s"
  "sems (upd_sem p f s) = (sems s)(p := f (sems s p))" "kinv (upd_sem p f s) = kinv s"
  "events (upd_sem p f s) = events s" "queues (upd_sem p f s) = queues s"
  "buf_queues (upd_sem p f s) = buf_queues s" "irq_off (upd_sem p f s) = irq_off s"
  "presched0 (upd_sem p f s) = presched0 s"
  by (simp_all add: upd_sem_def presched0_def no_fatal_def callable_def)

lemma upd_event_sel [simp]:
  "tasks (upd_event p f s) = tasks s" "blks (upd_event p f s) = blks s" "mutexes (upd_event p f s) = mutexes s"
  "events (upd_event p f s) = (events s)(p := f (events s p))" "kinv (upd_event p f s) = kinv s"
  "sems (upd_event p f s) = sems s" "queues (upd_event p f s) = queues s"
  "buf_queues (upd_event p f s) = buf_queues s" "irq_off (upd_event p f s) = irq_off s"
  "presched0 (upd_event p f s) = presched0 s"
  by (simp_all add: upd_event_def presched0_def no_fatal_def callable_def)

lemma upd_queue_sel [simp]:
  "tasks (upd_queue p f s) = tasks s" "blks (upd_queue p f s) = blks s" "mutexes (upd_queue p f s) = mutexes s"
  "queues (upd_queue p f s) = (queues s)(p := f (queues s p))" "kinv (upd_queue p f s) = kinv s"
  "sems (upd_queue p f s) = sems s" "events (upd_queue p f s) = events s"
  "buf_queues (upd_queue p f s) = buf_queues s" "irq_off (upd_queue p f s) = irq_off s"
  "presched0 (upd_queue p f s) = presched0 s"
  by (simp_all add: upd_queue_def presched0_def no_fatal_def callable_def)

lemma upd_buf_queue_sel [simp]:
  "tasks (upd_buf_queue p f s) = tasks s" "blks (upd_buf_queue p f s) = blks s"
  "mutexes (upd_buf_queue p f s) = mutexes s"
  "buf_queues (upd_buf_queue p f s) = (buf_queues s)(p := f (buf_queues s p))"
  "kinv (upd_buf_queue p f s) = kinv s"
  "sems (upd_buf_queue p f s) = sems s" "events (upd_buf_queue p f s) = events s"
  "queues (upd_buf_queue p f s) = queues s" "irq_off (upd_buf_queue p f s) = irq_off s"
  "presched0 (upd_buf_queue p f s) = presched0 s"
  by (simp_all add: upd_buf_queue_def presched0_def no_fatal_def callable_def)

section \<open>Creating, deleting and blocking\<close>

text \<open>Memory that holds no object in use.\<close>

definition unused :: "ptr \<Rightarrow> kernel \<Rightarrow> bool" where
  "unused b s \<longleftrightarrow> bl s b = [] \<and> \<not> is_mutex s b"

lemma kinv_upd_blk:
  assumes k: "kinv s" and b: "bl s b = [] \<or> blk_policy (f (blks s b)) = blk_policy (blks s b)"
    and "blk_list (f (blks s b)) = bl s b" and "\<not> is_mutex s b" and "obj_type (f (blks s b)) \<noteq> RHINO_MUTEX_OBJ_TYPE"
  shows "kinv (upd_blk b f s)"
proof (rule kinv_cong [OF k])
  show "g_active_task (upd_blk b f s) \<noteq> NULL" using core_ok_active [OF kinvD(1) [OF k]] by simp
  show "0 < suspend_count (tasks (upd_blk b f s) t)" if "suspended (st (upd_blk b f s) t)" for t
    using that kinv_suspend_count [OF k, of t] by simp
  show "is_mutex (upd_blk b f s) b' = is_mutex s b'" for b' using assms(4,5) by (simp add: is_mutex_def)
  show "blk_policy (blks (upd_blk b f s) b') = blk_policy (blks s b')" if "bl s b' \<noteq> [] \<or> is_mutex s b'" for b'
    using that assms(2,4) by (cases "b' = b") auto
qed (use assms(3) in \<open>simp_all add: is_mutex_def\<close>)

lemma no_lost_upd_blk:
  assumes "no_lost s" and "blk_ok s" and "bl s b = [] \<or> obj_type (f (blks s b)) = RHINO_OBJ_TYPE_NONE"
  shows "no_lost (upd_blk b f s)"
  unfolding no_lost_def
proof (intro allI impI)
  fix t assume t: "pended (st (upd_blk b f s) t)"
  show "\<not> avail (upd_blk b f s) (bo (upd_blk b f s) t) (tasks (upd_blk b f s) t)"
  proof (cases "bo s t = b")
    case True
    then have "bl s b \<noteq> []" using t in_bl_iff [OF assms(2), of t b] by auto
    with True assms(3) show ?thesis by (simp add: avail_def)
  next
    case False
    then have "avail (upd_blk b f s) (bo s t) (tasks s t) = avail s (bo s t) (tasks s t)"
      by (intro avail_cong) simp_all
    then show ?thesis using t assms(1) by (simp add: no_lost_def)
  qed
qed

lemma presched_upd_blk:
  assumes p: "presched s" and "bl s b = [] \<or> blk_policy (f (blks s b)) = blk_policy (blks s b)"
    and "blk_list (f (blks s b)) = bl s b" and "\<not> is_mutex s b" and "obj_type (f (blks s b)) \<noteq> RHINO_MUTEX_OBJ_TYPE"
    and "bl s b = [] \<or> obj_type (f (blks s b)) = RHINO_OBJ_TYPE_NONE"
  shows "presched (upd_blk b f s)"
proof (rule presched_step [OF p])
  show "kinv (upd_blk b f s)" using assms(2-5) by (intro kinv_upd_blk preschedD(1) [OF p]) simp_all
  show "tick_pos (upd_blk b f s)" using preschedD(2) [OF p] by (rule tick_pos_cong) simp_all
  show "no_lost (upd_blk b f s)"
    using assms(6) core_okD(3) [OF kinvD(1) [OF preschedD(1) [OF p]]]
    by (intro no_lost_upd_blk preschedD(5) [OF p]) simp_all
qed (simp_all add: upd_blk_env)

lemma sysinv_upd_blk:
  assumes i: "sysinv s" and "bl s b = []" and "blk_list (f (blks s b)) = []" and "\<not> is_mutex s b"
    and "obj_type (f (blks s b)) \<noteq> RHINO_MUTEX_OBJ_TYPE"
  shows "sysinv (upd_blk b f s)"
proof -
  have "kinv (upd_blk b f s)" using assms by (intro kinv_upd_blk sysinvD(1)) simp_all
  moreover have "tick_pos (upd_blk b f s)" using sysinvD(2) [OF i] by (rule tick_pos_cong) simp_all
  moreover have "no_lost (upd_blk b f s)"
    using assms(2) core_okD(3) [OF kinvD(1) [OF sysinvD(1) [OF i]]] by (intro no_lost_upd_blk sysinvD(5) [OF i]) simp_all
  moreover have "sched_ok (upd_blk b f s) = sched_ok s" by (simp add: sched_ok_def best_def)
  ultimately show ?thesis using i by (simp add: sysinv_def no_fatal_def)
qed

text \<open>The active task blocks on an object that is no mutex and cannot serve it.\<close>

lemma pend_to_blk_obj_pend [simp]:
  "pend_option (tasks (pend_to_blk_obj b t ticks s) u) = pend_option (tasks s u)"
  "pend_flags (tasks (pend_to_blk_obj b t ticks s) u) = pend_flags (tasks s u)"
  by (simp_all add: pend_to_blk_obj_def Let_def tick_list_insert_effect)

lemma block_presched:
  assumes p: "presched s" and a: "st s t = K_RDY" "t \<noteq> g_idle_task s" and "g_sched_lock s = 0"
    and b: "b \<noteq> NULL" "\<not> is_mutex s b" "\<not> avail s b (tasks s t)"
  shows "presched (pend_to_blk_obj b t ticks s)"
proof -
  note k = preschedD(1) [OF p]
  note w = pend_to_blk_obj_waits [OF kinvD(1) [OF k] a b(1), of ticks]
  have "avail s b (tasks (pend_to_blk_obj b t ticks s) t) = avail s b (tasks s t)"
    by (rule avail_cong) simp_all
  then show ?thesis
    using b(2,3) by (intro waits_presched [OF p waits_kinv [OF k w a] w a(1) assms(4)]) simp_all
qed

lemma presched_same:
  assumes "presched s" and "presched0 s' = presched0 s" and "no_lost s'"
  shows "presched s'"
  using assms by (simp add: presched_def)

text \<open>An object's own fields change: nobody waits, or there is nothing to take afterwards.\<close>

lemma no_lost_obj:
  assumes "no_lost s" and "blk_ok s" and "tasks s' = tasks s" "\<And>b. obj_type (blks s' b) = obj_type (blks s b)"
    and "\<And>b. b \<noteq> p \<Longrightarrow> sems s' b = sems s b \<and> queues s' b = queues s b \<and>
      buf_queues s' b = buf_queues s b \<and> events s' b = events s b"
    and "bl s p = [] \<or> (\<forall>k. \<not> avail s' p k)"
  shows "no_lost s'"
  unfolding no_lost_def
proof (intro allI impI)
  fix t assume t: "pended (st s' t)"
  show "\<not> avail s' (bo s' t) (tasks s' t)"
  proof (cases "bo s t = p")
    case True
    then have "bl s p \<noteq> []" using t in_bl_iff [OF assms(2), of t p] by (auto simp: assms(3))
    with True assms(3,6) show ?thesis by simp
  next
    case False
    then have "avail s' (bo s t) (tasks s t) = avail s (bo s t) (tasks s t)"
      using assms(4,5) by (intro avail_cong) simp_all
    then show ?thesis using t assms(1,3) by (simp add: no_lost_def)
  qed
qed

lemma sysinv_blk_ok: "sysinv s \<Longrightarrow> blk_ok s"
  by (simp add: sysinv_def kinv_def core_ok_def)

lemma sysinv_fields:
  assumes "sysinv s" and "no_lost s'" and "kinv s' = kinv s" "tick_pos s' = tick_pos s" "\<And>t. st s' t = st s t"
    "g_sched_lock s' = g_sched_lock s" "g_intrpt_nested_level s' = g_intrpt_nested_level s"
    "cpu_switch s' = cpu_switch s" "g_active_task s' = g_active_task s"
    "g_preferred_ready_task s' = g_preferred_ready_task s" "g_ready_queue s' = g_ready_queue s"
    "ub s' = ub s" "k_errs s' = k_errs s"
  shows "sysinv s'"
proof -
  have "sched_ok s' = sched_ok s" using assms by (simp add: sched_ok_def best_def)
  then show ?thesis using assms by (simp add: sysinv_def no_fatal_def)
qed

lemma sysinv_upd_sem:
  assumes "sysinv s" and "bl s p = [] \<or> sem_count (f (sems s p)) = 0 \<and> obj_type (blks s p) = RHINO_SEM_OBJ_TYPE"
  shows "sysinv (upd_sem p f s)"
proof (rule sysinv_fields [OF assms(1)])
  show "no_lost (upd_sem p f s)"
    by (rule no_lost_obj [where p = p, OF sysinvD(5) [OF assms(1)] sysinv_blk_ok [OF assms(1)]])
      (use assms(2) in \<open>auto simp: avail_def\<close>)
qed (simp_all add: upd_sem_def)

lemma sysinv_upd_event:
  assumes "sysinv s" and "bl s p = []"
  shows "sysinv (upd_event p f s)"
proof (rule sysinv_fields [OF assms(1)])
  show "no_lost (upd_event p f s)"
    by (rule no_lost_obj [where p = p, OF sysinvD(5) [OF assms(1)] sysinv_blk_ok [OF assms(1)]])
      (use assms(2) in \<open>auto simp: avail_def\<close>)
qed (simp_all add: upd_event_def)

lemma sysinv_upd_queue:
  assumes "sysinv s" and "bl s p = [] \<or> cur_num (msg_q (f (queues s p))) = 0 \<and> obj_type (blks s p) = RHINO_QUEUE_OBJ_TYPE"
  shows "sysinv (upd_queue p f s)"
proof (rule sysinv_fields [OF assms(1)])
  show "no_lost (upd_queue p f s)"
    by (rule no_lost_obj [where p = p, OF sysinvD(5) [OF assms(1)] sysinv_blk_ok [OF assms(1)]])
      (use assms(2) in \<open>auto simp: avail_def\<close>)
qed (simp_all add: upd_queue_def)

lemma sysinv_upd_buf_queue:
  assumes "sysinv s" and "bl s p = [] \<or> ringbuf_is_empty (bq_ringbuf (f (buf_queues s p))) \<and>
     obj_type (blks s p) = RHINO_BUF_QUEUE_OBJ_TYPE"
  shows "sysinv (upd_buf_queue p f s)"
proof (rule sysinv_fields [OF assms(1)])
  show "no_lost (upd_buf_queue p f s)"
    by (rule no_lost_obj [where p = p, OF sysinvD(5) [OF assms(1)] sysinv_blk_ok [OF assms(1)]])
      (use assms(2) in \<open>auto simp: avail_def\<close>)
qed (simp_all add: upd_buf_queue_def)

lemma sysinv_upd_kobj [simp]: "sysinv (upd_kobj f s) = sysinv s"
  by (simp add: sysinv_def sched_ok_def no_fatal_def best_def upd_kobj_def)

lemma sysinv_mem [simp]: "sysinv (s\<lparr>mem := m\<rparr>) = sysinv s"
  by (simp add: sysinv_def sched_ok_def no_fatal_def best_def)

lemma presched_mem [simp]: "presched (s\<lparr>mem := m\<rparr>) = presched s" "presched0 (s\<lparr>mem := m\<rparr>) = presched0 s"
  by (simp_all add: presched_def presched0_def no_fatal_def callable_def)

text \<open>Creating an object in unused memory.\<close>

lemma unused_upd [simp]:
  "unused b (upd_blk b f s) \<longleftrightarrow> blk_list (f (blks s b)) = [] \<and> obj_type (f (blks s b)) \<noteq> RHINO_MUTEX_OBJ_TYPE"
  "unused b (RHINO_CRITICAL_ENTER s) = unused b s" "unused b (RHINO_CRITICAL_EXIT c s) = unused b s"
  "unused b (upd_kobj g s) = unused b s" "unused b (upd_sem p h s) = unused b s"
  "unused b (upd_event p i s) = unused b s" "unused b (upd_queue p j s) = unused b s"
  "unused b (upd_buf_queue p l s) = unused b s"
  by (simp_all add: unused_def is_mutex_def)

lemma sysinv_unused:
  assumes "unused b s" and "sysinv s"
  shows "blk_list (f (blks s b)) = [] \<Longrightarrow> obj_type (f (blks s b)) \<noteq> RHINO_MUTEX_OBJ_TYPE \<Longrightarrow> sysinv (upd_blk b f s)"
    and "sysinv (upd_sem b g s)" and "sysinv (upd_event b h s)" and "sysinv (upd_queue b i s)"
    and "sysinv (upd_buf_queue b j s)"
  using assms by (simp_all add: unused_def sysinv_upd_blk sysinv_upd_sem sysinv_upd_event sysinv_upd_queue
      sysinv_upd_buf_queue)

text \<open>
  Deletion: the object loses its type, then every waiting task is woken with the result
  \<open>BLK_DEL\<close>. All object kinds delete in this way, a mutex once its owner has let go.
\<close>

lemma delete_wakes:
  assumes p: "presched s" and "\<not> is_mutex s b"
  defines "s' \<equiv> wake_all pend_task_rm b (upd_blk b (\<lambda>o'. o'\<lparr>obj_type := RHINO_OBJ_TYPE_NONE\<rparr>) s)"
  shows "presched s'" and "bl s' b = []" and "env s' = env s" and "obj_type (blks s' b) = RHINO_OBJ_TYPE_NONE"
    and "t \<in> set (bl s b) \<Longrightarrow> st s' t = woken (st s t) \<and> blk_state (tasks s' t) = BLK_DEL"
    and "t \<notin> set (bl s b) \<Longrightarrow> tasks s' t = tasks s t"
proof -
  let ?s = "upd_blk b (\<lambda>o'. o'\<lparr>obj_type := RHINO_OBJ_TYPE_NONE\<rparr>) s"
  have "presched ?s" using assms(2) by (intro presched_upd_blk [OF p]) simp_all
  moreover have "\<not> is_mutex ?s b" by (simp add: is_mutex_def)
  ultimately have "presched s' \<and> bl s' b = [] \<and> env s' = env ?s \<and> mutexes s' = mutexes ?s \<and>
    (\<forall>u. if u \<in> set (bl ?s b) then st s' u = woken (st ?s u) \<and> blk_state (tasks s' u) = BLK_DEL
      else tasks s' u = tasks ?s u) \<and>
    (\<forall>o'. obj_type (blks s' o') = obj_type (blks ?s o') \<and> (o' \<noteq> b \<longrightarrow> bl s' o' = bl ?s o'))"
    unfolding s'_def by (rule rm.wake_all_effect)
  then show "presched s'" and "bl s' b = []" and "env s' = env s" and "obj_type (blks s' b) = RHINO_OBJ_TYPE_NONE"
    and "t \<in> set (bl s b) \<Longrightarrow> st s' t = woken (st s t) \<and> blk_state (tasks s' t) = BLK_DEL"
    and "t \<notin> set (bl s b) \<Longrightarrow> tasks s' t = tasks s t"
    by (auto simp: upd_blk_env split: if_splits)
qed

end
