(* ===== verification/Sem.thy ===== *)
theory Sem
  imports Blocking
begin

text \<open>
  Counting semaphores (\<^verbatim>\<open>k_sem.c\<close>) and the semaphores that belong to tasks
  (\<^verbatim>\<open>k_task_sem.c\<close>). Every call keeps the invariant of the running system; giving wakes the
  first waiting task or counts up, taking counts down or waits.
\<close>

section \<open>Model\<close>

definition sem_create :: "ptr \<Rightarrow> ptr \<Rightarrow> nat \<Rightarrow> alloc_flag_t \<Rightarrow> kernel \<Rightarrow> kstat_t \<times> kernel" where
  "sem_create sem name count flag s =
     (if sem = NULL then (RHINO_NULL_PTR, s)
      else if name = NULL then (RHINO_NULL_PTR, s)
      else
        let s = upd_blk sem (\<lambda>b. b\<lparr>blk_list := []\<rparr>) s;
            s = upd_sem sem (\<lambda>k. k\<lparr>sem_count := count, peak_count := count\<rparr>) s;
            s = upd_blk sem (\<lambda>b. b\<lparr>obj_name := name, blk_policy := BLK_POLICY_PRI\<rparr>) s;
            s = upd_sem sem (\<lambda>k. k\<lparr>sem_alloc_flag := flag\<rparr>) s;
            cpsr = irq_off s;
            s = RHINO_CRITICAL_ENTER s;
            s = upd_kobj (\<lambda>g. g\<lparr>sem_head := sem_head g @ [sem]\<rparr>) s;
            s = RHINO_CRITICAL_EXIT cpsr s;
            s = upd_blk sem (\<lambda>b. b\<lparr>obj_type := RHINO_SEM_OBJ_TYPE\<rparr>) s
        in (RHINO_SUCCESS, s))"

definition krhino_sem_create :: "ptr \<Rightarrow> ptr \<Rightarrow> nat \<Rightarrow> kernel \<Rightarrow> kstat_t \<times> kernel" where
  "krhino_sem_create sem name count s = sem_create sem name count K_OBJ_STATIC_ALLOC s"

definition krhino_sem_del :: "ptr \<Rightarrow> kernel \<Rightarrow> kstat_t \<times> kernel" where
  "krhino_sem_del sem s =
     (if sem = NULL then (RHINO_NULL_PTR, s)
      else
        let cpsr = irq_off s;
            s = RHINO_CRITICAL_ENTER s in
        if g_intrpt_nested_level s > 0 then (RHINO_NOT_CALLED_BY_INTRPT, RHINO_CRITICAL_EXIT cpsr s)
        else if obj_type (blks s sem) \<noteq> RHINO_SEM_OBJ_TYPE
        then (RHINO_KOBJ_TYPE_ERR, RHINO_CRITICAL_EXIT cpsr s)
        else if sem_alloc_flag (sems s sem) \<noteq> K_OBJ_STATIC_ALLOC
        then (RHINO_KOBJ_DEL_ERR, RHINO_CRITICAL_EXIT cpsr s)
        else
          let s = upd_blk sem (\<lambda>b. b\<lparr>obj_type := RHINO_OBJ_TYPE_NONE\<rparr>) s;
              s = wake_all pend_task_rm sem s;
              s = upd_kobj (\<lambda>g. g\<lparr>sem_head := remove1 sem (sem_head g)\<rparr>) s
          in (RHINO_SUCCESS, RHINO_CRITICAL_EXIT_SCHED cpsr s))"

definition sem_give :: "ptr \<Rightarrow> bool \<Rightarrow> kernel \<Rightarrow> kstat_t \<times> kernel" where
  "sem_give sem opt_wake_all s =
     (let cpsr = irq_off s;
          s = RHINO_CRITICAL_ENTER s in
      if obj_type (blks s sem) \<noteq> RHINO_SEM_OBJ_TYPE then (RHINO_KOBJ_TYPE_ERR, RHINO_CRITICAL_EXIT cpsr s)
      else
        (case blk_list (blks s sem) of
           [] \<Rightarrow>
             if sem_count (sems s sem) = sem_count_max (port s)
             then (RHINO_SEM_OVF, RHINO_CRITICAL_EXIT cpsr s)
             else
               let s = upd_sem sem (\<lambda>k. k\<lparr>sem_count := cinc (sem_count_max (port s)) (sem_count k)\<rparr>) s;
                   s = (if sem_count (sems s sem) > peak_count (sems s sem)
                        then upd_sem sem (\<lambda>k. k\<lparr>peak_count := sem_count k\<rparr>) s else s)
               in (RHINO_SUCCESS, RHINO_CRITICAL_EXIT cpsr s)
         | task # _ \<Rightarrow>
             let s = (if opt_wake_all then wake_all pend_task_wakeup sem s else pend_task_wakeup task s)
             in (RHINO_SUCCESS, RHINO_CRITICAL_EXIT_SCHED cpsr s)))"

definition krhino_sem_give :: "ptr \<Rightarrow> kernel \<Rightarrow> kstat_t \<times> kernel" where
  "krhino_sem_give sem s = (if sem = NULL then (RHINO_NULL_PTR, s) else sem_give sem False s)"

definition krhino_sem_give_all :: "ptr \<Rightarrow> kernel \<Rightarrow> kstat_t \<times> kernel" where
  "krhino_sem_give_all sem s = (if sem = NULL then (RHINO_NULL_PTR, s) else sem_give sem True s)"

definition krhino_sem_take :: "ptr \<Rightarrow> tick_t \<Rightarrow> kernel \<Rightarrow> kret \<times> kernel" where
  "krhino_sem_take sem ticks s =
     (if sem = NULL then (Returned RHINO_NULL_PTR, s)
      else
        let cpsr = irq_off s;
            s = RHINO_CRITICAL_ENTER s in
        if g_intrpt_nested_level s > 0
        then (Returned RHINO_NOT_CALLED_BY_INTRPT, RHINO_CRITICAL_EXIT cpsr s)
        else if obj_type (blks s sem) \<noteq> RHINO_SEM_OBJ_TYPE
        then (Returned RHINO_KOBJ_TYPE_ERR, RHINO_CRITICAL_EXIT cpsr s)
        else if sem_count (sems s sem) > 0 then
          let s = upd_sem sem (\<lambda>k. k\<lparr>sem_count := sem_count k - 1\<rparr>) s
          in (Returned RHINO_SUCCESS, RHINO_CRITICAL_EXIT cpsr s)
        else if ticks = RHINO_NO_WAIT then (Returned RHINO_NO_PEND_WAIT, RHINO_CRITICAL_EXIT cpsr s)
        else if g_sched_lock s > 0 then (Returned RHINO_SCHED_DISABLE, RHINO_CRITICAL_EXIT cpsr s)
        else
          let s = pend_to_blk_obj sem (g_active_task s) ticks s
          in (Blocked, RHINO_CRITICAL_EXIT_SCHED cpsr s))"

definition krhino_sem_count_set :: "ptr \<Rightarrow> nat \<Rightarrow> kernel \<Rightarrow> kstat_t \<times> kernel" where
  "krhino_sem_count_set sem count s =
     (if sem = NULL then (RHINO_NULL_PTR, s)
      else
        let cpsr = irq_off s;
            s = RHINO_CRITICAL_ENTER s;
            peak = (\<lambda>s. if sem_count (sems s sem) > peak_count (sems s sem)
                        then upd_sem sem (\<lambda>k. k\<lparr>peak_count := sem_count k\<rparr>) s else s);
            set = (\<lambda>s. upd_sem sem (\<lambda>k. k\<lparr>sem_count := count\<rparr>) s) in
        if g_intrpt_nested_level s > 0 then (RHINO_NOT_CALLED_BY_INTRPT, RHINO_CRITICAL_EXIT cpsr s)
        else if obj_type (blks s sem) \<noteq> RHINO_SEM_OBJ_TYPE
        then (RHINO_KOBJ_TYPE_ERR, RHINO_CRITICAL_EXIT cpsr s)
        else if sem_count (sems s sem) > 0 then (RHINO_SUCCESS, RHINO_CRITICAL_EXIT cpsr (peak (set s)))
        else if blk_list (blks s sem) = [] then (RHINO_SUCCESS, RHINO_CRITICAL_EXIT cpsr (peak (set s)))
        else (RHINO_SEM_TASK_WAITING, RHINO_CRITICAL_EXIT cpsr s))"

definition krhino_sem_count_get :: "ptr \<Rightarrow> ptr \<Rightarrow> kernel \<Rightarrow> kstat_t \<times> kernel" where
  "krhino_sem_count_get sem count s =
     (if sem = NULL then (RHINO_NULL_PTR, s)
      else if count = NULL then (RHINO_NULL_PTR, s)
      else
        let cpsr = irq_off s;
            s = RHINO_CRITICAL_ENTER s;
            s = set_out count (sem_count (sems s sem)) s
        in (RHINO_SUCCESS, RHINO_CRITICAL_EXIT cpsr s))"

subsection \<open>Task semaphores\<close>

definition krhino_task_sem_create :: "ptr \<Rightarrow> ptr \<Rightarrow> ptr \<Rightarrow> nat \<Rightarrow> kernel \<Rightarrow> kstat_t \<times> kernel" where
  "krhino_task_sem_create task sem name count s =
     (if task = NULL then (RHINO_NULL_PTR, s)
      else
        let (ret, s) = krhino_sem_create sem name count s in
        (ret, upd_task task (\<lambda>k. k\<lparr>task_sem_obj := (if ret = RHINO_SUCCESS then sem else NULL)\<rparr>) s))"

definition krhino_task_sem_del :: "ptr \<Rightarrow> kernel \<Rightarrow> kstat_t \<times> kernel" where
  "krhino_task_sem_del task s =
     (if task = NULL then (RHINO_NULL_PTR, s) else krhino_sem_del (task_sem_obj (tasks s task)) s)"

definition krhino_task_sem_give :: "ptr \<Rightarrow> kernel \<Rightarrow> kstat_t \<times> kernel" where
  "krhino_task_sem_give task s =
     (if task = NULL then (RHINO_NULL_PTR, s) else krhino_sem_give (task_sem_obj (tasks s task)) s)"

definition krhino_task_sem_take :: "tick_t \<Rightarrow> kernel \<Rightarrow> kret \<times> kernel" where
  "krhino_task_sem_take ticks s =
     (let (task, s) = krhino_cur_task_get s
      in krhino_sem_take (task_sem_obj (tasks s task)) ticks s)"

definition krhino_task_sem_count_set :: "ptr \<Rightarrow> nat \<Rightarrow> kernel \<Rightarrow> kstat_t \<times> kernel" where
  "krhino_task_sem_count_set task count s =
     (if task = NULL then (RHINO_NULL_PTR, s)
      else krhino_sem_count_set (task_sem_obj (tasks s task)) count s)"

definition krhino_task_sem_count_get :: "ptr \<Rightarrow> ptr \<Rightarrow> kernel \<Rightarrow> kstat_t \<times> kernel" where
  "krhino_task_sem_count_get task count s =
     (if task = NULL then (RHINO_NULL_PTR, s)
      else krhino_sem_count_get (task_sem_obj (tasks s task)) count s)"

section \<open>Every call keeps the invariant\<close>

lemma sem_create_sysinv:
  assumes "sysinv s" and "sem \<noteq> NULL \<Longrightarrow> unused sem s"
  shows "sysinv (snd (sem_create sem name count flag s))"
proof (cases "sem = NULL \<or> name = NULL")
  case True
  then show ?thesis using assms(1) by (auto simp: sem_create_def)
next
  case False
  then have "unused sem s" using assms(2) by simp
  then show ?thesis
    using False assms(1)
    by (simp add: sem_create_def Let_def sysinv_unused unused_def is_mutex_def)
qed

lemma krhino_sem_del_sysinv:
  assumes i: "sysinv s" "callable s"
  shows "sysinv (snd (krhino_sem_del sem s))"
proof -
  have "presched (RHINO_CRITICAL_ENTER s)" using sysinv_presched [OF i] by simp
  note d = delete_wakes(1) [OF this, of sem]
  show ?thesis
    using i(1) d by (auto simp: krhino_sem_del_def Let_def is_mutex_def intro!: exit_sched_sysinv)
qed

lemma sem_give_sysinv:
  assumes i: "sysinv s" "callable s"
  shows "sysinv (snd (sem_give sem all s))"
proof (cases "obj_type (blks s sem) = RHINO_SEM_OBJ_TYPE")
  case False
  then show ?thesis using i(1) by (simp add: sem_give_def Let_def)
next
  case ty: True
  define sa where "sa = RHINO_CRITICAL_ENTER s"
  have p: "presched sa" "sysinv sa" "blks sa = blks s" "tasks sa = tasks s" "sems sa = sems s" "port sa = port s"
    using sysinv_presched [OF i] i(1) by (simp_all add: sa_def)
  have nm: "\<not> is_mutex sa sem" using ty by (simp add: is_mutex_def p)
  show ?thesis
  proof (cases "bl s sem")
    case Nil
    show ?thesis
      using Nil ty p(2) by (simp add: sem_give_def Let_def sa_def [symmetric] p sysinv_upd_sem)
  next
    case (Cons t ts)
    have t: "pended (st sa t)" "bo sa t = sem"
      using in_bl_iff [OF sysinv_blk_ok [OF p(2)], of t sem] Cons by (simp_all add: p)
    have "presched (wake_all pend_task_wakeup sem sa)" using wk.wake_all_effect [OF p(1) nm] by simp
    moreover have "presched (pend_task_wakeup t sa)" using t nm by (intro wk.wake_presched [OF p(1)]) simp_all
    ultimately show ?thesis
      using Cons ty by (simp add: sem_give_def Let_def sa_def [symmetric] p exit_sched_sysinv)
  qed
qed

lemma krhino_sem_give_sysinv:
  "sysinv s \<Longrightarrow> callable s \<Longrightarrow> sysinv (snd (krhino_sem_give sem s))"
  "sysinv s \<Longrightarrow> callable s \<Longrightarrow> sysinv (snd (krhino_sem_give_all sem s))"
  by (simp_all add: krhino_sem_give_def krhino_sem_give_all_def sem_give_sysinv)

lemma sem_dec_sysinv:
  assumes i: "sysinv s" and "obj_type (blks s sem) = RHINO_SEM_OBJ_TYPE" "0 < sem_count (sems s sem)"
  shows "bl s sem = []"
proof (rule ccontr)
  assume "bl s sem \<noteq> []"
  then obtain t where "t \<in> set (bl s sem)" by (cases "bl s sem") auto
  then have "pended (st s t)" "bo s t = sem" using in_bl_iff [OF sysinv_blk_ok [OF i]] by auto
  then show False using sysinvD(5) [OF i] assms(2,3) by (auto simp: no_lost_def avail_def)
qed

lemma krhino_sem_take_sysinv:
  assumes i: "sysinv s" "callable s" and "g_intrpt_nested_level s = 0 \<Longrightarrow> g_active_task s \<noteq> g_idle_task s"
  shows "sysinv (snd (krhino_sem_take sem ticks s))"
proof (cases "sem = NULL \<or> g_intrpt_nested_level s > 0 \<or> obj_type (blks s sem) \<noteq> RHINO_SEM_OBJ_TYPE")
  case True
  then show ?thesis using i(1) by (auto simp: krhino_sem_take_def Let_def)
next
  case False
  then have f: "sem \<noteq> NULL" "g_intrpt_nested_level s = 0" "obj_type (blks s sem) = RHINO_SEM_OBJ_TYPE"
    by (auto simp: word_gt_0)
  define sa where "sa = RHINO_CRITICAL_ENTER s"
  have p: "presched sa" "sysinv sa" using sysinv_presched [OF i] i(1) by (simp_all add: sa_def)
  have a: "st sa (g_active_task sa) = K_RDY" "g_active_task sa \<noteq> g_idle_task sa"
    using active_ready [OF sysinv_presched [OF i] f(2) i(1)] assms(3) [OF f(2)] by (simp_all add: sa_def)
  have "presched (pend_to_blk_obj sem (g_active_task sa) ticks sa)"
    if "sem_count (sems s sem) = 0" "g_sched_lock s = 0"
    using that f by (intro block_presched [OF p(1) a]) (simp_all add: is_mutex_def avail_def sa_def)
  then show ?thesis
    using f sem_dec_sysinv [OF i(1) f(3)] p(2) i(1)
    by (auto simp: krhino_sem_take_def Let_def sa_def [symmetric] intro!: exit_sched_sysinv sysinv_upd_sem)
      (simp_all add: sa_def word_gt_0)
qed

lemma krhino_sem_count_set_sysinv:
  assumes i: "sysinv s"
  shows "sysinv (snd (krhino_sem_count_set sem count s))"
proof -
  have "bl s sem = []" if "obj_type (blks s sem) = RHINO_SEM_OBJ_TYPE" "0 < sem_count (sems s sem)"
    by (rule sem_dec_sysinv [OF i that])
  then show ?thesis
    using i by (auto simp: krhino_sem_count_set_def Let_def intro!: sysinv_upd_sem)
qed

lemma krhino_sem_count_get_sysinv:
  "sysinv s \<Longrightarrow> sysinv (snd (krhino_sem_count_get sem count s))"
  by (simp add: krhino_sem_count_get_def Let_def)

end
