(* ===== verification/Event.thy ===== *)
theory Event
  imports Blocking
begin

text \<open>
  Event groups (\<^verbatim>\<open>k_event.c\<close>): tasks wait until all or some bits of a flag word are set.
  Setting flags wakes exactly the waiting tasks whose condition holds for the new flags,
  and no call leaves a task waiting for a condition that holds.
\<close>

unbundle bit_operations_syntax

section \<open>Model\<close>

definition event_create :: "ptr \<Rightarrow> ptr \<Rightarrow> 32 word \<Rightarrow> alloc_flag_t \<Rightarrow> kernel \<Rightarrow> kstat_t \<times> kernel" where
  "event_create event name flags flag s =
     (if event = NULL then (RHINO_NULL_PTR, s)
      else if name = NULL then (RHINO_NULL_PTR, s)
      else
        let s = upd_blk event (\<lambda>b. b\<lparr>blk_list := []\<rparr>) s;
            s = upd_blk event (\<lambda>b. b\<lparr>blk_policy := BLK_POLICY_PRI, obj_name := name\<rparr>) s;
            s = upd_event event (\<lambda>e. e\<lparr>event_flags := flags, event_alloc_flag := flag\<rparr>) s;
            cpsr = irq_off s;
            s = RHINO_CRITICAL_ENTER s;
            s = upd_kobj (\<lambda>g. g\<lparr>event_head := event_head g @ [event]\<rparr>) s;
            s = RHINO_CRITICAL_EXIT cpsr s;
            s = upd_blk event (\<lambda>b. b\<lparr>obj_type := RHINO_EVENT_OBJ_TYPE\<rparr>) s
        in (RHINO_SUCCESS, s))"

definition krhino_event_create :: "ptr \<Rightarrow> ptr \<Rightarrow> 32 word \<Rightarrow> kernel \<Rightarrow> kstat_t \<times> kernel" where
  "krhino_event_create event name flags s = event_create event name flags K_OBJ_STATIC_ALLOC s"

definition krhino_event_del :: "ptr \<Rightarrow> kernel \<Rightarrow> kstat_t \<times> kernel" where
  "krhino_event_del event s =
     (if event = NULL then (RHINO_NULL_PTR, s)
      else
        let cpsr = irq_off s;
            s = RHINO_CRITICAL_ENTER s in
        if g_intrpt_nested_level s > 0 then (RHINO_NOT_CALLED_BY_INTRPT, RHINO_CRITICAL_EXIT cpsr s)
        else if obj_type (blks s event) \<noteq> RHINO_EVENT_OBJ_TYPE
        then (RHINO_KOBJ_TYPE_ERR, RHINO_CRITICAL_EXIT cpsr s)
        else if event_alloc_flag (events s event) \<noteq> K_OBJ_STATIC_ALLOC
        then (RHINO_KOBJ_DEL_ERR, RHINO_CRITICAL_EXIT cpsr s)
        else
          let s = upd_blk event (\<lambda>b. b\<lparr>obj_type := RHINO_OBJ_TYPE_NONE\<rparr>) s;
              s = wake_all pend_task_rm event s;
              s = upd_event event (\<lambda>e. e\<lparr>event_flags := 0\<rparr>) s;
              s = upd_kobj (\<lambda>g. g\<lparr>event_head := remove1 event (event_head g)\<rparr>) s
          in (RHINO_SUCCESS, RHINO_CRITICAL_EXIT_SCHED cpsr s))"

definition krhino_event_get ::
  "ptr \<Rightarrow> 32 word \<Rightarrow> 8 word \<Rightarrow> ptr \<Rightarrow> tick_t \<Rightarrow> kernel \<Rightarrow> kret \<times> kernel" where
  "krhino_event_get event flags opt actl_flags ticks s =
     (if event = NULL then (Returned RHINO_NULL_PTR, s)
      else if actl_flags = NULL then (Returned RHINO_NULL_PTR, s)
      else if opt \<noteq> RHINO_AND \<and> opt \<noteq> RHINO_OR \<and> opt \<noteq> RHINO_AND_CLEAR \<and> opt \<noteq> RHINO_OR_CLEAR
      then (Returned RHINO_NO_THIS_EVENT_OPT, s)
      else
        let cpsr = irq_off s;
            s = RHINO_CRITICAL_ENTER s in
        if g_intrpt_nested_level s > 0
        then (Returned RHINO_NOT_CALLED_BY_INTRPT, RHINO_CRITICAL_EXIT cpsr s)
        else if obj_type (blks s event) \<noteq> RHINO_EVENT_OBJ_TYPE
        then (Returned RHINO_KOBJ_TYPE_ERR, RHINO_CRITICAL_EXIT cpsr s)
        else if event_match opt flags (event_flags (events s event)) then
          let s = set_out actl_flags (unat (event_flags (events s event))) s;
              s = (if opt AND RHINO_FLAGS_CLEAR_MASK \<noteq> 0
                   then upd_event event (\<lambda>e. e\<lparr>event_flags := event_flags e AND NOT flags\<rparr>) s else s)
          in (Returned RHINO_SUCCESS, RHINO_CRITICAL_EXIT cpsr s)
        else if ticks = RHINO_NO_WAIT then (Returned RHINO_NO_PEND_WAIT, RHINO_CRITICAL_EXIT cpsr s)
        else if g_sched_lock s > 0 then (Returned RHINO_SCHED_DISABLE, RHINO_CRITICAL_EXIT cpsr s)
        else
          let s = upd_task (g_active_task s)
                    (\<lambda>k. k\<lparr>pend_option := opt, pend_flags := flags, pend_info := actl_flags\<rparr>) s;
              s = pend_to_blk_obj event (g_active_task s) ticks s
          in (Blocked, RHINO_CRITICAL_EXIT_SCHED cpsr s))"

text \<open>
  The loop of \<^verbatim>\<open>event_set\<close> over the waiting tasks. It reads the next task before it wakes one,
  and a wake-up takes only the woken task off the list, so it visits the list as it was.
  Every task is tested against the flags as they were after setting.
\<close>

fun event_set_walk :: "ptr \<Rightarrow> 32 word \<Rightarrow> ptr list \<Rightarrow> kernel \<Rightarrow> kernel" where
  "event_set_walk event cur_event_flags [] s = s"
| "event_set_walk event cur_event_flags (task # iter) s =
     (let s =
        (if event_match (pend_option (tasks s task)) (pend_flags (tasks s task)) cur_event_flags then
           let s = set_out (pend_info (tasks s task)) (unat cur_event_flags) s;
               s = pend_task_wakeup task s
           in if pend_option (tasks s task) AND RHINO_FLAGS_CLEAR_MASK \<noteq> 0
              then upd_event event
                     (\<lambda>e. e\<lparr>event_flags := event_flags e AND NOT (pend_flags (tasks s task))\<rparr>) s
              else s
         else s)
      in event_set_walk event cur_event_flags iter s)"

definition event_set :: "ptr \<Rightarrow> 32 word \<Rightarrow> 8 word \<Rightarrow> kernel \<Rightarrow> kstat_t \<times> kernel" where
  "event_set event flags opt s =
     (let cpsr = irq_off s;
          s = RHINO_CRITICAL_ENTER s in
      if obj_type (blks s event) \<noteq> RHINO_EVENT_OBJ_TYPE
      then (RHINO_KOBJ_TYPE_ERR, RHINO_CRITICAL_EXIT cpsr s)
      else if opt AND RHINO_FLAGS_AND_MASK \<noteq> 0 then
        let s = upd_event event (\<lambda>e. e\<lparr>event_flags := event_flags e AND flags\<rparr>) s
        in (RHINO_SUCCESS, RHINO_CRITICAL_EXIT cpsr s)
      else
        let s = upd_event event (\<lambda>e. e\<lparr>event_flags := event_flags e OR flags\<rparr>) s;
            s = event_set_walk event (event_flags (events s event)) (blk_list (blks s event)) s
        in (RHINO_SUCCESS, RHINO_CRITICAL_EXIT_SCHED cpsr s))"

definition krhino_event_set :: "ptr \<Rightarrow> 32 word \<Rightarrow> 8 word \<Rightarrow> kernel \<Rightarrow> kstat_t \<times> kernel" where
  "krhino_event_set event flags opt s =
     (if event = NULL then (RHINO_NULL_PTR, s)
      else if opt \<noteq> RHINO_AND \<and> opt \<noteq> RHINO_OR then (RHINO_NO_THIS_EVENT_OPT, s)
      else event_set event flags opt s)"

section \<open>Conditions and flags\<close>

text \<open>A condition that does not hold still does not hold when flags are cleared.\<close>

lemma and_eq_iff: "(a AND b = b) \<longleftrightarrow> (\<forall>i. bit b i \<longrightarrow> bit a (i::nat))" for a b :: "'a::len word"
  by (auto simp: bit_eq_iff bit_and_iff dest: bit_imp_le_length)

lemma and_neq_zero_iff: "(a AND b \<noteq> 0) \<longleftrightarrow> (\<exists>i. bit a (i::nat) \<and> bit b i)" for a b :: "'a::len word"
  by (auto simp: bit_eq_iff bit_and_iff dest: bit_imp_le_length)

lemma event_match_mono:
  "event_match opt flags (cur AND m) \<Longrightarrow> event_match opt flags cur"
  by (auto simp: event_match_def and_eq_iff and_neq_zero_iff bit_and_iff split: if_splits)

section \<open>Every call keeps the invariant\<close>

lemma event_create_sysinv:
  assumes "sysinv s" and "event \<noteq> NULL \<Longrightarrow> unused event s"
  shows "sysinv (snd (event_create event name flags flag s))"
proof (cases "event = NULL \<or> name = NULL")
  case True
  then show ?thesis using assms(1) by (auto simp: event_create_def)
next
  case False
  then have "unused event s" using assms(2) by simp
  then show ?thesis
    using False assms(1)
    by (simp add: event_create_def Let_def sysinv_unused unused_def is_mutex_def)
qed

lemma presched_upd_event:
  assumes p: "presched s" and "no_lost (upd_event e f s)"
  shows "presched (upd_event e f s)"
  using assms by (simp add: presched_def)

lemma no_lost_clear:
  assumes "no_lost s" and "\<And>x. event_flags (f x) = event_flags x AND m"
  shows "no_lost (upd_event e f s)"
proof -
  have "avail (upd_event e f s) b k \<Longrightarrow> avail s b k" for b k
    by (cases "b = e") (auto simp: avail_def assms(2) dest: event_match_mono)
  then show ?thesis using assms(1) by (auto simp: no_lost_def)
qed

lemma krhino_event_del_sysinv:
  assumes i: "sysinv s" "callable s"
  shows "sysinv (snd (krhino_event_del event s))"
proof -
  have "presched (RHINO_CRITICAL_ENTER s)" using sysinv_presched [OF i] by simp
  note d = delete_wakes(1) [OF this, of event]
  have z: "presched (upd_event event (\<lambda>e. e\<lparr>event_flags := 0\<rparr>) sa)" if "presched sa" for sa
    by (rule presched_upd_event [OF that]) (rule no_lost_clear [OF preschedD(5) [OF that], where m = 0], simp)
  show ?thesis
    using i(1) d z by (auto simp: krhino_event_del_def Let_def is_mutex_def intro!: exit_sched_sysinv)
qed

lemma krhino_event_get_sysinv:
  assumes i: "sysinv s" "callable s" and "g_intrpt_nested_level s = 0 \<Longrightarrow> g_active_task s \<noteq> g_idle_task s"
  shows "sysinv (snd (krhino_event_get event flags opt actl ticks s))"
proof (cases "event = NULL \<or> actl = NULL \<or> opt \<noteq> RHINO_AND \<and> opt \<noteq> RHINO_OR \<and> opt \<noteq> RHINO_AND_CLEAR \<and> opt \<noteq> RHINO_OR_CLEAR
    \<or> g_intrpt_nested_level s > 0 \<or> obj_type (blks s event) \<noteq> RHINO_EVENT_OBJ_TYPE")
  case True
  then show ?thesis using i(1) by (auto simp: krhino_event_get_def Let_def)
next
  case False
  then have f: "event \<noteq> NULL" "actl \<noteq> NULL" "opt = RHINO_AND \<or> opt = RHINO_OR \<or> opt = RHINO_AND_CLEAR \<or> opt = RHINO_OR_CLEAR"
    "g_intrpt_nested_level s = 0" "obj_type (blks s event) = RHINO_EVENT_OBJ_TYPE"
    by (auto simp: word_gt_0)
  define sa where "sa = RHINO_CRITICAL_ENTER s"
  have p: "presched sa" "sysinv sa" using sysinv_presched [OF i] i(1) by (simp_all add: sa_def)
  define t where "t = g_active_task sa"
  have a: "st sa t = K_RDY" "t \<noteq> g_idle_task sa"
    using active_ready [OF sysinv_presched [OF i] f(4) i(1)] assms(3) [OF f(4)] by (simp_all add: sa_def t_def)
  define sb where "sb = upd_task t (\<lambda>k. k\<lparr>pend_option := opt, pend_flags := flags, pend_info := actl\<rparr>) sa"
  have "kinv sb" unfolding sb_def using preschedD(1) [OF p(1)] by (intro kinv_upd_field) (simp_all add: task_view_def)
  then have pb: "presched sb" unfolding sb_def using a by (intro upd_task_presched [OF p(1)]) simp_all
  have wait: "presched (pend_to_blk_obj event t ticks sb)"
    if "\<not> event_match opt flags (event_flags (events s event))" "g_sched_lock s = 0"
  proof (rule block_presched [OF pb])
    show "\<not> avail sb event (tasks sb t)" using that(1) f(5) by (simp add: avail_def sb_def sa_def)
  qed (use f a that in \<open>simp_all add: sb_def is_mutex_def sa_def\<close>)
  have "sysinv (upd_event event (\<lambda>e. e\<lparr>event_flags := event_flags e AND NOT flags\<rparr>) (set_out actl v sa))" for v
  proof (rule sysinv_fields [where s = "set_out actl v sa"])
    have "no_lost (set_out actl v sa)" using p(2) sysinvD(5) [of "set_out actl v sa"] by simp
    then show "no_lost (upd_event event (\<lambda>e. e\<lparr>event_flags := event_flags e AND NOT flags\<rparr>) (set_out actl v sa))"
      by (rule no_lost_clear) simp
  qed (use p(2) in \<open>simp_all\<close>, simp_all add: upd_event_def)
  moreover have "blks sa = blks s" "events sa = events s" "g_sched_lock sa = g_sched_lock s"
    "g_intrpt_nested_level sa = g_intrpt_nested_level s" "g_active_task sb = g_active_task sa"
    by (simp_all add: sa_def sb_def)
  ultimately show ?thesis
    using f wait p(2)
    by (auto simp: krhino_event_get_def Let_def sa_def [symmetric] t_def [symmetric] sb_def [symmetric] word_gt_0
        intro!: exit_sched_sysinv simp del: de_Morgan_disj)
qed

section \<open>Setting flags\<close>

text \<open>
  The walk over the waiting tasks: those whose condition holds for the new flags are woken
  and get the flags, the others are left alone.
\<close>

lemma set_out_sel2 [simp]:
  "env (set_out p v s) = env (s\<lparr>outs := (outs s)(p := v)\<rparr>)" "presched0 (set_out p v s) = presched0 s"
  "is_mutex (set_out p v s) b = is_mutex s b" "events (set_out p v s) = events s"
  "no_lost (set_out p v s) = no_lost s" "sems (set_out p v s) = sems s"
  by (simp_all add: set_out_def presched0_def no_fatal_def callable_def is_mutex_def)

definition matches :: "kernel \<Rightarrow> 32 word \<Rightarrow> ptr \<Rightarrow> bool" where
  "matches s cur t = event_match (pend_option (tasks s t)) (pend_flags (tasks s t)) cur"

lemma wakeup_pend [simp]:
  "pend_option (tasks (pend_task_wakeup t s) u) = pend_option (tasks s u)"
  "pend_flags (tasks (pend_task_wakeup t s) u) = pend_flags (tasks s u)"
  by (simp_all add: pend_task_wakeup_def Let_def split: task_stat_t.splits)

lemma event_set_walk_effect:
  fixes cur
  assumes "presched0 s" and "obj_type (blks s e) = RHINO_EVENT_OBJ_TYPE"
    and "distinct xs" and "set xs \<subseteq> set (bl s e)"
  defines "s' \<equiv> event_set_walk e cur xs s"
  shows "presched0 s' \<and> (\<forall>o'. obj_type (blks s' o') = obj_type (blks s o')) \<and>
    (\<forall>o'. o' \<noteq> e \<longrightarrow> events s' o' = events s o') \<and> (\<exists>m. event_flags (events s' e) = event_flags (events s e) AND m) \<and>
    sems s' = sems s \<and> queues s' = queues s \<and> buf_queues s' = buf_queues s \<and>
    (\<forall>u. if u \<in> set xs \<and> matches s cur u
       then st s' u = woken (st s u) \<and> blk_state (tasks s' u) = BLK_FINISH
       else tasks s' u = tasks s u)"
  using assms(1-4) unfolding s'_def
proof (induction xs arbitrary: s)
  case Nil
  have "\<exists>m. event_flags (events s e) = event_flags (events s e) AND m" by (rule exI [of _ "- 1"]) simp
  then show ?case using Nil by simp
next
  case (Cons t xs)
  show ?case
  proof (cases "matches s cur t")
    case False
    then show ?thesis
      using Cons.IH [OF Cons.prems(1,2)] Cons.prems(3,4)
      by (auto simp: matches_def)
  next
    case True
    define sa where "sa = set_out (pend_info (tasks s t)) (unat cur) s"
    have sa: "presched0 sa" "tasks sa = tasks s" "blks sa = blks s" "core_ok sa" "events sa = events s"
      "\<not> is_mutex sa e" "sems sa = sems s" "queues sa = queues s" "buf_queues sa = buf_queues s"
      using Cons.prems(1,2) by (simp_all add: sa_def is_mutex_def)
        (simp_all add: presched0_def kinv_def set_out_def)
    have t: "pended (st sa t)" "bo sa t = e"
      using Cons.prems(4) in_bl_iff [OF core_okD(3) [OF sa(4)], of t e] by (simp_all add: sa)
    note g = wk.wake_goes [OF sa(4) t(1)]
    define sb where "sb = (if pend_option (tasks s t) AND RHINO_FLAGS_CLEAR_MASK \<noteq> 0
      then upd_event e (\<lambda>x. x\<lparr>event_flags := event_flags x AND NOT (pend_flags (tasks s t))\<rparr>) (pend_task_wakeup t sa)
      else pend_task_wakeup t sa)"
    have r: "event_set_walk e cur (t # xs) s = event_set_walk e cur xs sb"
      using True by (simp add: matches_def sa_def [symmetric] sb_def Let_def) (simp add: sa)
    have p0: "presched0 (pend_task_wakeup t sa)" using t sa(6) by (intro wk.wake_presched0 [OF sa(1)]) simp_all
    have pb: "presched0 sb" "tasks sb = tasks (pend_task_wakeup t sa)" "blks sb = blks (pend_task_wakeup t sa)"
      using p0 by (simp_all add: sb_def)
    note ev = env_sel [OF goesD(1) [OF g]]
    have eb: "o' \<noteq> e \<Longrightarrow> events sb o' = events s o'" "\<exists>m. event_flags (events sb e) = event_flags (events s e) AND m"
      "sems sb = sems s" "queues sb = queues s" "buf_queues sb = buf_queues s" for o'
      using ev(8-11) sa(5,7-9) by (auto simp: sb_def intro: exI [of _ "- 1"])
    have l: "set xs \<subseteq> set (bl sb e)"
    proof
      fix x assume "x \<in> set xs"
      then have "x \<noteq> t" "x \<in> set (bl s e)" using Cons.prems(3,4) by auto
      then show "x \<in> set (bl sb e)" using goesD(13) [OF g, of e] by (simp add: pb sa)
    qed
    have o: "obj_type (blks sb o') = obj_type (blks s o')" for o' using goesD(11) [OF g] by (simp add: pb sa)
    define s'' where "s'' = event_set_walk e cur xs sb"
    have ih: "presched0 s'' \<and> (\<forall>o'. obj_type (blks s'' o') = obj_type (blks sb o')) \<and>
      (\<forall>o'. o' \<noteq> e \<longrightarrow> events s'' o' = events sb o') \<and> (\<exists>m. event_flags (events s'' e) = event_flags (events sb e) AND m) \<and>
      sems s'' = sems sb \<and> queues s'' = queues sb \<and> buf_queues s'' = buf_queues sb \<and>
      (\<forall>u. if u \<in> set xs \<and> matches sb cur u
         then st s'' u = woken (st sb u) \<and> blk_state (tasks s'' u) = BLK_FINISH
         else tasks s'' u = tasks sb u)"
      unfolding s''_def by (rule Cons.IH [OF pb(1) _ _ l]) (use Cons.prems(2,3) o in simp_all)
    have tt: "tasks sb u = tasks s u" if "u \<noteq> t" for u using that goesD(5) [OF g] by (simp add: pb sa)
    have tw: "st sb t = woken (st s t)" "blk_state (tasks sb t) = BLK_FINISH"
      using goesD(9) [OF g] wk.wake_result [OF sa(4) t(1)] by (simp_all add: pb sa)
    have m: "matches sb cur u = matches s cur u" if "u \<noteq> t" for u using tt [OF that] by (simp add: matches_def)
    have "if u \<in> set (t # xs) \<and> matches s cur u
       then st s'' u = woken (st s u) \<and> blk_state (tasks s'' u) = BLK_FINISH
       else tasks s'' u = tasks s u" for u
    proof (cases "u = t")
      case True
      then show ?thesis using \<open>matches s cur t\<close> ih Cons.prems(3) tw by auto
    next
      case False
      have "if u \<in> set xs \<and> matches sb cur u
         then st s'' u = woken (st sb u) \<and> blk_state (tasks s'' u) = BLK_FINISH
         else tasks s'' u = tasks sb u" using ih by blast
      then show ?thesis using False tt [OF False] m [OF False] by simp
    qed
    moreover have "\<exists>m. event_flags (events s'' e) = event_flags (events s e) AND m"
      using ih eb(2) by (metis and.assoc)
    ultimately show ?thesis
      unfolding r s''_def [symmetric] using ih o eb(1,3-5) by simp
  qed
qed

text \<open>
  The walk wakes the tasks whose condition holds for the flags at its start, and no task is
  left that waits for flags the group has.
\<close>

lemma event_set_walk_no_lost:
  fixes flags :: "32 word"
  assumes p: "presched s" and ty: "obj_type (blks s e) = RHINO_EVENT_OBJ_TYPE"
  defines "sb \<equiv> upd_event e (\<lambda>k. k\<lparr>event_flags := event_flags k OR flags\<rparr>) s"
  defines "cur \<equiv> event_flags (events s e) OR flags"
  defines "sc \<equiv> event_set_walk e cur (bl s e) sb"
  shows "presched sc"
    and "u \<in> set (bl s e) \<Longrightarrow> matches s cur u \<Longrightarrow> st sc u = woken (st s u) \<and> blk_state (tasks sc u) = BLK_FINISH"
    and "\<not> (u \<in> set (bl s e) \<and> matches s cur u) \<Longrightarrow> tasks sc u = tasks s u"
proof -
  note c = kinvD(1) [OF preschedD(1) [OF p]]
  have sb: "presched0 sb" "blks sb = blks s" "tasks sb = tasks s" "event_flags (events sb e) = cur"
    using preschedD(6) [OF p] by (simp_all add: sb_def cur_def)
  have d: "distinct (bl s e)" using core_okD(3) [OF c] by (simp add: blk_ok_def)
  have mt: "matches sb cur v = matches s cur v" for v by (simp add: matches_def sb)
  have w: "presched0 sc \<and> (\<forall>o'. obj_type (blks sc o') = obj_type (blks sb o')) \<and>
    (\<forall>o'. o' \<noteq> e \<longrightarrow> events sc o' = events sb o') \<and> (\<exists>m. event_flags (events sc e) = event_flags (events sb e) AND m) \<and>
    sems sc = sems sb \<and> queues sc = queues sb \<and> buf_queues sc = buf_queues sb \<and>
    (\<forall>u. if u \<in> set (bl s e) \<and> matches sb cur u
       then st sc u = woken (st sb u) \<and> blk_state (tasks sc u) = BLK_FINISH
       else tasks sc u = tasks sb u)"
    unfolding sc_def using ty by (intro event_set_walk_effect [OF sb(1) _ d]) (simp_all add: sb)
  have wu: "if v \<in> set (bl s e) \<and> matches s cur v then st sc v = woken (st s v) \<and> blk_state (tasks sc v) = BLK_FINISH
     else tasks sc v = tasks s v" for v using w by (simp add: mt sb)
  then show "u \<in> set (bl s e) \<Longrightarrow> matches s cur u \<Longrightarrow> st sc u = woken (st s u) \<and> blk_state (tasks sc u) = BLK_FINISH"
    and "\<not> (u \<in> set (bl s e) \<and> matches s cur u) \<Longrightarrow> tasks sc u = tasks s u" by metis+
  have "\<not> avail sc (bo sc t) (tasks sc t)" if t: "pended (st sc t)" for t
  proof -
    have "\<not> pended (woken x)" for x by (simp add: woken_def)
    then have u: "\<not> (t \<in> set (bl s e) \<and> matches s cur t)" "tasks sc t = tasks s t"
      using t wu [of t] by (auto split: if_splits)
    obtain m where m: "event_flags (events sc e) = cur AND m" using w by (auto simp: sb)
    have "\<not> avail sc (bo s t) (tasks s t)"
    proof (cases "bo s t = e")
      case True
      then have "\<not> matches s cur t" using u in_bl_iff [OF core_okD(3) [OF c], of t e] t by auto
      then show ?thesis using True ty w m event_match_mono [of _ _ cur m] by (auto simp: avail_def sb matches_def)
    next
      case False
      then have "avail sc (bo s t) (tasks s t) = avail s (bo s t) (tasks s t)"
        using w by (intro avail_cong) (simp_all add: sb_def)
      then show ?thesis using t preschedD(5) [OF p] by (auto simp: no_lost_def u(2))
    qed
    then show ?thesis by (simp add: u(2))
  qed
  then show "presched sc" using w by (simp add: presched_def no_lost_def)
qed

lemma event_set_or:
  assumes "obj_type (blks s e) = RHINO_EVENT_OBJ_TYPE" and "opt AND RHINO_FLAGS_AND_MASK = 0"
  shows "event_set e flags opt s = (RHINO_SUCCESS, RHINO_CRITICAL_EXIT_SCHED (irq_off s)
    (event_set_walk e (event_flags (events s e) OR flags) (bl s e)
      (upd_event e (\<lambda>k. k\<lparr>event_flags := event_flags k OR flags\<rparr>) (RHINO_CRITICAL_ENTER s))))"
  using assms by (simp add: event_set_def Let_def)

lemma event_set_sysinv:
  assumes i: "sysinv s" "callable s"
  shows "sysinv (snd (event_set event flags opt s))"
proof (cases "obj_type (blks s event) = RHINO_EVENT_OBJ_TYPE")
  case False
  then show ?thesis using i(1) by (simp add: event_set_def Let_def)
next
  case ty: True
  define sa where "sa = RHINO_CRITICAL_ENTER s"
  have p: "presched sa" "sysinv sa" "blks sa = blks s" "events sa = events s"
    using sysinv_presched [OF i] i(1) by (simp_all add: sa_def)
  show ?thesis
  proof (cases "opt AND RHINO_FLAGS_AND_MASK \<noteq> 0")
    case True
    have "sysinv (upd_event event (\<lambda>e. e\<lparr>event_flags := event_flags e AND flags\<rparr>) sa)"
      by (rule sysinv_fields [OF p(2)], rule no_lost_clear [OF sysinvD(5) [OF p(2)]])
        (simp_all, simp_all add: upd_event_def)
    then show ?thesis using True ty by (simp add: event_set_def Let_def sa_def)
  next
    case False
    then show ?thesis
      using event_set_walk_no_lost(1) [OF p(1), of event flags] ty
      by (simp add: event_set_or sa_def [symmetric] p exit_sched_sysinv)
  qed
qed

lemma krhino_event_set_sysinv:
  "sysinv s \<Longrightarrow> callable s \<Longrightarrow> sysinv (snd (krhino_event_set event flags opt s))"
  by (simp add: krhino_event_set_def event_set_sysinv)

end
