(* ===== verification/Queue.thy ===== *)
theory Queue
  imports Blocking
begin

text \<open>
  Message queues (\<^verbatim>\<open>k_queue.c\<close>): a queue of pointers in a ring buffer of fixed-size blocks. A
  message goes straight to a waiting task when there is one, so tasks wait only while the
  queue is empty. The variable behind the argument \<^verbatim>\<open>msg\<close> of \<^verbatim>\<open>krhino_queue_recv\<close> is four
  bytes of memory, in the little-endian order of the default configuration.
\<close>

section \<open>Pointers in memory\<close>

definition ptr_byte :: "ptr \<Rightarrow> nat \<Rightarrow> byte" where
  "ptr_byte p i = ucast (drop_bit (8 * i) p)"

definition store_ptr :: "memory \<Rightarrow> nat \<Rightarrow> ptr \<Rightarrow> memory" where
  "store_ptr m a p = memcpy m a (ptr_byte p) 4"

section \<open>Model\<close>

definition task_msg_recv :: "ptr \<Rightarrow> ptr \<Rightarrow> kernel \<Rightarrow> kernel" where
  "task_msg_recv m task s =
     (let s = upd_task task (\<lambda>k. k\<lparr>msg := m\<rparr>) s
      in pend_task_wakeup task s)"

definition queue_create :: "ptr \<Rightarrow> ptr \<Rightarrow> ptr \<Rightarrow> nat \<Rightarrow> alloc_flag_t \<Rightarrow> kernel \<Rightarrow> kstat_t \<times> kernel" where
  "queue_create queue name start msg_num flag s =
     (if queue = NULL then (RHINO_NULL_PTR, s)
      else if start = NULL then (RHINO_NULL_PTR, s)
      else if name = NULL then (RHINO_NULL_PTR, s)
      else if msg_num = 0 then (RHINO_INV_PARAM, s)
      else
        let s = upd_blk queue (\<lambda>b. b\<lparr>blk_list := []\<rparr>) s;
            s = upd_blk queue (\<lambda>b. b\<lparr>obj_name := name, blk_policy := BLK_POLICY_PRI\<rparr>) s;
            s = upd_queue queue (\<lambda>q. q\<lparr>msg_q := (msg_q q)\<lparr>queue_start := start\<rparr>\<rparr>) s;
            s = upd_queue queue (\<lambda>q. q\<lparr>q_ringbuf :=
                  ringbuf_init (q_ringbuf q) (unat start) (msg_num * 4 mod 2 ^ 32) RINGBUF_TYPE_FIX 4\<rparr>) s;
            s = upd_queue queue (\<lambda>q. q\<lparr>msg_q := (msg_q q)\<lparr>msg_size := msg_num, cur_num := 0, peak_num := 0\<rparr>,
                  queue_alloc_flag := flag\<rparr>) s;
            cpsr = irq_off s;
            s = RHINO_CRITICAL_ENTER s;
            s = upd_kobj (\<lambda>g. g\<lparr>queue_head := queue_head g @ [queue]\<rparr>) s;
            s = RHINO_CRITICAL_EXIT cpsr s;
            s = upd_blk queue (\<lambda>b. b\<lparr>obj_type := RHINO_QUEUE_OBJ_TYPE\<rparr>) s
        in (RHINO_SUCCESS, s))"

definition krhino_queue_create :: "ptr \<Rightarrow> ptr \<Rightarrow> ptr \<Rightarrow> nat \<Rightarrow> kernel \<Rightarrow> kstat_t \<times> kernel" where
  "krhino_queue_create queue name start msg_num s =
     queue_create queue name start msg_num K_OBJ_STATIC_ALLOC s"

definition krhino_queue_del :: "ptr \<Rightarrow> kernel \<Rightarrow> kstat_t \<times> kernel" where
  "krhino_queue_del queue s =
     (if queue = NULL then (RHINO_NULL_PTR, s)
      else
        let cpsr = irq_off s;
            s = RHINO_CRITICAL_ENTER s in
        if g_intrpt_nested_level s > 0 then (RHINO_NOT_CALLED_BY_INTRPT, RHINO_CRITICAL_EXIT cpsr s)
        else if obj_type (blks s queue) \<noteq> RHINO_QUEUE_OBJ_TYPE
        then (RHINO_KOBJ_TYPE_ERR, RHINO_CRITICAL_EXIT cpsr s)
        else if queue_alloc_flag (queues s queue) \<noteq> K_OBJ_STATIC_ALLOC
        then (RHINO_KOBJ_DEL_ERR, RHINO_CRITICAL_EXIT cpsr s)
        else
          let s = upd_blk queue (\<lambda>b. b\<lparr>obj_type := RHINO_OBJ_TYPE_NONE\<rparr>) s;
              s = wake_all pend_task_rm queue s;
              s = upd_kobj (\<lambda>g. g\<lparr>queue_head := remove1 queue (queue_head g)\<rparr>) s;
              s = upd_queue queue (\<lambda>q. q\<lparr>q_ringbuf := ringbuf_reset (q_ringbuf q)\<rparr>) s
          in (RHINO_SUCCESS, RHINO_CRITICAL_EXIT_SCHED cpsr s))"

definition msg_send :: "ptr \<Rightarrow> ptr \<Rightarrow> bool \<Rightarrow> kernel \<Rightarrow> kstat_t \<times> kernel" where
  "msg_send p_q p_void opt_wake_all s =
     (if p_q = NULL then (RHINO_NULL_PTR, s)
      else
        let cpsr = irq_off s;
            s = RHINO_CRITICAL_ENTER s in
        if obj_type (blks s p_q) \<noteq> RHINO_QUEUE_OBJ_TYPE
        then (RHINO_KOBJ_TYPE_ERR, RHINO_CRITICAL_EXIT cpsr s)
        else if cur_num (msg_q (queues s p_q)) \<ge> msg_size (msg_q (queues s p_q))
        then (RHINO_QUEUE_FULL, RHINO_CRITICAL_EXIT cpsr s)
        else
          (case blk_list (blks s p_q) of
             [] \<Rightarrow>
               let s = upd_queue p_q (\<lambda>q. q\<lparr>msg_q := (msg_q q)\<lparr>cur_num := cur_num (msg_q q) + 1\<rparr>\<rparr>) s;
                   s = (if cur_num (msg_q (queues s p_q)) > peak_num (msg_q (queues s p_q))
                        then upd_queue p_q (\<lambda>q. q\<lparr>msg_q := (msg_q q)\<lparr>peak_num := cur_num (msg_q q)\<rparr>\<rparr>) s
                        else s);
                   (err, rb, m) = ringbuf_push (q_ringbuf (queues s p_q)) (mem s) (ptr_byte p_void) 4;
                   s = upd_queue p_q (\<lambda>q. q\<lparr>q_ringbuf := rb\<rparr>) s;
                   s = s\<lparr>mem := m\<rparr>
               in (RHINO_SUCCESS, RHINO_CRITICAL_EXIT cpsr s)
           | task # _ \<Rightarrow>
               let s = (if opt_wake_all then wake_all (task_msg_recv p_void) p_q s
                        else task_msg_recv p_void task s)
               in (RHINO_SUCCESS, RHINO_CRITICAL_EXIT_SCHED cpsr s)))"

definition krhino_queue_back_send :: "ptr \<Rightarrow> ptr \<Rightarrow> kernel \<Rightarrow> kstat_t \<times> kernel" where
  "krhino_queue_back_send queue m s = msg_send queue m False s"

definition krhino_queue_all_send :: "ptr \<Rightarrow> ptr \<Rightarrow> kernel \<Rightarrow> kstat_t \<times> kernel" where
  "krhino_queue_all_send queue m s = msg_send queue m True s"

definition krhino_queue_recv :: "ptr \<Rightarrow> tick_t \<Rightarrow> ptr \<Rightarrow> kernel \<Rightarrow> kret \<times> kernel" where
  "krhino_queue_recv queue ticks m s =
     (if queue = NULL then (Returned RHINO_NULL_PTR, s)
      else if m = NULL then (Returned RHINO_NULL_PTR, s)
      else
        let cpsr = irq_off s;
            s = RHINO_CRITICAL_ENTER s in
        if g_intrpt_nested_level s > 0 \<and> ticks \<noteq> RHINO_NO_WAIT
        then (Returned RHINO_NOT_CALLED_BY_INTRPT, RHINO_CRITICAL_EXIT cpsr s)
        else if obj_type (blks s queue) \<noteq> RHINO_QUEUE_OBJ_TYPE
        then (Returned RHINO_KOBJ_TYPE_ERR, RHINO_CRITICAL_EXIT cpsr s)
        else if cur_num (msg_q (queues s queue)) > 0 then
          let (err, rb, bs) = ringbuf_pop (q_ringbuf (queues s queue)) (mem s);
              s = upd_queue queue (\<lambda>q. q\<lparr>q_ringbuf := rb\<rparr>) s;
              s = s\<lparr>mem := memcpy (mem s) (unat m) (nth bs) (length bs)\<rparr>;
              s = upd_queue queue (\<lambda>q. q\<lparr>msg_q := (msg_q q)\<lparr>cur_num := cur_num (msg_q q) - 1\<rparr>\<rparr>) s
          in (Returned RHINO_SUCCESS, RHINO_CRITICAL_EXIT cpsr s)
        else if ticks = RHINO_NO_WAIT then
          let s = s\<lparr>mem := store_ptr (mem s) (unat m) NULL\<rparr>
          in (Returned RHINO_NO_PEND_WAIT, RHINO_CRITICAL_EXIT cpsr s)
        else if g_sched_lock s > 0 then
          let s = s\<lparr>mem := store_ptr (mem s) (unat m) NULL\<rparr>
          in (Returned RHINO_SCHED_DISABLE, RHINO_CRITICAL_EXIT cpsr s)
        else
          let s = pend_to_blk_obj queue (g_active_task s) ticks s
          in (Blocked, RHINO_CRITICAL_EXIT_SCHED cpsr s))"

text \<open>The rest of \<^verbatim>\<open>krhino_queue_recv\<close>, when the task runs again.\<close>

definition krhino_queue_recv_resume :: "ptr \<Rightarrow> kernel \<Rightarrow> kstat_t \<times> kernel" where
  "krhino_queue_recv_resume m s =
     (let cpsr = irq_off s;
          s = RHINO_CRITICAL_ENTER s;
          (ret, s) = pend_state_end_proc (g_active_task s) s;
          v = (if ret = RHINO_SUCCESS then msg (tasks s (g_active_task s)) else NULL);
          s = s\<lparr>mem := store_ptr (mem s) (unat m) v\<rparr>
      in (ret, RHINO_CRITICAL_EXIT cpsr s))"

definition krhino_queue_is_full :: "ptr \<Rightarrow> kernel \<Rightarrow> kstat_t \<times> kernel" where
  "krhino_queue_is_full queue s =
     (if queue = NULL then (RHINO_NULL_PTR, s)
      else
        let cpsr = irq_off s;
            s = RHINO_CRITICAL_ENTER s in
        if obj_type (blks s queue) \<noteq> RHINO_QUEUE_OBJ_TYPE
        then (RHINO_KOBJ_TYPE_ERR, RHINO_CRITICAL_EXIT cpsr s)
        else
          let ret = (if cur_num (msg_q (queues s queue)) \<ge> msg_size (msg_q (queues s queue))
                     then RHINO_QUEUE_FULL else RHINO_QUEUE_NOT_FULL)
          in (ret, RHINO_CRITICAL_EXIT cpsr s))"

definition krhino_queue_flush :: "ptr \<Rightarrow> kernel \<Rightarrow> kstat_t \<times> kernel" where
  "krhino_queue_flush queue s =
     (if queue = NULL then (RHINO_NULL_PTR, s)
      else
        let cpsr = irq_off s;
            s = RHINO_CRITICAL_ENTER s in
        if g_intrpt_nested_level s > 0 then (RHINO_NOT_CALLED_BY_INTRPT, RHINO_CRITICAL_EXIT cpsr s)
        else if obj_type (blks s queue) \<noteq> RHINO_QUEUE_OBJ_TYPE
        then (RHINO_KOBJ_TYPE_ERR, RHINO_CRITICAL_EXIT cpsr s)
        else
          let s = upd_queue queue (\<lambda>q. q\<lparr>msg_q := (msg_q q)\<lparr>cur_num := 0\<rparr>\<rparr>) s;
              s = upd_queue queue (\<lambda>q. q\<lparr>q_ringbuf := ringbuf_reset (q_ringbuf q)\<rparr>) s
          in (RHINO_SUCCESS, RHINO_CRITICAL_EXIT cpsr s))"

text \<open>
  The members of \<^verbatim>\<open>msg_info_t\<close> are written at their offsets; \<^verbatim>\<open>pend_entry\<close> is the first waiting
  task, or the queue itself, where the list of the queue is empty.
\<close>

definition krhino_queue_info_get :: "ptr \<Rightarrow> ptr \<Rightarrow> kernel \<Rightarrow> kstat_t \<times> kernel" where
  "krhino_queue_info_get queue info s =
     (if queue = NULL then (RHINO_NULL_PTR, s)
      else if info = NULL then (RHINO_NULL_PTR, s)
      else
        let cpsr = irq_off s;
            s = RHINO_CRITICAL_ENTER s in
        if obj_type (blks s queue) \<noteq> RHINO_QUEUE_OBJ_TYPE
        then (RHINO_KOBJ_TYPE_ERR, RHINO_CRITICAL_EXIT cpsr s)
        else
          let q = msg_q (queues s queue);
              s = set_out (info + 12) (peak_num q) s;
              s = set_out (info + 8) (cur_num q) s;
              s = set_out info (unat (queue_start q)) s;
              s = set_out (info + 4) (msg_size q) s;
              s = set_out (info + 16)
                    (unat (case blk_list (blks s queue) of [] \<Rightarrow> queue | task # _ \<Rightarrow> task)) s
          in (RHINO_SUCCESS, RHINO_CRITICAL_EXIT cpsr s))"

section \<open>Every call keeps the invariant\<close>

lemma task_msg_recv_goes:
  assumes c: "core_ok s" and t: "pended (st s t)"
  shows "goes t (woken (st s t)) s (task_msg_recv m t s)"
    and "msg (tasks (task_msg_recv m t s) t) = m" and "blk_state (tasks (task_msg_recv m t s) t) = BLK_FINISH"
proof -
  let ?s = "upd_task t (\<lambda>k. k\<lparr>msg := m\<rparr>) s"
  have "core_ok ?s"
    using c core_ok_active [OF c] core_okD(5) [OF c]
    by (intro core_ok_cong [OF c]) (auto simp: task_view_def same_class_def task_ok_def split: if_splits)
  from pend_task_wakeup_goes [OF this, of t] t
  have g: "goes t (woken (st s t)) ?s (task_msg_recv m t s)" by (simp add: task_msg_recv_def)
  then show "goes t (woken (st s t)) s (task_msg_recv m t s)"
    by (auto simp: goes_def ready_placed_def same_links_def upd_task_env)
  show "msg (tasks (task_msg_recv m t s) t) = m"
    using t by (cases rule: pended_cases) (simp_all add: task_msg_recv_def pend_task_wakeup_def Let_def)
  show "blk_state (tasks (task_msg_recv m t s) t) = BLK_FINISH"
    by (simp add: task_msg_recv_def pend_task_wakeup_def Let_def)
qed

interpretation mr: waker "task_msg_recv m" BLK_FINISH for m
  by unfold_locales (erule (1) task_msg_recv_goes)+

lemma queue_create_sysinv:
  assumes "sysinv s" and "queue \<noteq> NULL \<Longrightarrow> unused queue s"
  shows "sysinv (snd (queue_create queue name start num flag s))"
proof (cases "queue = NULL \<or> start = NULL \<or> name = NULL \<or> num = 0")
  case True
  then show ?thesis using assms(1) by (auto simp: queue_create_def)
next
  case False
  then have "unused queue s" using assms(2) by simp
  then show ?thesis
    using False assms(1)
    by (simp add: queue_create_def Let_def sysinv_unused unused_def is_mutex_def)
qed

lemma presched_upd_queue_none:
  "presched s \<Longrightarrow> obj_type (blks s q) \<noteq> RHINO_QUEUE_OBJ_TYPE \<Longrightarrow> presched (upd_queue q f s)"
  by (auto simp: presched_def no_lost_def avail_def)

lemma krhino_queue_del_sysinv:
  assumes i: "sysinv s" "callable s"
  shows "sysinv (snd (krhino_queue_del queue s))"
proof -
  have "presched (RHINO_CRITICAL_ENTER s)" using sysinv_presched [OF i] by simp
  note d = delete_wakes(1,4) [OF this, of queue]
  show ?thesis
    using i(1) d by (auto simp: krhino_queue_del_def Let_def is_mutex_def
        intro!: exit_sched_sysinv presched_upd_queue_none)
qed

lemma queue_empty_waiting:
  assumes i: "sysinv s" and "obj_type (blks s q) = RHINO_QUEUE_OBJ_TYPE" "0 < cur_num (msg_q (queues s q))"
  shows "bl s q = []"
proof (rule ccontr)
  assume "bl s q \<noteq> []"
  then obtain t where "t \<in> set (bl s q)" by (cases "bl s q") auto
  then have "pended (st s t)" "bo s t = q" using in_bl_iff [OF sysinv_blk_ok [OF i]] by auto
  then show False using sysinvD(5) [OF i] assms(2,3) by (auto simp: no_lost_def avail_def)
qed

lemma msg_send_sysinv:
  assumes i: "sysinv s" "callable s"
  shows "sysinv (snd (msg_send q m all s))"
proof (cases "q = NULL \<or> obj_type (blks s q) \<noteq> RHINO_QUEUE_OBJ_TYPE \<or>
    cur_num (msg_q (queues s q)) \<ge> msg_size (msg_q (queues s q))")
  case True
  then show ?thesis using i(1) by (auto simp: msg_send_def Let_def)
next
  case False
  define sa where "sa = RHINO_CRITICAL_ENTER s"
  have p: "presched sa" "sysinv sa" "blks sa = blks s" "tasks sa = tasks s" "queues sa = queues s"
    using sysinv_presched [OF i] i(1) by (simp_all add: sa_def)
  have nm: "\<not> is_mutex sa q" using False by (simp add: is_mutex_def p)
  show ?thesis
  proof (cases "bl s q")
    case Nil
    then show ?thesis
      using False p(2) by (simp add: msg_send_def Let_def sa_def [symmetric] p case_prod_beta sysinv_upd_queue)
  next
    case (Cons t ts)
    have t: "pended (st sa t)" "bo sa t = q"
      using in_bl_iff [OF sysinv_blk_ok [OF p(2)], of t q] Cons by (simp_all add: p)
    have "presched (wake_all (task_msg_recv m) q sa)" using mr.wake_all_effect [OF p(1) nm] by simp
    moreover have "presched (task_msg_recv m t sa)" using t nm by (intro mr.wake_presched [OF p(1)]) simp_all
    ultimately show ?thesis
      using Cons False by (simp add: msg_send_def Let_def sa_def [symmetric] p exit_sched_sysinv)
  qed
qed

lemma krhino_queue_recv_sysinv:
  assumes i: "sysinv s" "callable s" and "g_intrpt_nested_level s = 0 \<Longrightarrow> g_active_task s \<noteq> g_idle_task s"
  shows "sysinv (snd (krhino_queue_recv q ticks m s))"
proof (cases "q = NULL \<or> m = NULL \<or> g_intrpt_nested_level s > 0 \<and> ticks \<noteq> RHINO_NO_WAIT \<or>
    obj_type (blks s q) \<noteq> RHINO_QUEUE_OBJ_TYPE")
  case True
  then show ?thesis using i(1) by (auto simp: krhino_queue_recv_def Let_def)
next
  case False
  then have f: "q \<noteq> NULL" "m \<noteq> NULL" "\<not> (g_intrpt_nested_level s > 0 \<and> ticks \<noteq> RHINO_NO_WAIT)"
    "obj_type (blks s q) = RHINO_QUEUE_OBJ_TYPE" by auto
  define sa where "sa = RHINO_CRITICAL_ENTER s"
  have p: "presched sa" "sysinv sa" "blks sa = blks s" "queues sa = queues s" "g_sched_lock sa = g_sched_lock s"
    "g_intrpt_nested_level sa = g_intrpt_nested_level s"
    using sysinv_presched [OF i] i(1) by (simp_all add: sa_def)
  show ?thesis
  proof (cases "0 < cur_num (msg_q (queues s q))")
    case True
    then show ?thesis
      using f queue_empty_waiting [OF i(1) f(4) True] p(2)
      by (simp add: krhino_queue_recv_def Let_def sa_def [symmetric] p case_prod_beta sysinv_upd_queue)
  next
    case empty: False
    show ?thesis
    proof (cases "ticks = RHINO_NO_WAIT \<or> g_sched_lock s > 0")
      case True
      then show ?thesis
        using f p(2) empty by (auto simp: krhino_queue_recv_def Let_def sa_def [symmetric] p)
    next
      case False
      then have n: "g_intrpt_nested_level s = 0" "g_sched_lock s = 0" using f(3) by (auto simp: word_gt_0)
      have a: "st sa (g_active_task sa) = K_RDY" "g_active_task sa \<noteq> g_idle_task sa"
        using active_ready [OF sysinv_presched [OF i] n(1) i(1)] assms(3) [OF n(1)] by (simp_all add: sa_def)
      have "presched (pend_to_blk_obj q (g_active_task sa) ticks sa)"
        using f n empty by (intro block_presched [OF p(1) a]) (simp_all add: is_mutex_def avail_def p)
      then show ?thesis
        using f empty False by (simp add: krhino_queue_recv_def Let_def sa_def [symmetric] p exit_sched_sysinv)
    qed
  qed
qed

lemma krhino_queue_flush_sysinv: "sysinv s \<Longrightarrow> sysinv (snd (krhino_queue_flush q s))"
  by (auto simp: krhino_queue_flush_def Let_def intro!: sysinv_upd_queue)

lemma krhino_queue_query_sysinv:
  "sysinv s \<Longrightarrow> sysinv (snd (krhino_queue_is_full q s))"
  "sysinv s \<Longrightarrow> sysinv (snd (krhino_queue_info_get q info s))"
  by (simp_all add: krhino_queue_is_full_def krhino_queue_info_get_def Let_def)

end
