(* ===== verification/Buf_queue.thy ===== *)
theory Buf_queue
  imports Blocking
begin

text \<open>
  Buffer queues (\<^verbatim>\<open>k_buf_queue.c\<close>): messages of bytes, of variable or of fixed length, copied
  into a ring buffer or straight to the buffer of a waiting task.
\<close>

section \<open>Model\<close>

definition buf_queue_create ::
  "ptr \<Rightarrow> ptr \<Rightarrow> ptr \<Rightarrow> nat \<Rightarrow> nat \<Rightarrow> alloc_flag_t \<Rightarrow> ringbuf_type \<Rightarrow> kernel \<Rightarrow> kstat_t \<times> kernel" where
  "buf_queue_create queue name buf sz max_msg flag ty s =
     (if queue = NULL then (RHINO_NULL_PTR, s)
      else if buf = NULL then (RHINO_NULL_PTR, s)
      else if name = NULL then (RHINO_NULL_PTR, s)
      else if max_msg = 0 then (RHINO_INV_PARAM, s)
      else if sz = 0 then (RHINO_BUF_QUEUE_SIZE_ZERO, s)
      else
        let s = upd_blk queue (\<lambda>b. b\<lparr>blk_list := []\<rparr>) s;
            s = upd_buf_queue queue (\<lambda>q. q\<lparr>bq_buf := buf, bq_cur_num := 0, bq_peak_num := 0,
                  max_msg_size := max_msg\<rparr>) s;
            s = upd_blk queue (\<lambda>b. b\<lparr>obj_name := name, blk_policy := BLK_POLICY_PRI\<rparr>) s;
            s = upd_buf_queue queue (\<lambda>q. q\<lparr>bq_alloc_flag := flag\<rparr>) s;
            cpsr = irq_off s;
            s = RHINO_CRITICAL_ENTER s;
            s = upd_kobj (\<lambda>g. g\<lparr>buf_queue_head := buf_queue_head g @ [queue]\<rparr>) s;
            s = RHINO_CRITICAL_EXIT cpsr s;
            s = upd_blk queue (\<lambda>b. b\<lparr>obj_type := RHINO_BUF_QUEUE_OBJ_TYPE\<rparr>) s;
            s = upd_buf_queue queue (\<lambda>q. q\<lparr>bq_ringbuf := ringbuf_init (bq_ringbuf q) (unat buf) sz ty max_msg\<rparr>) s;
            s = upd_buf_queue queue (\<lambda>q. q\<lparr>min_free_buf_size := freesize (bq_ringbuf q)\<rparr>) s
        in (RHINO_SUCCESS, s))"

definition krhino_buf_queue_create :: "ptr \<Rightarrow> ptr \<Rightarrow> ptr \<Rightarrow> nat \<Rightarrow> nat \<Rightarrow> kernel \<Rightarrow> kstat_t \<times> kernel" where
  "krhino_buf_queue_create queue name buf sz max_msg s =
     buf_queue_create queue name buf sz max_msg K_OBJ_STATIC_ALLOC RINGBUF_TYPE_DYN s"

definition krhino_fix_buf_queue_create :: "ptr \<Rightarrow> ptr \<Rightarrow> ptr \<Rightarrow> nat \<Rightarrow> nat \<Rightarrow> kernel \<Rightarrow> kstat_t \<times> kernel" where
  "krhino_fix_buf_queue_create queue name buf sz num s =
     buf_queue_create queue name buf (sz * num mod 2 ^ 32) sz K_OBJ_STATIC_ALLOC RINGBUF_TYPE_FIX s"

definition krhino_buf_queue_del :: "ptr \<Rightarrow> kernel \<Rightarrow> kstat_t \<times> kernel" where
  "krhino_buf_queue_del queue s =
     (if queue = NULL then (RHINO_NULL_PTR, s)
      else
        let cpsr = irq_off s;
            s = RHINO_CRITICAL_ENTER s in
        if g_intrpt_nested_level s > 0 then (RHINO_NOT_CALLED_BY_INTRPT, RHINO_CRITICAL_EXIT cpsr s)
        else if obj_type (blks s queue) \<noteq> RHINO_BUF_QUEUE_OBJ_TYPE
        then (RHINO_KOBJ_TYPE_ERR, RHINO_CRITICAL_EXIT cpsr s)
        else if bq_alloc_flag (buf_queues s queue) \<noteq> K_OBJ_STATIC_ALLOC
        then (RHINO_KOBJ_DEL_ERR, RHINO_CRITICAL_EXIT cpsr s)
        else
          let s = upd_blk queue (\<lambda>b. b\<lparr>obj_type := RHINO_OBJ_TYPE_NONE\<rparr>) s;
              s = wake_all pend_task_rm queue s;
              s = upd_kobj (\<lambda>g. g\<lparr>buf_queue_head := remove1 queue (buf_queue_head g)\<rparr>) s;
              s = upd_buf_queue queue (\<lambda>q. q\<lparr>bq_ringbuf := ringbuf_reset (bq_ringbuf q)\<rparr>) s
          in (RHINO_SUCCESS, RHINO_CRITICAL_EXIT_SCHED cpsr s))"

definition buf_queue_send :: "ptr \<Rightarrow> ptr \<Rightarrow> nat \<Rightarrow> kernel \<Rightarrow> kstat_t \<times> kernel" where
  "buf_queue_send queue m sz s =
     (let cpsr = irq_off s;
          s = RHINO_CRITICAL_ENTER s in
      if obj_type (blks s queue) \<noteq> RHINO_BUF_QUEUE_OBJ_TYPE
      then (RHINO_KOBJ_TYPE_ERR, RHINO_CRITICAL_EXIT cpsr s)
      else if sz > max_msg_size (buf_queues s queue)
      then (RHINO_BUF_QUEUE_MSG_SIZE_OVERFLOW, RHINO_CRITICAL_EXIT cpsr s)
      else if sz = 0 then (RHINO_INV_PARAM, RHINO_CRITICAL_EXIT cpsr s)
      else
        (case blk_list (blks s queue) of
           [] \<Rightarrow>
             let (err, rb, mm) =
                   ringbuf_push (bq_ringbuf (buf_queues s queue)) (mem s) (\<lambda>i. mem s (unat m + i)) sz;
                 s = upd_buf_queue queue (\<lambda>q. q\<lparr>bq_ringbuf := rb\<rparr>) s;
                 s = s\<lparr>mem := mm\<rparr> in
             if err \<noteq> RHINO_SUCCESS then
               let s = RHINO_CRITICAL_EXIT cpsr s
               in (if err = RHINO_RINGBUF_FULL then RHINO_BUF_QUEUE_FULL else err, s)
             else
               let s = upd_buf_queue queue (\<lambda>q. q\<lparr>bq_cur_num := (bq_cur_num q + 1) mod 2 ^ 32\<rparr>) s;
                   s = (if bq_peak_num (buf_queues s queue) < bq_cur_num (buf_queues s queue)
                        then upd_buf_queue queue (\<lambda>q. q\<lparr>bq_peak_num := bq_cur_num q\<rparr>) s else s);
                   s = (if min_free_buf_size (buf_queues s queue) > freesize (bq_ringbuf (buf_queues s queue))
                        then upd_buf_queue queue (\<lambda>q. q\<lparr>min_free_buf_size := freesize (bq_ringbuf q)\<rparr>) s
                        else s)
               in (RHINO_SUCCESS, RHINO_CRITICAL_EXIT cpsr s)
         | task # _ \<Rightarrow>
             let s = s\<lparr>mem := memcpy (mem s) (unat (msg (tasks s task))) (\<lambda>i. mem s (unat m + i)) sz\<rparr>;
                 s = upd_task task (\<lambda>k. k\<lparr>bq_msg_size := of_nat sz\<rparr>) s;
                 s = pend_task_wakeup task s
             in (RHINO_SUCCESS, RHINO_CRITICAL_EXIT_SCHED cpsr s)))"

definition krhino_buf_queue_send :: "ptr \<Rightarrow> ptr \<Rightarrow> nat \<Rightarrow> kernel \<Rightarrow> kstat_t \<times> kernel" where
  "krhino_buf_queue_send queue m sz s =
     (if queue = NULL then (RHINO_NULL_PTR, s)
      else if m = NULL then (RHINO_NULL_PTR, s)
      else buf_queue_send queue m sz s)"

definition krhino_buf_queue_recv :: "ptr \<Rightarrow> tick_t \<Rightarrow> ptr \<Rightarrow> ptr \<Rightarrow> kernel \<Rightarrow> kret \<times> kernel" where
  "krhino_buf_queue_recv queue ticks m sz s =
     (if queue = NULL then (Returned RHINO_NULL_PTR, s)
      else if m = NULL then (Returned RHINO_NULL_PTR, s)
      else if sz = NULL then (Returned RHINO_NULL_PTR, s)
      else
        let cpsr = irq_off s;
            s = RHINO_CRITICAL_ENTER s in
        if g_intrpt_nested_level s > 0 \<and> ticks \<noteq> RHINO_NO_WAIT
        then (Returned RHINO_NOT_CALLED_BY_INTRPT, RHINO_CRITICAL_EXIT cpsr s)
        else if obj_type (blks s queue) \<noteq> RHINO_BUF_QUEUE_OBJ_TYPE
        then (Returned RHINO_KOBJ_TYPE_ERR, RHINO_CRITICAL_EXIT cpsr s)
        else if \<not> ringbuf_is_empty (bq_ringbuf (buf_queues s queue)) then
          let (err, rb, bs) = ringbuf_pop (bq_ringbuf (buf_queues s queue)) (mem s);
              s = upd_buf_queue queue (\<lambda>q. q\<lparr>bq_ringbuf := rb\<rparr>) s;
              s = (if err = RHINO_SUCCESS
                   then set_out sz (length bs) (s\<lparr>mem := memcpy (mem s) (unat m) (nth bs) (length bs)\<rparr>)
                   else s);
              s = upd_buf_queue queue (\<lambda>q. q\<lparr>bq_cur_num := (bq_cur_num q + (2 ^ 32 - 1)) mod 2 ^ 32\<rparr>) s
          in (Returned RHINO_SUCCESS, RHINO_CRITICAL_EXIT cpsr s)
        else if ticks = RHINO_NO_WAIT
        then (Returned RHINO_NO_PEND_WAIT, RHINO_CRITICAL_EXIT cpsr (set_out sz 0 s))
        else if g_sched_lock s > 0
        then (Returned RHINO_SCHED_DISABLE, RHINO_CRITICAL_EXIT cpsr (set_out sz 0 s))
        else
          let s = upd_task (g_active_task s) (\<lambda>k. k\<lparr>msg := m\<rparr>) s;
              s = pend_to_blk_obj queue (g_active_task s) ticks s
          in (Blocked, RHINO_CRITICAL_EXIT_SCHED cpsr s))"

text \<open>The rest of \<^verbatim>\<open>krhino_buf_queue_recv\<close>, when the task runs again.\<close>

definition krhino_buf_queue_recv_resume :: "ptr \<Rightarrow> kernel \<Rightarrow> kstat_t \<times> kernel" where
  "krhino_buf_queue_recv_resume sz s =
     (let cpsr = irq_off s;
          s = RHINO_CRITICAL_ENTER s;
          (ret, s) = pend_state_end_proc (g_active_task s) s;
          s = set_out sz (if ret = RHINO_SUCCESS then unat (bq_msg_size (tasks s (g_active_task s))) else 0) s
      in (ret, RHINO_CRITICAL_EXIT cpsr s))"

definition krhino_buf_queue_flush :: "ptr \<Rightarrow> kernel \<Rightarrow> kstat_t \<times> kernel" where
  "krhino_buf_queue_flush queue s =
     (if queue = NULL then (RHINO_NULL_PTR, s)
      else
        let cpsr = irq_off s;
            s = RHINO_CRITICAL_ENTER s in
        if g_intrpt_nested_level s > 0 then (RHINO_NOT_CALLED_BY_INTRPT, RHINO_CRITICAL_EXIT cpsr s)
        else if obj_type (blks s queue) \<noteq> RHINO_BUF_QUEUE_OBJ_TYPE
        then (RHINO_KOBJ_TYPE_ERR, RHINO_CRITICAL_EXIT cpsr s)
        else
          let s = upd_buf_queue queue (\<lambda>q. q\<lparr>bq_ringbuf := ringbuf_reset (bq_ringbuf q)\<rparr>) s;
              s = upd_buf_queue queue (\<lambda>q. q\<lparr>bq_cur_num := 0, bq_peak_num := 0,
                    min_free_buf_size := freesize (bq_ringbuf q)\<rparr>) s
          in (RHINO_SUCCESS, RHINO_CRITICAL_EXIT cpsr s))"

text \<open>The members of \<^verbatim>\<open>kbuf_queue_info_t\<close> are written at their offsets.\<close>

definition krhino_buf_queue_info_get :: "ptr \<Rightarrow> ptr \<Rightarrow> kernel \<Rightarrow> kstat_t \<times> kernel" where
  "krhino_buf_queue_info_get queue info s =
     (if queue = NULL then (RHINO_NULL_PTR, s)
      else if info = NULL then (RHINO_NULL_PTR, s)
      else
        let cpsr = irq_off s;
            s = RHINO_CRITICAL_ENTER s in
        if obj_type (blks s queue) \<noteq> RHINO_BUF_QUEUE_OBJ_TYPE
        then (RHINO_KOBJ_TYPE_ERR, RHINO_CRITICAL_EXIT cpsr s)
        else
          let q = buf_queues s queue;
              s = set_out (info + 16) (freesize (bq_ringbuf q)) s;
              s = set_out (info + 20) (min_free_buf_size q) s;
              s = set_out info (rb_end (bq_ringbuf q) - rb_buf (bq_ringbuf q)) s;
              s = set_out (info + 4) (max_msg_size q) s;
              s = set_out (info + 8) (bq_cur_num q) s;
              s = set_out (info + 12) (bq_peak_num q) s
          in (RHINO_SUCCESS, RHINO_CRITICAL_EXIT cpsr s))"

section \<open>Every call keeps the invariant\<close>

lemma buf_queue_create_sysinv:
  assumes "sysinv s" and "queue \<noteq> NULL \<Longrightarrow> unused queue s"
  shows "sysinv (snd (buf_queue_create queue name buf sz max_msg flag ty s))"
proof (cases "queue = NULL \<or> buf = NULL \<or> name = NULL \<or> max_msg = 0 \<or> sz = 0")
  case True
  then show ?thesis using assms(1) by (auto simp: buf_queue_create_def)
next
  case False
  then have "unused queue s" using assms(2) by simp
  then show ?thesis
    using False assms(1)
    by (simp add: buf_queue_create_def Let_def sysinv_unused unused_def is_mutex_def)
qed

lemma presched_upd_buf_queue_none:
  "presched s \<Longrightarrow> obj_type (blks s q) \<noteq> RHINO_BUF_QUEUE_OBJ_TYPE \<Longrightarrow> presched (upd_buf_queue q f s)"
  by (auto simp: presched_def no_lost_def avail_def)

lemma krhino_buf_queue_del_sysinv:
  assumes i: "sysinv s" "callable s"
  shows "sysinv (snd (krhino_buf_queue_del queue s))"
proof -
  have "presched (RHINO_CRITICAL_ENTER s)" using sysinv_presched [OF i] by simp
  note d = delete_wakes(1,4) [OF this, of queue]
  show ?thesis
    using i(1) d by (auto simp: krhino_buf_queue_del_def Let_def is_mutex_def
        intro!: exit_sched_sysinv presched_upd_buf_queue_none)
qed

lemma buf_queue_empty_waiting:
  assumes i: "sysinv s" and "obj_type (blks s q) = RHINO_BUF_QUEUE_OBJ_TYPE"
    "\<not> ringbuf_is_empty (bq_ringbuf (buf_queues s q))"
  shows "bl s q = []"
proof (rule ccontr)
  assume "bl s q \<noteq> []"
  then obtain t where "t \<in> set (bl s q)" by (cases "bl s q") auto
  then have "pended (st s t)" "bo s t = q" using in_bl_iff [OF sysinv_blk_ok [OF i]] by auto
  then show False using sysinvD(5) [OF i] assms(2,3) by (auto simp: no_lost_def avail_def)
qed

lemma msg_presched:
  assumes p: "presched s" and f: "task_view (f (tasks s t)) = task_view (tasks s t)"
    "task_state (f (tasks s t)) = st s t" "suspend_count (f (tasks s t)) = suspend_count (tasks s t)"
    "pend_option (f (tasks s t)) = pend_option (tasks s t)" "pend_flags (f (tasks s t)) = pend_flags (tasks s t)"
  shows "presched (upd_task t f s)"
  using f by (intro upd_task_presched [OF p kinv_upd_field [OF preschedD(1) [OF p]]]) (auto simp: task_view_def)

lemma buf_queue_send_sysinv:
  assumes i: "sysinv s" "callable s"
  shows "sysinv (snd (buf_queue_send q m sz s))"
proof (cases "obj_type (blks s q) \<noteq> RHINO_BUF_QUEUE_OBJ_TYPE \<or> sz > max_msg_size (buf_queues s q) \<or> sz = 0")
  case True
  then show ?thesis using i(1) by (auto simp: buf_queue_send_def Let_def)
next
  case False
  define sa where "sa = RHINO_CRITICAL_ENTER s"
  have p: "presched sa" "sysinv sa" "blks sa = blks s" "tasks sa = tasks s" "buf_queues sa = buf_queues s"
    using sysinv_presched [OF i] i(1) by (simp_all add: sa_def)
  show ?thesis
  proof (cases "bl s q")
    case Nil
    then show ?thesis
      using False p(2)
      by (simp add: buf_queue_send_def Let_def sa_def [symmetric] p case_prod_beta sysinv_upd_buf_queue)
  next
    case (Cons t ts)
    have t: "pended (st sa t)" "bo sa t = q"
      using in_bl_iff [OF sysinv_blk_ok [OF p(2)], of t q] Cons by (simp_all add: p)
    define sb where "sb = upd_task t (\<lambda>k. k\<lparr>bq_msg_size := of_nat sz\<rparr>)
      (sa\<lparr>mem := memcpy (mem sa) (unat (msg (tasks sa t))) (\<lambda>i. mem sa (unat m + i)) sz\<rparr>)"
    have "presched sb" unfolding sb_def using p(1) by (intro msg_presched) (simp_all add: task_view_def)
    then have "presched (pend_task_wakeup t sb)"
      using t False by (intro wk.wake_presched) (simp_all add: sb_def is_mutex_def p)
    then show ?thesis
      using Cons False by (simp add: buf_queue_send_def Let_def sa_def [symmetric] p sb_def exit_sched_sysinv)
  qed
qed

lemma krhino_buf_queue_recv_sysinv:
  assumes i: "sysinv s" "callable s" and "g_intrpt_nested_level s = 0 \<Longrightarrow> g_active_task s \<noteq> g_idle_task s"
  shows "sysinv (snd (krhino_buf_queue_recv q ticks m sz s))"
proof (cases "q = NULL \<or> m = NULL \<or> sz = NULL \<or> g_intrpt_nested_level s > 0 \<and> ticks \<noteq> RHINO_NO_WAIT \<or>
    obj_type (blks s q) \<noteq> RHINO_BUF_QUEUE_OBJ_TYPE")
  case True
  then show ?thesis using i(1) by (auto simp: krhino_buf_queue_recv_def Let_def)
next
  case False
  then have f: "q \<noteq> NULL" "m \<noteq> NULL" "sz \<noteq> NULL" "\<not> (g_intrpt_nested_level s > 0 \<and> ticks \<noteq> RHINO_NO_WAIT)"
    "obj_type (blks s q) = RHINO_BUF_QUEUE_OBJ_TYPE" by auto
  define sa where "sa = RHINO_CRITICAL_ENTER s"
  have p: "presched sa" "sysinv sa" "blks sa = blks s" "buf_queues sa = buf_queues s" "g_sched_lock sa = g_sched_lock s"
    "g_intrpt_nested_level sa = g_intrpt_nested_level s"
    using sysinv_presched [OF i] i(1) by (simp_all add: sa_def)
  show ?thesis
  proof (cases "ringbuf_is_empty (bq_ringbuf (buf_queues s q))")
    case False
    then show ?thesis
      using f buf_queue_empty_waiting [OF i(1) f(5)] p(2)
      by (simp add: krhino_buf_queue_recv_def Let_def sa_def [symmetric] p case_prod_beta sysinv_upd_buf_queue)
  next
    case empty: True
    show ?thesis
    proof (cases "ticks = RHINO_NO_WAIT \<or> g_sched_lock s > 0")
      case True
      then show ?thesis
        using f p(2) empty by (auto simp: krhino_buf_queue_recv_def Let_def sa_def [symmetric] p)
    next
      case False
      then have n: "g_intrpt_nested_level s = 0" "g_sched_lock s = 0" using f(4) by (auto simp: word_gt_0)
      define sb where "sb = upd_task (g_active_task sa) (\<lambda>k. k\<lparr>msg := m\<rparr>) sa"
      have sb: "presched sb" unfolding sb_def by (rule msg_presched [OF p(1)]) (simp_all add: task_view_def)
      have a: "st sb (g_active_task sb) = K_RDY" "g_active_task sb \<noteq> g_idle_task sb"
        using active_ready [OF sysinv_presched [OF i] n(1) i(1)] assms(3) [OF n(1)] by (simp_all add: sa_def sb_def)
      have "presched (pend_to_blk_obj q (g_active_task sb) ticks sb)"
        using f n empty by (intro block_presched [OF sb a]) (simp_all add: is_mutex_def avail_def p sb_def)
      moreover have "g_active_task sb = g_active_task sa" by (simp add: sb_def)
      ultimately show ?thesis
        using f empty False by (simp add: krhino_buf_queue_recv_def Let_def sa_def [symmetric] p sb_def [symmetric] exit_sched_sysinv)
    qed
  qed
qed

lemma krhino_buf_queue_flush_sysinv: "sysinv s \<Longrightarrow> sysinv (snd (krhino_buf_queue_flush q s))"
  by (auto simp: krhino_buf_queue_flush_def Let_def ringbuf_is_empty_def ringbuf_reset_def intro!: sysinv_upd_buf_queue)

lemma krhino_buf_queue_info_get_sysinv: "sysinv s \<Longrightarrow> sysinv (snd (krhino_buf_queue_info_get q info s))"
  by (simp add: krhino_buf_queue_info_get_def Let_def)

end
