(* ===== verification/Mutex.thy ===== *)
theory Mutex
  imports Blocking
begin

text \<open>
  Mutexes (\<^verbatim>\<open>k_mutex.c\<close>): create, delete, lock and unlock, with nested locking and priority
  inheritance. The walks over the held mutexes and the priority chain are in \<open>Pri_Inherit\<close>.
\<close>

section \<open>Model\<close>

definition mutex_create :: "ptr \<Rightarrow> ptr \<Rightarrow> alloc_flag_t \<Rightarrow> kernel \<Rightarrow> kstat_t \<times> kernel" where
  "mutex_create mutex name flag s =
     (if mutex = NULL then (RHINO_NULL_PTR, s)
      else if name = NULL then (RHINO_NULL_PTR, s)
      else
        let s = upd_blk mutex (\<lambda>b. b\<lparr>blk_list := []\<rparr>) s;
            s = upd_blk mutex (\<lambda>b. b\<lparr>blk_policy := BLK_POLICY_PRI, obj_name := name\<rparr>) s;
            s = upd_mutex mutex (\<lambda>m. m\<lparr>mutex_task := NULL, mutex_alloc_flag := flag\<rparr>) s;
            cpsr = irq_off s;
            s = RHINO_CRITICAL_ENTER s;
            s = upd_kobj (\<lambda>g. g\<lparr>mutex_head := mutex_head g @ [mutex]\<rparr>) s;
            s = RHINO_CRITICAL_EXIT cpsr s;
            s = upd_blk mutex (\<lambda>b. b\<lparr>obj_type := RHINO_MUTEX_OBJ_TYPE\<rparr>) s
        in (RHINO_SUCCESS, s))"

definition krhino_mutex_create :: "ptr \<Rightarrow> ptr \<Rightarrow> kernel \<Rightarrow> kstat_t \<times> kernel" where
  "krhino_mutex_create mutex name s = mutex_create mutex name K_OBJ_STATIC_ALLOC s"

definition krhino_mutex_del :: "ptr \<Rightarrow> kernel \<Rightarrow> kstat_t \<times> kernel" where
  "krhino_mutex_del mutex s =
     (if mutex = NULL then (RHINO_NULL_PTR, s)
      else
        let cpsr = irq_off s;
            s = RHINO_CRITICAL_ENTER s in
        if g_intrpt_nested_level s > 0 then (RHINO_NOT_CALLED_BY_INTRPT, RHINO_CRITICAL_EXIT cpsr s)
        else if obj_type (blks s mutex) \<noteq> RHINO_MUTEX_OBJ_TYPE
        then (RHINO_KOBJ_TYPE_ERR, RHINO_CRITICAL_EXIT cpsr s)
        else if mutex_alloc_flag (mutexes s mutex) \<noteq> K_OBJ_STATIC_ALLOC
        then (RHINO_KOBJ_DEL_ERR, RHINO_CRITICAL_EXIT cpsr s)
        else
          let s = upd_blk mutex (\<lambda>b. b\<lparr>obj_type := RHINO_OBJ_TYPE_NONE\<rparr>) s;
              s = (if mutex_task (mutexes s mutex) \<noteq> NULL
                   then mutex_release (mutex_task (mutexes s mutex)) mutex s else s);
              s = wake_all pend_task_rm mutex s;
              s = upd_kobj (\<lambda>g. g\<lparr>mutex_head := remove1 mutex (mutex_head g)\<rparr>) s
          in (RHINO_SUCCESS, RHINO_CRITICAL_EXIT_SCHED cpsr s))"

definition krhino_mutex_lock :: "ptr \<Rightarrow> tick_t \<Rightarrow> kernel \<Rightarrow> kret \<times> kernel" where
  "krhino_mutex_lock mutex ticks s =
     (if mutex = NULL then (Returned RHINO_NULL_PTR, s)
      else if g_sys_stat s = RHINO_STOPPED then (Returned RHINO_SUCCESS, s)
      else
        let cpsr = irq_off s;
            s = RHINO_CRITICAL_ENTER s;
            active = g_active_task s in
        if g_intrpt_nested_level s > 0
        then (Returned RHINO_NOT_CALLED_BY_INTRPT, RHINO_CRITICAL_EXIT cpsr s)
        else if obj_type (blks s mutex) \<noteq> RHINO_MUTEX_OBJ_TYPE
        then (Returned RHINO_KOBJ_TYPE_ERR, RHINO_CRITICAL_EXIT cpsr s)
        else if active = mutex_task (mutexes s mutex) then
          (if owner_nested (mutexes s mutex) = mutex_nested_max (port s)
           then (Returned RHINO_MUTEX_NESTED_OVF,
                 RHINO_CRITICAL_EXIT cpsr (k_err_proc RHINO_MUTEX_NESTED_OVF s))
           else
             let s = upd_mutex mutex (\<lambda>m. m\<lparr>owner_nested := owner_nested m + 1\<rparr>) s
             in (Returned RHINO_MUTEX_OWNER_NESTED, RHINO_CRITICAL_EXIT cpsr s))
        else
          let mt = mutex_task (mutexes s mutex) in
          if mt = NULL then
            let s = upd_mutex mutex (\<lambda>m. m\<lparr>mutex_task := active\<rparr>) s;
                s = upd_task active (\<lambda>k. k\<lparr>mutex_list := mutex # mutex_list k\<rparr>) s;
                s = upd_mutex mutex (\<lambda>m. m\<lparr>owner_nested := 1\<rparr>) s
            in (Returned RHINO_SUCCESS, RHINO_CRITICAL_EXIT cpsr s)
          else if ticks = RHINO_NO_WAIT
          then (Returned RHINO_NO_PEND_WAIT, RHINO_CRITICAL_EXIT cpsr s)
          else if g_sched_lock s > 0
          then (Returned RHINO_SCHED_DISABLE, RHINO_CRITICAL_EXIT cpsr s)
          else
            let s = (if prio (tasks s active) < prio (tasks s mt)
                     then snd (task_pri_change mt (prio (tasks s active)) s) else s);
                s = pend_to_blk_obj mutex active ticks s
            in (Blocked, RHINO_CRITICAL_EXIT_SCHED cpsr s))"

definition krhino_mutex_unlock :: "ptr \<Rightarrow> kernel \<Rightarrow> kstat_t \<times> kernel" where
  "krhino_mutex_unlock mutex s =
     (if mutex = NULL then (RHINO_NULL_PTR, s)
      else if g_sys_stat s = RHINO_STOPPED then (RHINO_SUCCESS, s)
      else
        let cpsr = irq_off s;
            s = RHINO_CRITICAL_ENTER s;
            active = g_active_task s in
        if g_intrpt_nested_level s > 0 then (RHINO_NOT_CALLED_BY_INTRPT, RHINO_CRITICAL_EXIT cpsr s)
        else if obj_type (blks s mutex) \<noteq> RHINO_MUTEX_OBJ_TYPE
        then (RHINO_KOBJ_TYPE_ERR, RHINO_CRITICAL_EXIT cpsr s)
        else if active \<noteq> mutex_task (mutexes s mutex)
        then (RHINO_MUTEX_NOT_RELEASED_BY_OWNER, RHINO_CRITICAL_EXIT cpsr s)
        else
          let s = upd_mutex mutex (\<lambda>m. m\<lparr>owner_nested := cdec (mutex_nested_max (port s)) (owner_nested m)\<rparr>) s in
          if owner_nested (mutexes s mutex) > 0
          then (RHINO_MUTEX_OWNER_NESTED, RHINO_CRITICAL_EXIT cpsr s)
          else
            let s = mutex_release active mutex s in
            (case blk_list (blks s mutex) of
               [] \<Rightarrow>
                 let s = upd_mutex mutex (\<lambda>m. m\<lparr>mutex_task := NULL\<rparr>) s
                 in (RHINO_SUCCESS, RHINO_CRITICAL_EXIT cpsr s)
             | task # _ \<Rightarrow>
                 let s = pend_task_wakeup task s;
                     s = upd_mutex mutex (\<lambda>m. m\<lparr>mutex_task := task\<rparr>) s;
                     s = upd_task task (\<lambda>k. k\<lparr>mutex_list := mutex # mutex_list k\<rparr>) s;
                     s = upd_mutex mutex (\<lambda>m. m\<lparr>owner_nested := 1\<rparr>) s
                 in (RHINO_SUCCESS, RHINO_CRITICAL_EXIT_SCHED cpsr s)))"

section \<open>Every call keeps the invariant\<close>

text \<open>The name of a mutex and its priority policy are set before its type.\<close>

lemma mutex_create_kinv:
  assumes k: "kinv s" and b: "bl s m = []" "\<not> is_mutex s m" "blk_policy (blks s m) = BLK_POLICY_PRI"
    and o: "owner s m = NULL"
  shows "kinv (upd_blk m (\<lambda>b. b\<lparr>obj_type := RHINO_MUTEX_OBJ_TYPE\<rparr>) s)"
proof -
  let ?s = "upd_blk m (\<lambda>b. b\<lparr>obj_type := RHINO_MUTEX_OBJ_TYPE\<rparr>) s"
  have v: "tasks ?s = tasks s" "bl ?s b = bl s b" "is_mutex ?s b = (is_mutex s b \<or> b = m)"
    "blk_policy (blks ?s b) = blk_policy (blks s b)" "mutexes ?s = mutexes s" for b
    by (simp_all add: is_mutex_def)
  have nw: "pended (st s t) \<Longrightarrow> bo s t \<noteq> m" for t
    using in_bl_iff [OF core_okD(3) [OF kinvD(1) [OF k]], of t m] b(1) by auto
  have "core_ok ?s"
    using kinvD(1) [OF k]
    by (simp add: core_ok_def ready_ok_def blk_ok_def tick_ok_def task_ok_def idle_ok_def remain_fun v)
  moreover have "mutex_ok ?s"
    using kinvD(2) [OF k] b(3) o nw unfolding mutex_ok_def v by blast
  moreover have "pi_ok ?s" using kinvD(3) [OF k] by (simp add: pi_ok_def need_is_def waiters_def v)
  ultimately show ?thesis by (rule kinvI)
qed

lemma sysinv_upd_mutex:
  assumes i: "sysinv s"
    and f: "is_mutex s m \<Longrightarrow> mutex_task (f (mutexes s m)) = owner s m \<and> 0 < owner_nested (f (mutexes s m))"
  shows "sysinv (upd_mutex m f s)"
proof -
  have "kinv (upd_mutex m f s)"
    using f sysinvD(1) [OF i] core_ok_active [OF kinvD(1) [OF sysinvD(1) [OF i]]]
    by (intro kinv_cong [OF sysinvD(1) [OF i]])
      (auto simp: is_mutex_def kinv_suspend_count [OF sysinvD(1) [OF i]] fun_upd_def)
  moreover have "no_lost (upd_mutex m f s) = no_lost s" by (rule no_lost_same) simp_all
  ultimately show ?thesis
    using i sysinvD [OF i] by (intro sysinv_fields [OF i]) (simp_all add: tick_pos_def remain_fun)
qed

lemma mutex_create_sysinv:
  assumes i: "sysinv s" and u: "m \<noteq> NULL \<Longrightarrow> unused m s"
  shows "sysinv (snd (mutex_create m name flag s))"
proof (cases "m = NULL \<or> name = NULL")
  case True
  then show ?thesis using i by (auto simp: mutex_create_def)
next
  case False
  then have u: "bl s m = []" "\<not> is_mutex s m" using u by (simp_all add: unused_def)
  define sa where "sa = upd_blk m (\<lambda>b. b\<lparr>blk_policy := BLK_POLICY_PRI, obj_name := name\<rparr>)
    (upd_blk m (\<lambda>b. b\<lparr>blk_list := []\<rparr>) s)"
  have a: "sysinv sa" "\<not> is_mutex sa m" "bl sa m = []" "blk_policy (blks sa m) = BLK_POLICY_PRI"
    unfolding sa_def using i u by (auto intro!: sysinv_upd_blk simp: is_mutex_def)
  define sb where "sb = RHINO_CRITICAL_EXIT (irq_off s) (upd_kobj (\<lambda>g. g\<lparr>mutex_head := mutex_head g @ [m]\<rparr>)
    (RHINO_CRITICAL_ENTER (upd_mutex m (\<lambda>m. m\<lparr>mutex_task := NULL, mutex_alloc_flag := flag\<rparr>) sa)))"
  have b: "sysinv sb" "\<not> is_mutex sb m" "bl sb m = []" "blk_policy (blks sb m) = BLK_POLICY_PRI" "owner sb m = NULL"
    unfolding sb_def using a by (auto intro!: sysinv_upd_mutex simp: is_mutex_def)
  define sc where "sc = upd_blk m (\<lambda>b. b\<lparr>obj_type := RHINO_MUTEX_OBJ_TYPE\<rparr>) sb"
  have "kinv sc" unfolding sc_def using b by (intro mutex_create_kinv sysinvD(1)) simp_all
  moreover have "no_lost sc" unfolding sc_def
    using b by (intro no_lost_upd_blk sysinvD(5) sysinv_blk_ok) simp_all
  ultimately have "sysinv sc"
    using sysinvD [OF b(1)] by (intro sysinv_fields [OF b(1)]) (simp_all add: sc_def tick_pos_def remain_fun)
  moreover have "snd (mutex_create m name flag s) = sc"
    using False by (simp add: mutex_create_def Let_def sc_def sb_def sa_def)
  ultimately show ?thesis by simp
qed

text \<open>A free mutex is taken.\<close>

lemma taken_kinv:
  assumes k: "kinv s" and m: "is_mutex s m" "owner s m = NULL" "m \<noteq> NULL"
    and t: "live (st s t)" "t \<noteq> g_idle_task s"
    and f: "mutex_task (f (mutexes s m)) = t" "0 < owner_nested (f (mutexes s m))"
  shows "kinv (holding t (m # held s t) (upd_mutex m f s))" (is "kinv ?s")
proof -
  note c = kinvD(1) [OF k] and mu = kinvD(2) [OF k]
  have n: "u \<noteq> NULL \<and> NULL \<notin> set (held s u)" if "live (st s u)" for u
    using core_okD(5) [OF c] that by (simp add: task_ok_def)
  have nh: "m \<notin> set (held s u)" if "live (st s u)" for u
    using mutex_okD(1) [OF mu that, of m] n [OF that] m(2) by auto
  have nw: "bo s u \<noteq> m" if "pended (st s u)" for u using mutex_okD(5) [OF mu that] m by auto
  have "core_ok ?s" using c m(3) n t by (intro core_ok_mutex_list) simp_all
  moreover have v: "st ?s u = st s u" "pr ?s u = pr s u" "bo ?s u = bo s u" "is_mutex ?s b = is_mutex s b"
    "b_prio (tasks ?s u) = b_prio (tasks s u)" "blks ?s = blks s" "owner ?s b = (if b = m then t else owner s b)"
    "owner_nested (mutexes ?s b) = owner_nested (if b = m then f (mutexes s m) else mutexes s b)"
    "held ?s u = (if u = t then m # held s t else held s u)" for u b
    using f by (simp_all add: is_mutex_def)
  have "mutex_ok ?s" unfolding mutex_ok_def v
  proof (intro conjI allI impI)
    fix u b assume "live (st s u) \<and> b \<in> set (if u = t then m # held s t else held s u)"
    then show "is_mutex s b" "(if b = m then t else owner s b) = u"
      using mutex_okD(1) [OF mu, of u b] m(1) nh [of u] by (auto split: if_splits)
  next
    fix b assume "is_mutex s b \<and> (if b = m then t else owner s b) \<noteq> NULL"
    then show "live (st s (if b = m then t else owner s b))"
      "b \<in> set (if (if b = m then t else owner s b) = t then m # held s t else held s (if b = m then t else owner s b))"
      "0 < owner_nested (if b = m then f (mutexes s m) else mutexes s b)"
      using mutex_okD(2) [OF mu, of b] t f by (auto split: if_splits)
  next
    fix u assume "live (st s u)"
    then show "distinct (if u = t then m # held s t else held s u)"
      using mutex_okD(3) [OF mu, of u] nh [of u] by auto
  next
    fix b assume "is_mutex s b"
    then show "blk_policy (blks s b) = BLK_POLICY_PRI" by (rule mutex_okD(4) [OF mu])
  next
    fix u assume "pended (st s u) \<and> is_mutex s (bo s u)"
    then show "(if bo s u = m then t else owner s (bo s u)) \<noteq> NULL" "(if bo s u = m then t else owner s (bo s u)) \<noteq> u"
      using mutex_okD(5) [OF mu, of u] nw [of u] by auto
  qed
  moreover have "waiters ?s u = waiters s u" for u using nw by (auto simp: waiters_def v)
  then have "pi_ok ?s" using kinvD(3) [OF k] by (simp add: pi_ok_def need_is_def v)
  ultimately show ?thesis by (intro kinvI)
qed

text \<open>
  Blocking on a mutex: the owner is first raised to the priority of the task that will wait,
  which counts as a waiter in advance, and so are the owners along the chain.
\<close>

lemma lock_raise:
  assumes k: "kinv s" and o: "live (st s o')" "o' \<noteq> g_idle_task s" and t: "live (st s t)"
  defines "s' \<equiv> (if pr s t < pr s o' then snd (task_pri_change o' (pr s t) s) else s)"
  shows "core_ok s'" and "pri_only s s'" and "pi_all [o' \<mapsto> pr s t] s'" and "pr s' t = pr s t"
proof -
  note c = kinvD(1) [OF k] and mu = kinvD(2) [OF k]
  have n: "need_is Map.empty s u (pr s u)" if "live (st s u)" for u
    using kinvD(3) [OF k] that by (simp add: pi_ok_def)
  have p: "pr s t < RHINO_CONFIG_PRI_MAX" using core_okD(5) [OF c] t by (simp add: task_ok_def)
  have "core_ok s' \<and> pri_only s s' \<and> pi_all [o' \<mapsto> pr s t] s' \<and> pr s' t = pr s t"
  proof (cases "pr s t < pr s o'")
    case True
    have "pi_but [o' \<mapsto> pr s t] s o' (pr s t)"
      unfolding pi_but_def
    proof (intro conjI allI impI)
      fix u assume "live (st s u) \<and> u \<noteq> o'"
      then show "need_is [o' \<mapsto> pr s t] s u (pr s u)" using n [of u] by (simp add: need_is_def)
    next
      show "need_is [o' \<mapsto> pr s t] s o' (pr s t)" using n [OF o(1)] True by (force simp: need_is_def)
    next
      show "[o' \<mapsto> pr s t] = Map.empty \<or> pr s t < pr s o'" using True by simp
    qed
    from task_pri_change_pi [OF c mu o p this] task_pri_change_core [OF c mutex_ok_owners_ok [OF mu c] o p]
    show ?thesis using True by (auto simp: s'_def)
  next
    case False
    have "pi_all [o' \<mapsto> pr s t] s" unfolding pi_all_def
    proof (intro allI impI)
      fix u assume "live (st s u)"
      then show "need_is [o' \<mapsto> pr s t] s u (pr s u)"
        using n [of u] False by (cases "u = o'") (auto simp: need_is_def)
    qed
    with False c show ?thesis by (simp add: s'_def pri_only_refl)
  qed
  then show "core_ok s'" and "pri_only s s'" and "pi_all [o' \<mapsto> pr s t] s'" and "pr s' t = pr s t" by simp_all
qed

lemma lock_block_presched:
  fixes ticks :: tick_t
  assumes p: "presched s" and m: "is_mutex s m" "m \<noteq> NULL" "owner s m \<noteq> NULL" "owner s m \<noteq> t"
    and t: "st s t = K_RDY" "t \<noteq> g_idle_task s" and l: "g_sched_lock s = 0"
  defines "s' \<equiv> pend_to_blk_obj m t ticks (if pr s t < pr s (owner s m) then snd (task_pri_change (owner s m) (pr s t) s) else s)"
  shows "presched s'"
proof -
  note k = preschedD(1) [OF p]
  note c = kinvD(1) [OF k] and mu = kinvD(2) [OF k]
  define o' where "o' = owner s m"
  define sa where "sa = (if pr s t < pr s o' then snd (task_pri_change o' (pr s t) s) else s)"
  have o: "live (st s o')" "m \<in> set (held s o')" using mutex_okD(2) [OF mu m(1,3)] by (simp_all add: o'_def)
  have "o' \<noteq> g_idle_task s" using o(2) core_okD(6) [OF c] by (auto simp: idle_ok_def)
  note a = lock_raise [OF k o(1) this, of t, folded sa_def]
  have a: "core_ok sa" "pri_only s sa" "pi_all [o' \<mapsto> pr s t] sa" "pr sa t = pr s t" using a t(1) by simp_all
  note v = pri_only_task [OF a(2)] and e = env_sel [OF pri_only_env(1) [OF a(2)]]
  have ma: "mutex_ok sa" by (rule mutex_ok_pri_only [OF a(2) mu])
  have oa: "owner sa b = owner s b" "is_mutex sa b = is_mutex s b" for b
    using a(2) pri_only_blk [OF a(2), of b] by (simp_all add: pri_only_def is_mutex_def)
  have ta: "st sa t = K_RDY" "t \<noteq> g_idle_task sa" using t v(1) e by simp_all
  define time where "time = (if ticks = RHINO_WAIT_FOREVER then 0 else ticks)"
  have s': "s' = pend_to_blk_obj m t ticks sa" by (simp add: s'_def sa_def o'_def)
  have w: "waits t K_PEND m time sa s'"
    unfolding s' time_def by (rule pend_to_blk_obj_waits [OF a(1) ta m(2)])
  note d = waitsD [OF w]
  have c': "core_ok s'" by (rule waits_core_ok [OF a(1) w ta])
  have m': "mutex_ok s'" using m by (intro waits_mutex_ok [OF ma w ta(1)]) (simp_all add: oa)
  have pi': "pi_ok s'"
    unfolding pi_ok_def
  proof (intro allI impI)
    fix u assume "live (st s' u)"
    then have u: "live (st sa u)" using d(9) [of u] ta(1) by (auto split: if_splits)
    have h: "m \<in> set (held sa u) \<longleftrightarrow> u = o'"
      using mutex_okD(1) [OF ma u, of m] o(2) v(3) by (auto simp: oa o'_def)
    have "need_is [o' \<mapsto> pr s t] sa u (pr sa u)" using a(3) u by (simp add: pi_all_def)
    then show "need_is Map.empty s' u (pr s' u)"
      using waits_waiters [OF w, of u] ta(1) h a(4)
      by (auto simp: need_is_def d(6,7) split: if_splits)
  qed
  have n: "no_lost s'"
    using m(1) by (intro waits_no_lost [OF pri_only_no_lost [OF preschedD(5) [OF p] a(2)] w])
      (use oa(2) [of m] in \<open>simp add: avail_def is_mutex_def\<close>)
  have "tick_pos s'" by (rule waits_tick_pos [OF pri_only_tick_pos [OF preschedD(2) [OF p] a(2)] a(1) w ta(1)])
  then show ?thesis
    using c' m' pi' n d(1,3,4) a(2) l by (intro presched_step [OF p]) (simp_all add: kinvI pri_only_def)
qed

lemma relink:
  "upd_mutex m (\<lambda>k. k\<lparr>owner_nested := Suc 0\<rparr>) (holding t ms (upd_mutex m (\<lambda>k. k\<lparr>mutex_task := t\<rparr>) s)) =
   holding t ms (upd_mutex m (\<lambda>k. k\<lparr>mutex_task := t, owner_nested := Suc 0\<rparr>) s)"
  by (cases s) (simp add: upd_mutex_def upd_task_def holding_def)

lemma holding_Cons: "upd_task t (\<lambda>k. k\<lparr>mutex_list := m # mutex_list k\<rparr>) s = holding t (m # held s t) s"
  by (simp add: holding_def upd_task_def)

lemma sysinv_k_err: "e \<noteq> RHINO_SYS_FATAL_ERR \<Longrightarrow> sysinv (k_err_proc e s) = sysinv s"
  by (auto simp: sysinv_def k_err_proc_def sched_ok_def best_def no_fatal_def)

lemma krhino_mutex_lock_sysinv:
  assumes i: "sysinv s" "callable s" and a: "g_intrpt_nested_level s = 0 \<Longrightarrow> g_active_task s \<noteq> g_idle_task s"
  shows "sysinv (snd (krhino_mutex_lock m ticks s))"
proof (cases "m = NULL \<or> g_sys_stat s = RHINO_STOPPED \<or> g_intrpt_nested_level s > 0 \<or> \<not> is_mutex s m")
  case True
  then show ?thesis using i(1) by (auto simp: krhino_mutex_lock_def Let_def is_mutex_def)
next
  case False
  define sa where "sa = RHINO_CRITICAL_ENTER s"
  define t where "t = g_active_task s"
  have p: "presched sa" "sysinv sa" "blks sa = blks s" "mutexes sa = mutexes s" "tasks sa = tasks s"
    "g_sched_lock sa = g_sched_lock s" "g_intrpt_nested_level sa = 0" "g_active_task sa = t" "port sa = port s"
    using sysinv_presched [OF i] i(1) False by (simp_all add: sa_def t_def word_gt_0)
  have f: "m \<noteq> NULL" "g_sys_stat s \<noteq> RHINO_STOPPED" "is_mutex s m" "is_mutex sa m" "g_intrpt_nested_level s = 0"
    using False by (auto simp: is_mutex_def p word_gt_0)
  have t: "st sa t = K_RDY" "t \<noteq> g_idle_task sa"
    using active_ready [OF sysinv_presched [OF i] f(5) i(1)] a [OF f(5)] by (simp_all add: sa_def t_def)
  note [simp] = krhino_mutex_lock_def Let_def sa_def [symmetric] p f t_def [symmetric] f(3,4) [unfolded is_mutex_def]
  show ?thesis
  proof (cases "t = owner s m \<or> owner s m = NULL")
    case True
    show ?thesis
    proof (cases "t = owner s m")
      case own: True
      then show ?thesis
        using sysinv_upd_mutex [OF p(2), of m "\<lambda>k. k\<lparr>owner_nested := owner_nested k + 1\<rparr>"] p(2)
        by (simp add: sysinv_k_err)
    next
      case False
      let ?f = "\<lambda>k. k\<lparr>mutex_task := t, owner_nested := 1\<rparr>"
      have "kinv (holding t (m # held sa t) (upd_mutex m ?f sa))" (is "kinv ?s")
        using True False t by (intro taken_kinv sysinvD(1) [OF p(2)]) simp_all
      moreover have "no_lost ?s"
        by (rule no_lost_step [OF sysinvD(5) [OF p(2)]])
          (auto simp: holding_def upd_task_env upd_mutex_env split: if_splits)
      moreover have "tick_pos ?s = tick_pos sa" by (auto simp: tick_pos_def remain_def holding_def)
      ultimately have "sysinv ?s"
        using sysinvD(1) [OF p(2)] by (intro sysinv_fields [OF p(2)]) (simp_all add: holding_def)
      moreover have "snd (krhino_mutex_lock m ticks s) = RHINO_CRITICAL_EXIT (irq_off s) ?s"
        using True False by (simp add: relink holding_Cons)
      ultimately show ?thesis by simp
    qed
  next
    case False
    then have "g_sched_lock s = 0 \<Longrightarrow> presched (pend_to_blk_obj m t ticks
        (if pr s t < pr s (owner s m) then snd (task_pri_change (owner s m) (pr s t) sa) else sa))"
      using lock_block_presched [OF p(1) f(4,1) _ _ t, of ticks, unfolded p(4-6)] by (auto split: if_splits)
    then show ?thesis
      using False p(2) by (cases "pr s t < pr s (owner s m)") (simp_all add: exit_sched_sysinv word_gt_0)
  qed
qed

text \<open>The mutex leaves the list of its owner and the owner's priority is computed anew.\<close>

lemma mutex_release_unlinks:
  assumes c: "core_ok s" and t: "live (st s t)" "t \<noteq> g_idle_task s"
    and pol: "\<And>x. x \<in> set (held s t) \<Longrightarrow> x \<noteq> m \<Longrightarrow> blk_policy (blks s x) = BLK_POLICY_PRI"
  defines "s1 \<equiv> holding t (filter (\<lambda>x. x \<noteq> m) (held s t)) s"
  assumes e: "pi_except t s1" and mu: "mutex_ok s1 \<or> st s t = K_RDY"
  defines "s' \<equiv> mutex_release t m s"
  shows "core_ok s'" and "pri_only s1 s'" and "pi_ok s'"
    and "need_is Map.empty s1 t (pr s t) \<Longrightarrow> s' = s1"
proof -
  define q where "q = fst (mutex_pri_look t m s)"
  have s1: "snd (mutex_pri_look t m s) = s1" by (simp add: s1_def holding_def mutex_pri_look_def Let_def upd_task_def)
  have c1: "core_ok s1"
    unfolding s1_def using core_okD(5) [OF c] t(2) by (intro core_ok_mutex_list [OF c]) (auto simp: task_ok_def)
  have t1: "live (st s1 t)" "t \<noteq> g_idle_task s1" "pr s1 t = pr s t" using t by (simp_all add: s1_def holding_def)
  have n: "need_is Map.empty s1 t q" using look_need [of s t m, OF c pol] by (simp add: s1 q_def)
  have q: "q < RHINO_CONFIG_PRI_MAX" unfolding q_def by (rule mutex_pri_look_bound [OF c t(1)])
  have s': "s' = (if q \<noteq> pr s1 t then snd (task_pri_change t q s1) else s1)"
    using s1 by (simp add: s'_def mutex_release_def case_prod_beta q_def)
  have "core_ok s' \<and> pri_only s1 s' \<and> pi_ok s'"
  proof (cases "q = pr s1 t")
    case True
    have "pi_ok s1" unfolding pi_ok_def
    proof (intro allI impI)
      fix u assume "live (st s1 u)"
      then show "need_is Map.empty s1 u (pr s1 u)" using e n True by (cases "u = t") (auto simp: pi_except_def)
    qed
    with True c1 show ?thesis by (simp add: s' pri_only_refl)
  next
    case False
    show ?thesis
    proof (cases "mutex_ok s1")
      case True
      have "pi_but Map.empty s1 t q" using e n by (simp add: pi_but_def pi_except_def)
      then show ?thesis
        using task_pri_change_core [OF c1 mutex_ok_owners_ok [OF True c1] t1(1,2) q]
          task_pri_change_pi [OF c1 True t1(1,2) q] False by (simp add: pi_ok_pi_all s')
    next
      case nm: False
      then have r: "st s1 t = K_RDY" using mu by (simp add: s1_def)
      have eq: "s' = (let s = set_prio t q (ready_list_rm t s1)
         in if t = g_active_task s then ready_list_add_head t s else ready_list_add_tail t s)"
        using False r by (simp add: s' task_pri_change.simps task_pri_change_round_def Let_def)
      note mv = ready_reprio_moved [OF c1 t1(2) r q eq]
      have pr: "pr s' u = (if u = t then q else pr s1 u)" for u by (simp add: eq Let_def)
      have "pi_ok s'" unfolding pi_ok_def
      proof (intro allI impI)
        fix u assume "live (st s' u)"
        then have u: "live (st s1 u)" using pri_only_task(1) [OF mv(2)] by simp
        have "w \<noteq> t" if "w \<in> waiters s1 u" for w using that r by (auto simp: waiters_def)
        then have "need_is Map.empty s' u x \<longleftrightarrow> need_is Map.empty s1 u x" for x
          by (intro need_is_cong waiters_pri_only [OF mv(2)] pri_only_task(4) [OF mv(2)]) (simp add: pr)
        then show "need_is Map.empty s' u (pr s' u)"
          using e n u by (cases "u = t") (auto simp: pr pi_except_def)
      qed
      then show ?thesis using mv moved_core_ok [OF c1] by blast
    qed
  qed
  then show "core_ok s'" and "pri_only s1 s'" and "pi_ok s'" by simp_all
  show "s' = s1" if "need_is Map.empty s1 t (pr s t)"
    using need_is_unique [OF n that] by (simp add: s' t1(3))
qed

lemma unlinked_mutex_ok:
  assumes mu: "mutex_ok s" and t: "live (st s t)" "m \<in> set (held s t)"
    and g: "mutex_task (g (mutexes s m)) = owner s m"
  defines "ms \<equiv> filter (\<lambda>x. x \<noteq> m) (held s t)"
  assumes o: "pri_only (holding t ms (upd_mutex m g s)) s'"
  shows "mutex_ok (holding t (m # ms) (nest m s'))"
proof -
  have v: "st s' u = st s u" "bo s' u = bo s u" "held s' u = (if u = t then ms else held s u)"
    "is_mutex s' b = is_mutex s b" "owner s' b = owner s b" "blk_policy (blks s' b) = blk_policy (blks s b)"
    "b \<noteq> m \<Longrightarrow> mutexes s' b = mutexes s b" for u b
    using pri_only_task(1-3) [OF o, of u] pri_only_blk [OF o, of b] o g by (auto simp: pri_only_def is_mutex_def)
  have ms: "set (m # ms) = set (held s t)" "distinct (m # ms)"
    using t mutex_okD(3) [OF mu t(1)] by (auto simp: ms_def)
  show ?thesis
    unfolding mutex_ok_def holding_sel nest_sel v(1-6)
  proof (intro conjI allI impI)
    fix u b assume "live (st s u) \<and> b \<in> set (if u = t then m # ms else if u = t then ms else held s u)"
    then show "is_mutex s b" "owner s b = u" using mutex_okD(1) [OF mu, of u b] ms by (auto split: if_splits)
  next
    fix b assume "is_mutex s b \<and> owner s b \<noteq> NULL"
    then show "live (st s (owner s b))" "b \<in> set (if owner s b = t then m # ms else if owner s b = t then ms else held s (owner s b))"
      "0 < (if b = m then 1 else owner_nested (mutexes s' b))"
      using mutex_okD(2) [OF mu, of b] ms v(7) by (auto split: if_splits)
  next
    fix u assume "live (st s u)"
    then show "distinct (if u = t then m # ms else if u = t then ms else held s u)"
      using mutex_okD(3) [OF mu, of u] ms by auto
  qed (use mutex_okD(4,5) [OF mu] in auto)
qed

lemma unlock_last_presched:
  assumes i: "sysinv s" "callable s" and m: "is_mutex s m" "m \<noteq> NULL" "owner s m = t"
    and t: "st s t = K_RDY" "t \<noteq> g_idle_task s" "t = g_active_task s"
    and g: "mutex_task (g (mutexes s m)) = t"
  defines "s' \<equiv> mutex_release t m (upd_mutex m g s)"
  shows "bl s m = [] \<Longrightarrow> sysinv (upd_mutex m (\<lambda>k. k\<lparr>mutex_task := NULL\<rparr>) s')"
    and "bl s m = [] \<Longrightarrow> bl s' m = []"
    and "bl s m \<noteq> [] \<Longrightarrow> bl s' m \<noteq> []"
    and "bl s' m = n # ns \<Longrightarrow> presched (given m (\<lambda>k. k\<lparr>mutex_task := n, owner_nested := Suc 0\<rparr>) n s')"
proof -
  note k = sysinvD(1) [OF i(1)] and p = sysinv_presched [OF i]
  note c = kinvD(1) [OF k] and mu = kinvD(2) [OF k]
  define sb where "sb = upd_mutex m g s"
  define ms where "ms = filter (\<lambda>x. x \<noteq> m) (held s t)"
  define s1 where "s1 = holding t ms sb"
  have v: "tasks sb = tasks s" "blks sb = blks s" "is_mutex sb b = is_mutex s b" for b
    by (simp_all add: sb_def is_mutex_def)
  have lt: "live (st s t)" "t \<noteq> NULL" using t(1) core_okD(5) [OF c] by (auto simp: task_ok_def)
  have mh: "m \<in> set (held s t)" using mutex_okD(2) [OF mu m(1)] m(3) lt(2) by simp
  have w1: "waiters s1 u = (if u = t then {w \<in> waiters s t. bo s w \<noteq> m} else waiters s u)" for u
    by (auto simp: waiters_def s1_def ms_def v)
  have nb: "bo s w \<noteq> m" if "bl s m = []" "pended (st s w)" for w
    using that in_bl_iff [OF core_okD(3) [OF c], of w m] by auto
  have need1: "need_is Map.empty s1 u (pr s u)" if "live (st s u)" "u \<noteq> t \<or> bl s m = []" for u
  proof -
    have "waiters s1 u = waiters s u"
      unfolding w1 using that(2) nb by (auto simp: waiters_def)
    then show ?thesis using kinvD(3) [OF k] that(1) by (auto simp: pi_ok_def need_is_def s1_def v)
  qed
  have e1: "pi_except t s1" using need1 by (simp add: pi_except_def s1_def v)
  have pol: "x \<in> set (held sb t) \<Longrightarrow> blk_policy (blks sb x) = BLK_POLICY_PRI" for x
    using mutex_okD(1,4) [OF mu] lt(1) by (simp add: v)
  have csb: "core_ok sb" using c by (simp add: sb_def)
  have tb: "live (st sb t)" "t \<noteq> g_idle_task sb" "st sb t = K_RDY" using t lt by (simp_all add: v sb_def)
  have fold: "holding t (filter (\<lambda>x. x \<noteq> m) (held sb t)) sb = s1" by (simp add: s1_def ms_def v)
  note r = mutex_release_unlinks [OF csb tb(1,2) pol, of m, unfolded fold, OF _ e1, folded sb_def s'_def]
  have s': "s' = mutex_release t m sb" by (simp add: s'_def sb_def)
  have r: "core_ok s'" "pri_only s1 s'" "pi_ok s'" "bl s m = [] \<Longrightarrow> s' = s1"
    using r tb(3) need1 [OF lt(1)] by (simp_all add: s' v)
  have o: "pri_only (holding t ms (upd_mutex m g s)) s'" using r(2) by (simp add: s1_def sb_def)
  have g': "mutex_task (g (mutexes s m)) = owner s m" using g m(3) by simp
  note mu' = unlinked_mutex_ok [OF mu lt(1) mh g' o [unfolded ms_def], folded ms_def]
  have e': "pi_except t s'" using r(3) by (simp add: pi_ok_def pi_except_def)
  have lt': "live (st s' t)" "held s' t = ms" using lt pri_only_task(1,3) [OF o] by simp_all
  have set: "set (bl s' m) = set (bl s m)" using pri_only_blk [OF r(2), of m] by (simp add: s1_def v)
  have n1: "no_lost s1"
    by (rule no_lost_step [OF sysinvD(5) [OF i(1)]])
      (auto simp: s1_def sb_def holding_def upd_task_env upd_mutex_env split: if_splits)
  have tp1: "tick_pos s1"
    using sysinvD(2) [OF i(1)] by (auto simp: tick_pos_def remain_def s1_def sb_def holding_def)
  show "bl s m = [] \<Longrightarrow> bl s' m = []" "bl s m \<noteq> [] \<Longrightarrow> bl s' m \<noteq> []" using set by auto
  {
    assume b: "bl s m = []"
    define s2 where "s2 = upd_mutex m (\<lambda>k. k\<lparr>mutex_task := NULL\<rparr>) s'"
    note f = freed_effect [OF r(1) mu' e' lt'(1), of "\<lambda>k. k\<lparr>mutex_task := NULL\<rparr>", folded s2_def]
    have ts: "tasks s2 = tasks s'" by (simp add: s2_def)
    have "pi_ok s2" using r(3) ts by (simp add: pi_ok_def need_is_def waiters_def)
    moreover have "mutex_ok s2" using f(2) set b lt'(2) by (simp add: holding_same ts)
    ultimately have k2: "kinv s2" using f(1) set b by (intro kinvI) simp_all
    have "no_lost s2 = no_lost s1" unfolding s2_def r(4) [OF b] by (rule no_lost_same) simp_all
    moreover have "tick_pos s2" using tp1 by (simp add: s2_def r(4) [OF b] tick_pos_def remain_def)
    ultimately show "sysinv s2"
      using k k2 n1 sysinvD(2) [OF i(1)]
      by (intro sysinv_fields [OF i(1)]) (auto simp: s2_def r(4) [OF b] s1_def sb_def holding_def)
  }
  {
    assume n: "bl s' m = n # ns"
    define s2 where "s2 = given m (\<lambda>k. k\<lparr>mutex_task := n, owner_nested := Suc 0\<rparr>) n s'"
    note f = given_effect [OF r(1) mu' e' lt'(1) m(2) n, of "\<lambda>k. k\<lparr>mutex_task := n, owner_nested := Suc 0\<rparr>", folded s2_def]
    have pn: "pended (st s' n)" "bo s' n = m" using in_bl_iff [OF core_okD(3) [OF r(1)], of n m] n by simp_all
    have f: "core_ok s2" "mutex_ok (holding t ms s2)" "pi_except t s2" "tasks s2 t = tasks s' t" "n \<noteq> t"
      "goes n (woken (st s' n)) s' (pend_task_wakeup n s')"
      using f by simp_all
    have "mutex_ok s2" using f(2) lt'(2) by (simp add: holding_same f(4))
    moreover have "waiters s2 t = waiters (pend_task_wakeup n s') t"
      using f(5) by (auto simp: waiters_def s2_def given_def split: if_splits)
    then have "waiters s2 t = waiters s' t"
      using goes_waiters [OF f(6), of t] pn lt'(2) by (auto simp: waiters_def ms_def)
    moreover have prs: "pr s2 u = pr s' u" for u using goesD(6) [OF f(6)] by (simp add: s2_def given_def)
    ultimately have "need_is Map.empty s2 t (pr s2 t)"
      using r(3) lt'(1) f(4) by (auto simp: pi_ok_def need_is_def)
    then have "pi_ok s2" using f(3) by (auto simp: pi_ok_def pi_except_def)
    then have k2: "kinv s2" using f(1) \<open>mutex_ok s2\<close> by (intro kinvI)
    have "st s' n \<noteq> K_RDY" using pn(1) by auto
    note ow = given_only_wakes [OF r(1) f(6) this, of m "\<lambda>k. k\<lparr>mutex_task := n, owner_nested := Suc 0\<rparr>", folded s2_def]
    show "presched s2"
      using ow k2 pri_only_no_lost [OF n1 r(2)] pri_only_tick_pos [OF tp1 r(2)] f(4) t(1,3) pri_only_task(1) [OF r(2), of t]
        pri_only_env(1) [OF r(2)] r(2)
      by (intro presched_step [OF p])
        (simp_all add: only_wakes_def pri_only_def s1_def sb_def holding_def upd_task_env upd_mutex_env)
  }
qed

lemma krhino_mutex_unlock_sysinv:
  assumes i: "sysinv s" "callable s" and a: "g_intrpt_nested_level s = 0 \<Longrightarrow> g_active_task s \<noteq> g_idle_task s"
  shows "sysinv (snd (krhino_mutex_unlock m s))"
proof (cases "m = NULL \<or> g_sys_stat s = RHINO_STOPPED \<or> g_intrpt_nested_level s > 0 \<or> \<not> is_mutex s m \<or>
    g_active_task s \<noteq> owner s m")
  case True
  then show ?thesis using i(1) by (auto simp: krhino_mutex_unlock_def Let_def is_mutex_def)
next
  case False
  define sa where "sa = RHINO_CRITICAL_ENTER s"
  define t where "t = g_active_task s"
  have p: "sysinv sa" "callable sa" "blks sa = blks s" "mutexes sa = mutexes s" "tasks sa = tasks s"
    "g_intrpt_nested_level sa = 0" "g_active_task sa = t" "port sa = port s"
    using i False by (simp_all add: sa_def t_def word_gt_0 callable_def)
  have f: "m \<noteq> NULL" "g_sys_stat s \<noteq> RHINO_STOPPED" "is_mutex s m" "is_mutex sa m" "owner s m = t" "owner sa m = t"
    using False by (auto simp: is_mutex_def p t_def)
  have t: "st sa t = K_RDY" "t \<noteq> g_idle_task sa"
    using active_ready [OF sysinv_presched [OF i] _ i(1)] a False by (simp_all add: sa_def t_def word_gt_0)
  define g :: "kmutex_t \<Rightarrow> kmutex_t" where "g = (\<lambda>k. k\<lparr>owner_nested := cdec (mutex_nested_max (port s)) (owner_nested k)\<rparr>)"
  have g: "mutex_task (g (mutexes sa m)) = t" using f by (simp add: g_def p)
  note u = unlock_last_presched [where g = g, OF p(1,2) f(4,1,6) t p(7) [symmetric] g]
  define sb where "sb = upd_mutex m g sa"
  have e: "mutexes sb m = g (mutexes s m)" by (simp add: sb_def p)
  define sc where "sc = mutex_release t m sb"
  note u = u [folded sb_def, folded sc_def]
  show ?thesis
  proof (cases "owner_nested (g (mutexes s m)) > 0")
    case True
    then have "sysinv sb" unfolding sb_def using p f g by (intro sysinv_upd_mutex [OF p(1)]) simp
    then show ?thesis
      using True e f
      by (simp add: krhino_mutex_unlock_def Let_def sa_def [symmetric] p t_def [symmetric] is_mutex_def
          g_def [symmetric] sb_def [symmetric])
  next
    case False
    have "snd (krhino_mutex_unlock m s) =
      (case bl sc m of
         [] \<Rightarrow> RHINO_CRITICAL_EXIT (irq_off s) (upd_mutex m (\<lambda>m. m\<lparr>mutex_task := NULL\<rparr>) sc)
       | n # _ \<Rightarrow> RHINO_CRITICAL_EXIT_SCHED (irq_off s)
           (given m (\<lambda>k. k\<lparr>mutex_task := n, owner_nested := Suc 0\<rparr>) n sc))"
      using False e f
      by (simp add: krhino_mutex_unlock_def Let_def sa_def [symmetric] p t_def [symmetric] is_mutex_def
          g_def [symmetric] sb_def [symmetric] sc_def [symmetric] relink holding_Cons given_def split: list.split)
    then show ?thesis using u exit_sched_sysinv by (cases "bl sc m") (auto simp: p)
  qed
qed

text \<open>
  Deleting: with its type gone the mutex no longer counts for the priority of its owner, and
  the tasks that waited for it can be woken like those of any other object.
\<close>

lemma mutex_del_unlinks:
  assumes p: "presched s" and m: "is_mutex s m"
  defines "sa \<equiv> upd_blk m (\<lambda>b. b\<lparr>obj_type := RHINO_OBJ_TYPE_NONE\<rparr>) s"
  defines "s' \<equiv> (if owner s m \<noteq> NULL then mutex_release (owner s m) m sa else sa)"
  shows "presched s'" and "\<not> is_mutex s' m" and "set (bl s' m) = set (bl s m)" and "env s' = env s"
    and "mutexes s' = mutexes s" and "\<And>u. (tasks s' u)\<lparr>prio := 0, mutex_list := []\<rparr> = (tasks s u)\<lparr>prio := 0, mutex_list := []\<rparr>"
proof -
  note k = preschedD(1) [OF p]
  note c = kinvD(1) [OF k] and mu = kinvD(2) [OF k]
  define t where "t = owner s m"
  define ms where "ms = (if t = NULL then held s t else filter (\<lambda>x. x \<noteq> m) (held s t))"
  define s1 where "s1 = holding t ms sa"
  have v: "tasks sa = tasks s" "bl sa b = bl s b" "is_mutex sa b = (is_mutex s b \<and> b \<noteq> m)" "mutexes sa = mutexes s"
    "blk_policy (blks sa b) = blk_policy (blks s b)" for b
    by (simp_all add: sa_def is_mutex_def)
  have ca: "core_ok sa"
    using c by (simp add: core_ok_def ready_ok_def blk_ok_def tick_ok_def task_ok_def idle_ok_def remain_fun sa_def)
  have h: "m \<in> set (held s u) \<longleftrightarrow> u = t \<and> t \<noteq> NULL" if "live (st s u)" for u
    using mutex_okD(1) [OF mu that, of m] mutex_okD(2) [OF mu m] core_okD(5) [OF c] that
    by (auto simp: t_def task_ok_def)
  have mu1: "mutex_ok s1"
    unfolding mutex_ok_def s1_def holding_sel v
  proof (intro conjI allI impI)
    fix u b assume a: "live (st s u) \<and> b \<in> set (if u = t then ms else held s u)"
    then show "is_mutex s b" "b \<noteq> m" "owner s b = u"
      using mutex_okD(1) [OF mu, of u b] h [of u] by (auto simp: ms_def split: if_splits)
  next
    fix b assume "(is_mutex s b \<and> b \<noteq> m) \<and> owner s b \<noteq> NULL"
    then show "live (st s (owner s b))" "b \<in> set (if owner s b = t then ms else held s (owner s b))"
      "0 < owner_nested (mutexes s b)"
      using mutex_okD(2) [OF mu, of b] by (auto simp: ms_def)
  next
    fix u assume "live (st s u)"
    then show "distinct (if u = t then ms else held s u)" using mutex_okD(3) [OF mu, of u] by (auto simp: ms_def)
  qed (use mutex_okD(4,5) [OF mu] in auto)
  have w: "waiters s1 u = waiters s u" if "live (st s u)" "u \<noteq> t \<or> t = NULL" for u
    using that h [OF that(1)] by (auto simp: waiters_def s1_def v ms_def)
  have n: "need_is Map.empty s1 u (pr s u)" if "live (st s u)" "u \<noteq> t \<or> t = NULL" for u
    using kinvD(3) [OF k] that w [OF that] by (simp add: pi_ok_def need_is_def s1_def v)
  have nl: "no_lost s1"
  proof (rule no_lost_step)
    show "no_lost sa" unfolding sa_def
      by (rule no_lost_upd_blk [OF preschedD(5) [OF p] core_okD(3) [OF c]]) simp
  qed (auto simp: s1_def holding_def upd_task_env split: if_splits)
  have "core_ok s' \<and> pri_only s1 s' \<and> pi_ok s'"
  proof (cases "t = NULL")
    case True
    have "pi_ok s1" using n True by (simp add: pi_ok_def s1_def v)
    moreover have "s' = s1" using True by (simp add: s'_def t_def [symmetric] s1_def ms_def holding_same v)
    moreover have "s1 = sa" using True by (simp add: s1_def ms_def holding_same v)
    ultimately show ?thesis using ca by (simp add: pri_only_refl)
  next
    case False
    have t: "live (st sa t)" "m \<in> set (held s t)" using mutex_okD(2) [OF mu m] False by (simp_all add: t_def v)
    have ti: "t \<noteq> g_idle_task sa" using t(2) core_okD(6) [OF c] by (auto simp: idle_ok_def sa_def)
    have pol: "x \<in> set (held sa t) \<Longrightarrow> x \<noteq> m \<Longrightarrow> blk_policy (blks sa x) = BLK_POLICY_PRI" for x
      using mutex_okD(1,4) [OF mu] t(1) by (simp add: v)
    have fold: "holding t (filter (\<lambda>x. x \<noteq> m) (held sa t)) sa = s1" using False by (simp add: s1_def ms_def v)
    have "pi_except t s1" using n False by (simp add: pi_except_def s1_def v)
    from mutex_release_unlinks [OF ca t(1) ti pol, of m, unfolded fold, OF _ _ this] mu1
    show ?thesis using False by (simp add: s'_def t_def [symmetric])
  qed
  then have r: "core_ok s'" "pri_only s1 s'" "pi_ok s'" by simp_all
  note o = pri_only_task [OF r(2)] pri_only_blk [OF r(2)]
  have "tick_pos s1" using preschedD(2) [OF p] by (auto simp: tick_pos_def remain_def s1_def sa_def holding_def)
  moreover have "st s' u = st s u" for u using o(1) by (simp add: s1_def v)
  ultimately show "presched s'"
    using mutex_ok_pri_only [OF r(2) mu1] r(1,3) pri_only_no_lost [OF nl r(2)] pri_only_tick_pos [OF _ r(2)]
      pri_only_env [OF r(2)]
    by (intro presched_step [OF p])
      (simp_all add: kinvI s1_def sa_def holding_def upd_task_env upd_blk_env)
  show "\<not> is_mutex s' m" "set (bl s' m) = set (bl s m)"
    using r(2) o by (simp_all add: pri_only_def is_mutex_def s1_def v) (simp add: sa_def)
  show "env s' = env s" "mutexes s' = mutexes s"
    using r(2) by (simp_all add: pri_only_def s1_def sa_def holding_def upd_task_env upd_blk_env)
  show "(tasks s' u)\<lparr>prio := 0, mutex_list := []\<rparr> = (tasks s u)\<lparr>prio := 0, mutex_list := []\<rparr>" for u
  proof -
    have "(tasks s' u)\<lparr>prio := 0\<rparr> = (tasks s1 u)\<lparr>prio := 0\<rparr>" using r(2) by (simp add: pri_only_def)
    from arg_cong [OF this, of "mutex_list_update (\<lambda>_. [])"]
    show ?thesis by (auto simp: s1_def holding_def v)
  qed
qed

lemma krhino_mutex_del_sysinv:
  assumes i: "sysinv s" "callable s"
  shows "sysinv (snd (krhino_mutex_del m s))"
proof (cases "m = NULL \<or> g_intrpt_nested_level s > 0 \<or> \<not> is_mutex s m \<or> mutex_alloc_flag (mutexes s m) \<noteq> K_OBJ_STATIC_ALLOC")
  case True
  then show ?thesis using i(1) by (auto simp: krhino_mutex_del_def Let_def is_mutex_def)
next
  case False
  define sa where "sa = RHINO_CRITICAL_ENTER s"
  have p: "presched sa" "is_mutex sa m" "mutexes sa = mutexes s" "blks sa = blks s"
    "g_intrpt_nested_level sa = g_intrpt_nested_level s"
    using sysinv_presched [OF i] False by (simp_all add: sa_def is_mutex_def)
  define sb where "sb = upd_blk m (\<lambda>b. b\<lparr>obj_type := RHINO_OBJ_TYPE_NONE\<rparr>) sa"
  define sc where "sc = (if owner s m \<noteq> NULL then mutex_release (owner s m) m sb else sb)"
  note d = mutex_del_unlinks [OF p(1,2), folded sb_def, unfolded p(3), folded sc_def]
  have "presched (wake_all pend_task_rm m sc)" using rm.wake_all_effect [OF d(1,2)] by simp
  then have "sysinv (RHINO_CRITICAL_EXIT_SCHED (irq_off s)
      (upd_kobj (\<lambda>g. g\<lparr>mutex_head := remove1 m (mutex_head g)\<rparr>) (wake_all pend_task_rm m sc)))"
    by (intro exit_sched_sysinv) simp
  moreover have "mutexes sb = mutexes s" by (simp add: sb_def p)
  ultimately show ?thesis
    using False by (cases "owner s m = NULL")
      (simp_all add: krhino_mutex_del_def Let_def sa_def [symmetric] p(3-5) is_mutex_def sb_def [symmetric] sc_def)
qed

end
