(* ===== verification/Sys.thy ===== *)
theory Sys
  imports Task_Inv
begin

text \<open>
  Start of the system and interrupts (\<^verbatim>\<open>k_sys.c\<close>, \<^verbatim>\<open>k_stats.c\<close>), and what the remaining entry
  points of the scheduler and of the tick keep. The addresses of the idle task's name, stack
  and entry point are arguments: the linker chooses them.
\<close>

section \<open>Model\<close>

abbreviation (input) RHINO_CONFIG_IDLE_TASK_STACK_SIZE :: size_t where
  "RHINO_CONFIG_IDLE_TASK_STACK_SIZE \<equiv> 100"

definition tick_list_init :: "kernel \<Rightarrow> kernel" where
  "tick_list_init s = s\<lparr>g_tick_head := []\<rparr>"

definition kobj_list_init :: "kernel \<Rightarrow> kernel" where
  "kobj_list_init s =
     upd_kobj (\<lambda>g. g\<lparr>task_head := [], mutex_head := [], sem_head := [], queue_head := [],
       buf_queue_head := [], event_head := []\<rparr>) s"

definition krhino_init :: "ptr \<Rightarrow> ptr \<Rightarrow> ptr \<Rightarrow> kernel \<Rightarrow> kstat_t \<times> kernel" where
  "krhino_init idle_name g_idle_task_stack idle_task s =
     (let s = s\<lparr>g_sys_stat := RHINO_STOPPED\<rparr>;
          s = upd_rq runqueue_init s;
          s = tick_list_init s;
          s = kobj_list_init s;
          (_, s) = krhino_task_create (g_idle_task s) idle_name NULL RHINO_IDLE_PRI 0 g_idle_task_stack
                     RHINO_CONFIG_IDLE_TASK_STACK_SIZE idle_task True s
      in (RHINO_SUCCESS, s))"

text \<open>
  \<^verbatim>\<open>cpu_first_task_start\<close> is code of the port; it starts the first task and does not return.
\<close>

definition krhino_start :: "kernel \<Rightarrow> kret \<times> kernel" where
  "krhino_start s =
     (if g_sys_stat s = RHINO_STOPPED then
        let s = preferred_cpu_ready_task_get s;
            s = s\<lparr>g_active_task := g_preferred_ready_task s\<rparr>;
            s = s\<lparr>g_sys_stat := RHINO_RUNNING\<rparr>
        in (Blocked, s)
      else (Returned RHINO_RUNNING, s))"

definition krhino_intrpt_enter :: "kernel \<Rightarrow> kstat_t \<times> kernel" where
  "krhino_intrpt_enter s =
     (let cpsr = irq_off s;
          s = RHINO_CRITICAL_ENTER s;
          s = s\<lparr>g_intrpt_nested_level := g_intrpt_nested_level s + 1\<rparr>
      in (RHINO_SUCCESS, RHINO_CRITICAL_EXIT cpsr s))"

definition cpu_intrpt_switch :: "kernel \<Rightarrow> kernel" where
  "cpu_intrpt_switch s = s\<lparr>cpu_switch := True\<rparr>"

definition krhino_intrpt_exit :: "kernel \<Rightarrow> kernel" where
  "krhino_intrpt_exit s =
     (let cpsr = irq_off s;
          s = RHINO_CRITICAL_ENTER s;
          s = s\<lparr>g_intrpt_nested_level := g_intrpt_nested_level s - 1\<rparr> in
      if g_intrpt_nested_level s > 0 then RHINO_CRITICAL_EXIT cpsr s
      else if g_sched_lock s > 0 then RHINO_CRITICAL_EXIT cpsr s
      else
        let s = preferred_cpu_ready_task_get s in
        if g_preferred_ready_task s = g_active_task s then RHINO_CRITICAL_EXIT cpsr s
        else RHINO_CRITICAL_EXIT cpsr (cpu_intrpt_switch s))"

text \<open>
  What the context switch of the port does to the kernel's variables, once it is requested and
  no interrupt handler runs.
\<close>

definition cpu_context_switch :: "kernel \<Rightarrow> kernel" where
  "cpu_context_switch s = s\<lparr>g_active_task := g_preferred_ready_task s, cpu_switch := False\<rparr>"

section \<open>The scheduler lock\<close>

lemma krhino_sched_disable_sysinv:
  assumes i: "sysinv s" "callable s"
  shows "sysinv (snd (krhino_sched_disable s))"
proof (cases "g_intrpt_nested_level s > 0 \<or> g_sched_lock s \<ge> SCHED_MAX_LOCK_COUNT")
  case True
  then show ?thesis using i(1) by (auto simp: krhino_sched_disable_def Let_def)
next
  case False
  then have n: "g_intrpt_nested_level s = 0" by (simp add: word_gt_0)
  have "g_sched_lock s + 1 \<noteq> 0" using False by (auto simp: eq_neg_iff_add_eq_0 [symmetric])
  then show ?thesis
    using False i active_ready [OF sysinv_presched [OF i] n i(1)] n sysinvD [OF i(1)]
    by (simp add: krhino_sched_disable_def Let_def)
       (simp add: sysinv_def sched_ok_def no_fatal_def callable_def word_gt_0 RHINO_CRITICAL_ENTER_def)
qed

lemma krhino_sched_enable_sysinv:
  assumes i: "sysinv s" "callable s"
  shows "sysinv (snd (krhino_sched_enable s))"
proof (cases "g_intrpt_nested_level s > 0 \<or> g_sched_lock s = 0")
  case True
  then show ?thesis using i(1) by (auto simp: krhino_sched_enable_def Let_def)
next
  case False
  define sa where "sa = (RHINO_CRITICAL_ENTER s)\<lparr>g_sched_lock := g_sched_lock s - 1\<rparr>"
  have p: "presched s" by (rule sysinv_presched [OF i])
  have a: "st s (g_active_task s) = K_RDY" "\<not> cpu_switch s"
    using p False by (simp_all add: presched_def presched0_def word_gt_0)
  have "presched sa"
    using p a by (simp add: presched_def presched0_def sa_def RHINO_CRITICAL_ENTER_def no_fatal_def callable_def)
  moreover have "sysinv (RHINO_CRITICAL_EXIT c sa)" if "g_sched_lock s - 1 > 0" for c
    using i(1) a that False by (simp add: sa_def) (simp add: sysinv_def sched_ok_def no_fatal_def RHINO_CRITICAL_ENTER_def word_gt_0)
  ultimately show ?thesis
    using False exit_sched_sysinv [of sa]
    by (cases "g_sched_lock s - 1 > 0") (simp_all add: krhino_sched_enable_def Let_def sa_def)
qed

section \<open>Ticks\<close>

lemma sysinv_in_intrpt:
  assumes "g_intrpt_nested_level s > 0"
  shows "sysinv s \<longleftrightarrow> kinv s \<and> tick_pos s \<and> no_fatal s \<and> no_lost s \<and>
    (g_sched_lock s > 0 \<longrightarrow> st s (g_active_task s) = K_RDY \<and> \<not> cpu_switch s)"
  using assms by (auto simp: sysinv_def sched_ok_def)

lemma tick_list_update_sysinv:
  assumes i: "sysinv s" and n: "g_intrpt_nested_level s > 0"
  shows "sysinv (tick_list_update 1 s)"
proof -
  note k = sysinvD(1) [OF i] and p = sysinvD(2) [OF i]
  define s' where "s' = tick_list_update 1 s"
  note e = tick_list_update_effect [OF k p, folded s'_def]
  have f: "g_intrpt_nested_level s' = g_intrpt_nested_level s" "g_sched_lock s' = g_sched_lock s" "cpu_switch s' = cpu_switch s"
    "g_active_task s' = g_active_task s"
    using e(3) by (simp_all add: env_def)
  have r: "st s' t = K_RDY" if "st s t = K_RDY" for t
  proof (cases "t \<in> set (expired s)")
    case True
    then have "tick_head (tasks s t)"
      using core_okD(4) [OF kinvD(1) [OF k]] by (auto simp: tick_ok_def expired_def dest: set_takeWhileD)
    then show ?thesis using core_okD(4) [OF kinvD(1) [OF k]] that by (auto simp: tick_ok_def)
  next
    case False
    then show ?thesis using nopri_sel(2) [OF e(7) [OF False]] that by simp
  qed
  show ?thesis
    using i n r e(1,2,4,5) tick_list_update_no_lost [OF k p sysinvD(5) [OF i]] f
    by (simp add: sysinv_in_intrpt s'_def [symmetric] no_fatal_def)
qed

lemma presched_of_intrpt: "sysinv s \<Longrightarrow> g_intrpt_nested_level s > 0 \<Longrightarrow> presched s"
  by (rule sysinv_presched) (auto simp: callable_def)

lemma time_slice_presched:
  assumes "presched s"
  shows "presched (upd_task t (\<lambda>k. k\<lparr>time_slice_cnt := f k\<rparr>) s)"
  by (rule upd_task_presched [OF assms kinv_upd_field [OF preschedD(1) [OF assms]]]) (simp_all add: task_view_def)

lemma time_slice_update_sysinv:
  assumes i: "sysinv s" and n: "g_intrpt_nested_level s > 0"
  shows "sysinv (time_slice_update s)"
proof -
  define sa where "sa = RHINO_CRITICAL_ENTER s"
  have p: "presched sa" "sysinv sa" "g_intrpt_nested_level sa > 0"
    using presched_of_intrpt [OF i n] i n by (simp_all add: sa_def)
  define t where "t = hd (ring sa (pr sa (g_active_task sa)))"
  have ev: "sysinv s'" if "presched s'" "g_intrpt_nested_level s' > 0" for s'
    using that by (simp add: sysinv_in_intrpt presched_def presched0_def)
  show ?thesis
  proof (cases "ring sa (pr sa (g_active_task sa)) = []")
    case True
    then show ?thesis
      using p(2) by (simp add: time_slice_update_def Let_def sa_def [symmetric] is_ready_list_empty_def)
  next
    case False
    have tr: "pr sa t = pr sa (g_active_task sa)"
      using hd_in_set [OF False] in_ring_iff [OF core_okD(2) [OF kinvD(1) [OF preschedD(1) [OF p(1)]]], of t]
      by (simp add: t_def [symmetric])
    define sb where "sb = (if time_slice_cnt (tasks sa t) > 0
      then upd_task t (\<lambda>k. k\<lparr>time_slice_cnt := time_slice_cnt k - 1\<rparr>) sa else sa)"
    have b: "presched sb" "g_intrpt_nested_level sb > 0" "ring sb = ring sa" "pr sb t = pr sa t"
      using time_slice_presched [OF p(1)] p by (simp_all add: sb_def)
    define sc where "sc = upd_task t (\<lambda>k. k\<lparr>time_slice_cnt := time_total k\<rparr>) (ready_list_head_to_tail t sb)"
    have c: "presched sc" unfolding sc_def
      using b False by (intro time_slice_presched head_to_tail_presched) (simp_all add: tr)
    have "g_intrpt_nested_level sc > 0"
      using b(2) env_sel(4) [OF ready_list_head_to_tail_env, of t sb] by (simp add: sc_def)
    with c have "sysinv sc" by (rule ev)
    moreover have "sysinv sb" using b(1,2) by (rule ev)
    moreover have "time_slice_update s =
      RHINO_CRITICAL_EXIT (irq_off s)
        (if sched_policy (tasks sa t) = KSCHED_FIFO \<or> length (ring sa (pr sa (g_active_task sa))) = 1 then sa
         else if time_slice_cnt (tasks sb t) > 0 then sb else sc)"
      using False
      by (simp add: time_slice_update_def Let_def sa_def [symmetric] is_ready_list_empty_def t_def [symmetric]
          sb_def [symmetric] sc_def)
    ultimately show ?thesis using p(2) by simp
  qed
qed

lemma krhino_tick_proc_sysinv:
  assumes i: "sysinv s" and n: "g_intrpt_nested_level s > 0"
  shows "sysinv (krhino_tick_proc s)"
proof -
  have "g_intrpt_nested_level (tick_list_update 1 s) > 0"
    using n tick_list_update_effect(3) [OF sysinvD(1,2) [OF i]] by (simp add: env_def)
  then show ?thesis
    unfolding krhino_tick_proc_def by (intro time_slice_update_sysinv tick_list_update_sysinv assms)
qed

section \<open>Interrupts and context switches\<close>

lemma nested_inc: "(n :: 8 word) < 188 \<Longrightarrow> n + 1 > 0"
  by (auto simp: word_gt_0 eq_neg_iff_add_eq_0 [symmetric])

lemma krhino_intrpt_enter_sysinv:
  assumes i: "sysinv s" and n: "g_intrpt_nested_level s < 188"
  shows "sysinv (snd (krhino_intrpt_enter s))"
proof -
  define sa where "sa = (RHINO_CRITICAL_ENTER s)\<lparr>g_intrpt_nested_level := g_intrpt_nested_level s + 1\<rparr>"
  have "g_intrpt_nested_level sa > 0" using nested_inc [OF n] by (simp add: sa_def)
  note e = sysinv_in_intrpt [OF this]
  have "sysinv sa"
    unfolding e using i by (simp add: sysinv_def sched_ok_def sa_def RHINO_CRITICAL_ENTER_def no_fatal_def)
  then show ?thesis by (simp add: krhino_intrpt_enter_def Let_def sa_def)
qed

lemma preferred_best:
  assumes "core_ok s"
  shows "preferred_cpu_ready_task_get s = s\<lparr>g_preferred_ready_task := best s\<rparr>"
  using best_ready(1,2) [OF assms] by (simp add: preferred_cpu_ready_task_get_def Let_def best_def)

lemma krhino_intrpt_exit_sysinv:
  assumes i: "sysinv s" and n: "g_intrpt_nested_level s > 0"
  shows "sysinv (krhino_intrpt_exit s)"
proof -
  define sa where "sa = (RHINO_CRITICAL_ENTER s)\<lparr>g_intrpt_nested_level := g_intrpt_nested_level s - 1\<rparr>"
  note d = sysinvD [OF i]
  have f: "kinv sa" "tick_pos sa" "no_fatal sa" "no_lost sa" "tasks sa = tasks s" "g_sched_lock sa = g_sched_lock s"
    "cpu_switch sa = cpu_switch s" "g_active_task sa = g_active_task s" "best sa = best s"
    using d by (simp_all add: sa_def RHINO_CRITICAL_ENTER_def no_fatal_def best_def)
  have l: "g_sched_lock s > 0 \<longrightarrow> st s (g_active_task s) = K_RDY \<and> \<not> cpu_switch s" using d(3) by (simp add: sched_ok_def)
  show ?thesis
  proof (cases "g_intrpt_nested_level sa > 0 \<or> g_sched_lock s > 0")
    case True
    then have "sysinv sa" using f l by (auto simp: sysinv_def sched_ok_def)
    then show ?thesis
      using True by (auto simp: krhino_intrpt_exit_def Let_def sa_def)
  next
    case False
    note p = preferred_best [OF kinvD(1) [OF f(1)]]
    have "sysinv (sa\<lparr>g_preferred_ready_task := best s\<rparr>)" if "best s = g_active_task s"
      using f False that by (simp add: sysinv_def sched_ok_def no_fatal_def best_def)
    moreover have "sysinv (sa\<lparr>g_preferred_ready_task := best s, cpu_switch := True\<rparr>)"
      using f False by (simp add: sysinv_def sched_ok_def no_fatal_def best_def)
    ultimately show ?thesis
      using False f(8,9) p
      by (cases "best s = g_active_task s")
        (simp_all add: krhino_intrpt_exit_def Let_def sa_def [symmetric] cpu_intrpt_switch_def, simp_all add: sa_def)
  qed
qed

lemma cpu_context_switch_sysinv:
  assumes i: "sysinv s" and n: "g_intrpt_nested_level s = 0" and c: "cpu_switch s"
  shows "sysinv (cpu_context_switch s)"
proof -
  note d = sysinvD [OF i]
  have l: "g_sched_lock s = 0" and b: "g_preferred_ready_task s = best s"
    using d(3) n c by (auto simp: sched_ok_def word_gt_0)
  have "best s \<noteq> NULL"
    using best_ready(3) [OF kinvD(1) [OF d(1)]] core_okD(5) [OF kinvD(1) [OF d(1)]] by (auto simp: task_ok_def)
  then have "kinv (cpu_context_switch s)"
    using d(1) by (intro kinv_cong [OF d(1)])
      (auto simp: cpu_context_switch_def b is_mutex_def kinv_suspend_count [OF d(1)])
  then show ?thesis
    using d l b
    by (simp add: sysinv_def sched_ok_def no_fatal_def best_def cpu_context_switch_def tick_pos_def remain_def)
qed

section \<open>Starting the system\<close>

text \<open>
  Before the system runs, the initial memory is all zero, \<^verbatim>\<open>krhino_init\<close> creates the idle task,
  and the application may create tasks. \<open>as_running\<close> is the state seen as one in which the
  idle task runs with the scheduler locked, so that the lemmas on a running system apply.
\<close>

definition boot :: "kernel \<Rightarrow> bool" where
  "boot s \<longleftrightarrow>
     (\<forall>t. tasks s t = zero_task) \<and> (\<forall>b. blk_list (blks s b) = [] \<and> obj_type (blks s b) = RHINO_OBJ_TYPE_NONE) \<and>
     task_bit_map (g_ready_queue s) = [0, 0] \<and> (\<forall>p. cur_list_item (g_ready_queue s) p = []) \<and>
     g_sched_lock s = 0 \<and> g_intrpt_nested_level s = 0 \<and> \<not> cpu_switch s \<and> \<not> ub s \<and> k_errs s = [] \<and>
     \<not> g_idle_task_spawned s \<and> g_idle_task s \<noteq> NULL"

definition as_running :: "kernel \<Rightarrow> kernel" where
  "as_running s = s\<lparr>g_sys_stat := RHINO_RUNNING, g_active_task := g_idle_task s, g_sched_lock := 1\<rparr>"

definition prestart :: "kernel \<Rightarrow> bool" where
  "prestart s \<longleftrightarrow> g_sys_stat s = RHINO_STOPPED \<and> g_sched_lock s = 0 \<and> g_intrpt_nested_level s = 0 \<and> sysinv (as_running s)"

lemma zero_task_sel [simp]:
  "task_state zero_task = K_SEED" "mutex_list zero_task = []" "tick_head zero_task = False" "prio zero_task = 0"
  "suspend_count zero_task = 0"
  by (simp_all add: zero_task_def)

lemma krhino_init_prestart:
  assumes b: "boot s" and n: "name \<noteq> NULL" "stack \<noteq> NULL" "entry \<noteq> NULL"
  shows "prestart (snd (krhino_init name stack entry s))"
proof -
  define idle where "idle = g_idle_task s"
  define s' where "s' = snd (krhino_init name stack entry s)"
  have t: "tasks s' = (tasks s)(idle := tasks s' idle)" "st s' idle = K_RDY" "pr s' idle = RHINO_IDLE_PRI"
    "b_prio (tasks s' idle) = RHINO_IDLE_PRI" "held s' idle = []" "\<not> tick_head (tasks s' idle)"
    "blks s' = blks s" "g_tick_head s' = []" "g_idle_task s' = idle" "g_sched_lock s' = 0"
    "g_intrpt_nested_level s' = 0" "\<not> cpu_switch s'" "\<not> ub s'" "k_errs s' = []" "g_sys_stat s' = RHINO_STOPPED"
    "ring s' = (\<lambda>p. if p = RHINO_IDLE_PRI then [idle] else [])"
    "task_bit_map (g_ready_queue s') = krhino_bitmap_set [0, 0] RHINO_IDLE_PRI"
    "highest_pri (g_ready_queue s') = RHINO_IDLE_PRI"
    using b n unfolding s'_def
    by (simp_all add: boot_def krhino_init_def tick_list_init_def kobj_list_init_def krhino_task_create_def task_create_def
        Let_def upd_rq_def upd_kobj_def upd_task_def ready_list_add_tail_def ready_list_init_def runqueue_init_def
        is_ready_list_empty_def RHINO_CRITICAL_ENTER_def RHINO_CRITICAL_EXIT_def idle_def fun_eq_iff)
  have z: "u \<noteq> idle \<Longrightarrow> tasks s' u = zero_task" for u using t(1) b by (simp add: boot_def fun_eq_iff)
  have nul: "idle \<noteq> NULL" using b by (simp add: boot_def idle_def)
  have stu: "st s' u = (if u = idle then K_RDY else K_SEED)" for u using z t(2) by simp
  have o: "blk_list (blks s' x) = []" "\<not> is_mutex s' x" for x using b t(7) by (simp_all add: boot_def is_mutex_def)
  let ?s = "as_running s'"
  have v: "tasks ?s = tasks s'" "blks ?s = blks s'" "g_tick_head ?s = []" "g_idle_task ?s = idle" "g_active_task ?s = idle"
    "g_ready_queue ?s = g_ready_queue s'" "is_mutex ?s x = is_mutex s' x" for x
    using t(8,9) by (simp_all add: as_running_def is_mutex_def)
  have "\<not> bm_test [0, 0] p" for p by (simp add: bm_test_def nth_Cons')
  then have "rq_ok (g_ready_queue ?s)"
    unfolding rq_ok_def v t(16-18) by (auto simp: bm_test_set)
  moreover have "ready_ok ?s" using stu t(3) by (auto simp: ready_ok_def v t(16))
  moreover have th: "\<not> tick_head (tasks s' u)" for u using t(6) z [of u] by (cases "u = idle") simp_all
  then have "blk_ok ?s" "tick_ok ?s" using stu o by (auto simp: blk_ok_def tick_ok_def v)
  moreover have hl: "held s' u = []" for u using t(5) z [of u] by (cases "u = idle") simp_all
  then have "task_ok ?s" using stu t(3,4) nul by (auto simp: task_ok_def v)
  moreover have "idle_ok ?s" using t nul by (simp add: idle_ok_def v)
  ultimately have "core_ok ?s" by (intro core_okI)
  moreover have "mutex_ok ?s" using o hl stu by (auto simp: mutex_ok_def v)
  moreover have "pi_ok ?s" using stu t(3,4) by (auto simp: pi_ok_def need_is_def waiters_def v)
  moreover have "no_lost ?s" using stu by (auto simp: no_lost_def v)
  ultimately show ?thesis
    using t by (simp add: prestart_def s'_def [symmetric] sysinv_def kinv_def tick_pos_def v sched_ok_def no_fatal_def)
      (simp add: as_running_def)
qed

lemma as_running_upd:
  "as_running (upd_task t f s) = upd_task t f (as_running s)"
  "as_running (upd_kobj g s) = upd_kobj g (as_running s)"
  "as_running (RHINO_CRITICAL_ENTER s) = RHINO_CRITICAL_ENTER (as_running s)"
  "as_running (RHINO_CRITICAL_EXIT c s) = RHINO_CRITICAL_EXIT c (as_running s)"
  "as_running (ready_list_add_tail t s) = ready_list_add_tail t (as_running s)"
  "as_running (s\<lparr>g_idle_task_spawned := b\<rparr>) = (as_running s)\<lparr>g_idle_task_spawned := b\<rparr>"
  "port (as_running s) = port s" "irq_off (as_running s) = irq_off s" "tasks (as_running s) = tasks s"
  "g_intrpt_nested_level (as_running s) = g_intrpt_nested_level s"
  "g_idle_task_spawned (as_running s) = g_idle_task_spawned s"
  by (cases s; simp add: as_running_def upd_task_def upd_kobj_def RHINO_CRITICAL_ENTER_def RHINO_CRITICAL_EXIT_def
      ready_list_add_tail_def ready_list_init_def is_ready_list_empty_def upd_rq_def Let_def)+

lemma locked_exit_sched: "g_sched_lock s > 0 \<Longrightarrow> RHINO_CRITICAL_EXIT_SCHED c s = RHINO_CRITICAL_EXIT c s"
  by (simp add: RHINO_CRITICAL_EXIT_SCHED_def core_sched_def Let_def RHINO_CRITICAL_ENTER_def RHINO_CRITICAL_EXIT_def)

lemma task_create_as_running:
  assumes "g_sys_stat s = RHINO_STOPPED"
  shows "as_running (snd (task_create t name arg pri ticks stack sz entry autorun flag cpu s)) =
    snd (task_create t name arg pri ticks stack sz entry autorun flag cpu (as_running s))"
proof -
  have "g_sched_lock (as_running x) = 1" "g_sys_stat (as_running x) = RHINO_RUNNING" for x
    by (simp_all add: as_running_def)
  then show ?thesis using assms by (simp add: task_create_def Let_def as_running_upd locked_exit_sched)
qed

lemma krhino_start_sysinv:
  assumes p: "prestart s"
  shows "sysinv (snd (krhino_start s))" and "fst (krhino_start s) = Blocked"
    and "g_sys_stat (snd (krhino_start s)) = RHINO_RUNNING" and "callable (snd (krhino_start s))"
proof -
  have st: "g_sys_stat s = RHINO_STOPPED" "g_sched_lock s = 0" "g_intrpt_nested_level s = 0" "sysinv (as_running s)"
    using p by (simp_all add: prestart_def)
  note d = sysinvD [OF st(4)]
  have sw: "\<not> cpu_switch s" using d(3) by (simp add: sched_ok_def as_running_def)
  have best: "best (as_running s) = best s" by (simp add: best_def as_running_def)
  have "preferred_cpu_ready_task_get (as_running s) = (as_running s)\<lparr>g_preferred_ready_task := best s\<rparr>"
    using preferred_best [OF kinvD(1) [OF d(1)]] best by simp
  then have pref: "preferred_cpu_ready_task_get s = s\<lparr>g_preferred_ready_task := best s\<rparr>"
    using best_ready(1,2) [OF kinvD(1) [OF d(1)]]
    by (simp add: preferred_cpu_ready_task_get_def as_running_def Let_def best_def)
  define s' where "s' = s\<lparr>g_preferred_ready_task := best s, g_active_task := best s, g_sys_stat := RHINO_RUNNING\<rparr>"
  have s': "krhino_start s = (Blocked, s')" using st(1) by (simp add: krhino_start_def Let_def pref s'_def)
  have "best (as_running s) \<noteq> NULL"
    using best_ready(3) [OF kinvD(1) [OF d(1)]] core_okD(5) [OF kinvD(1) [OF d(1)]] by (auto simp: task_ok_def)
  then have "best s \<noteq> NULL" by (simp add: best)
  then have "kinv s'"
    by (intro kinv_cong [OF d(1)])
      (auto simp: s'_def as_running_def is_mutex_def dest: kinv_suspend_count [OF d(1), unfolded as_running_def, simplified])
  then have "sysinv s'"
    using d st sw by (simp add: sysinv_def sched_ok_def no_fatal_def best_def s'_def as_running_def tick_pos_def remain_def no_lost_def avail_def)
  then show "sysinv (snd (krhino_start s))" "fst (krhino_start s) = Blocked"
    "g_sys_stat (snd (krhino_start s)) = RHINO_RUNNING" "callable (snd (krhino_start s))"
    using sw by (simp_all add: s' ) (simp_all add: s'_def callable_def)
qed

end
