(* ===== verification/Frame.thy ===== *)
theory Frame
  imports Sem Event Queue Buf_queue Mutex Sys
begin

text \<open>
  What every entry point of the kernel leaves as it was: the status of the system, the address
  of the idle task and, on return, the interrupt mask. A critical section is closed on every
  path, with one exception, deleting the idle task.
\<close>

definition keep :: "kernel \<Rightarrow> kstat_t \<times> ptr \<times> bool" where
  "keep s = (g_sys_stat s, g_idle_task s, irq_off s)"

lemma keepD:
  assumes "keep s' = keep s"
  shows "g_sys_stat s' = g_sys_stat s" and "g_idle_task s' = g_idle_task s" and "irq_off s' = irq_off s"
  using assms by (simp_all add: keep_def)

section \<open>Internal operations\<close>

lemma upd_keep:
  "keep (upd_sem b fs s) = keep s" "keep (upd_event b fe s) = keep s" "keep (upd_queue b fq s) = keep s"
  "keep (upd_buf_queue b fb s) = keep s" "keep (set_out p v s) = keep s"
  by (simp_all add: keep_def upd_sem_def upd_event_def upd_queue_def upd_buf_queue_def set_out_def)

lemmas upd_kept [simp] = upd_keep [THEN keepD(1)] upd_keep [THEN keepD(2)] upd_keep [THEN keepD(3)]

lemma list_keep:
  "keep (tick_list_insert t n s) = keep s" "keep (preferred_cpu_ready_task_get s) = keep s"
  "keep (pend_task_wakeup t s) = keep s" "keep (pend_task_rm t s) = keep s"
  by (simp_all add: keep_def tick_list_insert_def tick_list_pri_insert_def preferred_cpu_ready_task_get_def
      pend_task_wakeup_def pend_task_rm_def Let_def split: task_stat_t.split)

lemmas list_kept [simp] = list_keep [THEN keepD(1)] list_keep [THEN keepD(2)] list_keep [THEN keepD(3)]

lemma mutex_pri_look_keep:
  assumes "mutex_pri_look t m s = (p, s')"
  shows "g_sys_stat s' = g_sys_stat s" and "g_idle_task s' = g_idle_task s" and "irq_off s' = irq_off s"
  using mutex_pri_look_env_sel(1,6,14) [of t m s] assms by simp_all

lemma task_pri_change_keep: "keep (snd (task_pri_change t p s)) = keep s"
proof (induction t p s rule: task_pri_change.induct)
  case (1 t p s)
  have "keep (snd r) = keep s" if "task_pri_change_round t p s = Inl r" for r
    using that
    by (auto simp: task_pri_change_round_def keep_def Let_def dest: mutex_pri_look_keep
        split: if_splits task_stat_t.splits prod.splits)
  moreover have "keep s' = keep s" if "task_pri_change_round t p s = Inr (t', p', s')" for t' p' s'
    using that
    by (auto simp: task_pri_change_round_def keep_def Let_def dest: mutex_pri_look_keep
        split: if_splits task_stat_t.splits prod.splits)
  ultimately show ?case
    using 1 by (subst task_pri_change.simps) (auto split: sum.split)
qed

lemmas task_pri_change_kept [simp] =
  task_pri_change_keep [THEN keepD(1)] task_pri_change_keep [THEN keepD(2)] task_pri_change_keep [THEN keepD(3)]

lemma mutex_release_keep: "keep (mutex_release t m s) = keep s"
  by (simp add: keep_def mutex_release_def split_def Let_def)

lemma pend_keep:
  "keep (pend_to_blk_obj b t n s) = keep s" "keep (snd (pend_state_end_proc t s)) = keep s"
  "keep (mutex_release t m s) = keep s" "keep (mutex_task_pri_reset t s) = keep s"
  by (simp_all add: keep_def pend_to_blk_obj_def pend_state_end_proc_def mutex_task_pri_reset_def Let_def
      keepD [OF mutex_release_keep] split: blk_state_t.split)

lemmas pend_kept [simp] = pend_keep [THEN keepD(1)] pend_keep [THEN keepD(2)] pend_keep [THEN keepD(3)]

lemma task_msg_recv_keep: "keep (task_msg_recv m t s) = keep s"
  by (simp add: keep_def task_msg_recv_def Let_def)

lemma wake_loop_keep: "(\<And>t s. keep (w t s) = keep s) \<Longrightarrow> keep (wake_loop w b n s) = keep s"
  by (induction n arbitrary: s) (simp_all add: Let_def keep_def split: list.split)

lemma wake_keep:
  "keep (wake_all pend_task_rm b s) = keep s" "keep (wake_all pend_task_wakeup b s) = keep s"
  "keep (wake_all (task_msg_recv m) b s) = keep s" "keep (task_msg_recv m t s) = keep s"
  by (simp_all add: wake_all_def wake_loop_keep list_keep task_msg_recv_keep)

lemma event_set_walk_keep: "keep (event_set_walk e f ts s) = keep s"
proof (induction ts arbitrary: s)
  case (Cons t ts)
  then show ?case by (simp add: Let_def upd_keep list_keep)
qed simp

lemma task_mutex_free_keep: "keep (task_mutex_free t s) = keep s"
proof -
  have "keep (task_mutex_free_one m s) = keep s" for m s
    by (simp add: keep_def task_mutex_free_one_def Let_def split: list.split)
  then have "keep (fold task_mutex_free_one ms s) = keep s" for ms
    by (induction ms arbitrary: s) simp_all
  then show ?thesis by (simp add: task_mutex_free_def)
qed

lemma tick_expire_keep: "keep (tick_expire t s) = keep s"
  by (simp add: keep_def tick_expire_def Let_def split: task_stat_t.split)

lemma tick_list_walk_keep: "keep (tick_list_walk ts s) = keep s"
  by (induction ts s rule: tick_list_walk.induct) (simp_all add: Let_def tick_expire_keep)

lemmas loop_keep = wake_keep event_set_walk_keep task_mutex_free_keep tick_list_walk_keep
lemmas loop_kept [simp] = loop_keep [THEN keepD(1)] loop_keep [THEN keepD(2)] loop_keep [THEN keepD(3)]

lemma core_sched_kept [simp]:
  "g_sys_stat (core_sched s) = g_sys_stat s" "g_idle_task (core_sched s) = g_idle_task s" "irq_off (core_sched s) = irq_off s"
  "g_sys_stat (RHINO_CRITICAL_EXIT_SCHED c s) = g_sys_stat s" "g_idle_task (RHINO_CRITICAL_EXIT_SCHED c s) = g_idle_task s"
  "irq_off (RHINO_CRITICAL_EXIT_SCHED c s) = c"
  by (simp_all add: core_sched_def RHINO_CRITICAL_EXIT_SCHED_def Let_def cpu_task_switch_def)

section \<open>Entry points\<close>

lemma sched_api_keep:
  "keep (snd (krhino_sched_disable s)) = keep s" "keep (snd (krhino_sched_enable s)) = keep s"
  "keep (snd (krhino_task_yield s)) = keep s" "keep (snd (krhino_task_sleep n s)) = keep s"
  by (simp_all add: keep_def krhino_sched_disable_def krhino_sched_enable_def krhino_task_yield_def krhino_task_sleep_def
      Let_def)

lemma task_api_keep:
  "keep (snd (task_create t name arg p n stack sz entry autorun flag cpu s)) = keep s"
  "keep (snd (krhino_task_suspend t s)) = keep s" "keep (snd (krhino_task_resume t s)) = keep s"
  "keep (snd (krhino_task_pri_change t p old s)) = keep s" "keep (snd (krhino_task_wait_abort t s)) = keep s"
  by (simp_all add: keep_def task_create_def krhino_task_suspend_def task_suspend_def krhino_task_resume_def
      task_resume_def krhino_task_pri_change_def krhino_task_wait_abort_def Let_def split_def split: task_stat_t.split)

text \<open>The exception: deleting a task of the idle priority from a task returns with interrupts off.\<close>

lemma krhino_task_del_keep:
  assumes "g_intrpt_nested_level s > 0 \<or> pr s (if t = NULL then g_active_task s else t) \<noteq> RHINO_IDLE_PRI"
  shows "keep (snd (krhino_task_del t s)) = keep s"
proof (cases "g_intrpt_nested_level s > 0")
  case False
  then show ?thesis
    using assms
    by (cases "t = NULL") (simp_all add: keep_def krhino_task_del_def Let_def split: task_stat_t.split)
qed (simp add: keep_def krhino_task_del_def Let_def)

lemma task_field_keep:
  "keep (snd (krhino_task_time_slice_set t n s)) = keep s" "keep (snd (krhino_sched_policy_set t pol s)) = keep s"
  "keep (snd (krhino_sched_policy_get t p s)) = keep s" "keep (snd (krhino_task_info_set t i v s)) = keep s"
  "keep (snd (krhino_task_info_get t i p s)) = keep s"
  by (simp_all add: keep_def krhino_task_time_slice_set_def krhino_sched_policy_set_def krhino_sched_policy_get_def
      krhino_task_info_set_def krhino_task_info_get_def Let_def split: option.split)

lemma sem_api_keep:
  "keep (snd (sem_create b name n flag s)) = keep s" "keep (snd (krhino_sem_del b s)) = keep s"
  "keep (snd (sem_give b all s)) = keep s" "keep (snd (krhino_sem_take b n' s)) = keep s"
  "keep (snd (krhino_sem_count_set b c s)) = keep s" "keep (snd (krhino_sem_count_get b p s)) = keep s"
  by (simp_all add: keep_def sem_create_def krhino_sem_del_def sem_give_def krhino_sem_take_def
      krhino_sem_count_set_def krhino_sem_count_get_def Let_def split: list.split)

lemma event_api_keep:
  "keep (snd (event_create b name f flag s)) = keep s" "keep (snd (krhino_event_del b s)) = keep s"
  "keep (snd (krhino_event_get b f opt p n s)) = keep s" "keep (snd (event_set b f opt s)) = keep s"
  by (simp_all add: keep_def event_create_def krhino_event_del_def krhino_event_get_def event_set_def Let_def)

lemma queue_api_keep:
  "keep (snd (queue_create b name p n flag s)) = keep s" "keep (snd (krhino_queue_del b s)) = keep s"
  "keep (snd (msg_send b m all s)) = keep s" "keep (snd (krhino_queue_recv b n' p s)) = keep s"
  "keep (snd (krhino_queue_is_full b s)) = keep s" "keep (snd (krhino_queue_flush b s)) = keep s"
  "keep (snd (krhino_queue_info_get b p s)) = keep s"
  by (simp_all add: keep_def queue_create_def krhino_queue_del_def msg_send_def krhino_queue_recv_def
      krhino_queue_is_full_def krhino_queue_flush_def krhino_queue_info_get_def Let_def split_def split: list.split)

lemma buf_queue_api_keep:
  "keep (snd (buf_queue_create b name p n m flag ty s)) = keep s" "keep (snd (krhino_buf_queue_del b s)) = keep s"
  "keep (snd (buf_queue_send b p n s)) = keep s" "keep (snd (krhino_buf_queue_recv b t p q s)) = keep s"
  "keep (snd (krhino_buf_queue_flush b s)) = keep s" "keep (snd (krhino_buf_queue_info_get b p s)) = keep s"
  by (simp_all add: keep_def buf_queue_create_def krhino_buf_queue_del_def buf_queue_send_def krhino_buf_queue_recv_def
      krhino_buf_queue_flush_def krhino_buf_queue_info_get_def Let_def split_def split: list.split)

lemma mutex_api_keep:
  "keep (snd (mutex_create m name flag s)) = keep s" "keep (snd (krhino_mutex_del m s)) = keep s"
  "keep (snd (krhino_mutex_lock m n s)) = keep s" "keep (snd (krhino_mutex_unlock m s)) = keep s"
  by (simp_all add: keep_def mutex_create_def krhino_mutex_del_def krhino_mutex_lock_def krhino_mutex_unlock_def
      Let_def split_def split: list.split)

lemma intrpt_keep:
  "keep (krhino_tick_proc s) = keep s" "keep (snd (krhino_intrpt_enter s)) = keep s"
  "keep (krhino_intrpt_exit s) = keep s" "keep (cpu_context_switch s) = keep s"
  by (simp_all add: keep_def krhino_tick_proc_def tick_list_update_def time_slice_update_def krhino_intrpt_enter_def
      krhino_intrpt_exit_def cpu_intrpt_switch_def cpu_context_switch_def Let_def)

end
