(* ===== verification/Time.thy ===== *)
theory Time
  imports Tick
begin

text \<open>
  Time (\<^verbatim>\<open>k_time.c\<close>): the system time in milliseconds and the conversions between milliseconds
  and ticks, at 100 ticks per second, with the widths of the C variables.
\<close>

section \<open>Model\<close>

type_synonym sys_time_t = "64 word"

definition krhino_sys_time_get :: "kernel \<Rightarrow> sys_time_t \<times> kernel" where
  "krhino_sys_time_get s =
     (let (t, s) = krhino_sys_tick_get s in (t * 1000 div of_nat RHINO_CONFIG_TICKS_PER_SECOND, s))"

definition krhino_ms_to_ticks :: "sys_time_t \<Rightarrow> tick_t" where
  "krhino_ms_to_ticks ms =
     (let surplus = ucast (ms mod 1000) :: 16 word;
          ticks = (ms div 1000) * of_nat RHINO_CONFIG_TICKS_PER_SECOND :: tick_t;
          padding = 1000 div of_nat RHINO_CONFIG_TICKS_PER_SECOND :: 16 word;
          padding = (if padding > 0 then padding - 1 else 0)
      in ticks + ucast (((ucast surplus + ucast padding) * of_nat RHINO_CONFIG_TICKS_PER_SECOND) div 1000 :: 32 word))"

definition krhino_ticks_to_ms :: "tick_t \<Rightarrow> sys_time_t" where
  "krhino_ticks_to_ms ticks =
     (let surplus = ucast (ticks mod of_nat RHINO_CONFIG_TICKS_PER_SECOND) :: 32 word;
          time = (ticks div of_nat RHINO_CONFIG_TICKS_PER_SECOND) * 1000 :: sys_time_t;
          padding = of_nat RHINO_CONFIG_TICKS_PER_SECOND div 1000 :: 32 word;
          padding = (if padding > 0 then padding - 1 else 0)
      in time + ucast (((surplus + padding) * 1000) div of_nat RHINO_CONFIG_TICKS_PER_SECOND))"

section \<open>The conversions\<close>

lemma padding_ten: "(1000 :: 16 word) div of_nat RHINO_CONFIG_TICKS_PER_SECOND = 10"
  by (simp add: word_unat_eq_iff unat_div)

lemma padding_zero: "(of_nat RHINO_CONFIG_TICKS_PER_SECOND :: 32 word) div 1000 = 0"
  by (simp add: word_unat_eq_iff unat_div)

lemma unat_ucast_small: "unat w < 2 ^ LENGTH('b) \<Longrightarrow> unat (ucast w :: 'b :: len word) = unat w"
  by (simp add: unsigned_ucast_eq take_bit_nat_eq_self)

lemma unat_add_small: "unat a + unat b < 2 ^ LENGTH('a) \<Longrightarrow> unat (a + b) = unat a + unat (b :: 'a :: len word)"
  by (simp add: unat_word_ariths)

lemma unat_mult_small: "unat a * unat b < 2 ^ LENGTH('a) \<Longrightarrow> unat (a * b) = unat a * unat (b :: 'a :: len word)"
  by (simp add: unat_word_ariths)

lemma ms_to_ticks_value: "unat (krhino_ms_to_ticks ms) = (unat ms + 9) div 10"
proof -
  define n where "n = unat ms"
  have n: "n < 2 ^ 64" unfolding n_def using unsigned_less [of ms] by simp
  have "n mod 1000 < 1000" by simp
  then have sp: "unat (ucast (ms mod 1000) :: 16 word) = n mod 1000"
    by (subst unat_ucast_small) (auto simp: n_def unat_mod intro: less_trans)
  define w where "w = (ucast (ucast (ms mod 1000) :: 16 word) + ucast (9 :: 16 word)) * of_nat RHINO_CONFIG_TICKS_PER_SECOND div (1000 :: 32 word)"
  have "unat (ucast (ucast (ms mod 1000) :: 16 word) + ucast (9 :: 16 word) :: 32 word) = n mod 1000 + 9"
    by (subst unat_add_small) (use \<open>n mod 1000 < 1000\<close> in \<open>simp_all add: unat_ucast_small sp\<close>)
  then have w: "unat w = (n mod 1000 + 9) * 100 div 1000"
    unfolding w_def unat_div by (subst unat_mult_small) (use \<open>n mod 1000 < 1000\<close> in simp_all)
  have d: "unat (ms div 1000 * of_nat RHINO_CONFIG_TICKS_PER_SECOND) = n div 1000 * 100"
    by (subst unat_mult_small) (use n in \<open>simp_all add: unat_div n_def\<close>)
  have "krhino_ms_to_ticks ms = ms div 1000 * of_nat RHINO_CONFIG_TICKS_PER_SECOND + ucast w"
    by (simp only: krhino_ms_to_ticks_def Let_def padding_ten w_def) simp
  moreover have "unat (ucast w :: 64 word) = unat w"
    using unsigned_less [of w, where 'a = nat] by (intro unat_ucast_small) simp
  ultimately have "unat (krhino_ms_to_ticks ms) = n div 1000 * 100 + (n mod 1000 + 9) * 100 div 1000"
    using n \<open>n mod 1000 < 1000\<close> d w by (simp add: unat_add_small)
  also have "(n mod 1000 + 9) * 100 div 1000 = (n mod 1000 + 9) div 10"
    using div_mult_mult2 [of 100 "n mod 1000 + 9" 10] by simp
  also have "n div 1000 * 100 + (n mod 1000 + 9) div 10 = (n mod 1000 + 9 + (n div 1000 * 100) * 10) div 10"
    by (subst div_mult_self1) simp_all
  also have "n mod 1000 + 9 + (n div 1000 * 100) * 10 = n + 9"
    using div_mult_mod_eq [of n 1000] by simp
  finally show ?thesis by (simp add: n_def)
qed

lemma ticks_to_ms_value:
  assumes "unat t * 10 < 2 ^ 64"
  shows "unat (krhino_ticks_to_ms t) = unat t * 10"
proof -
  define n where "n = unat t"
  have m: "n mod 100 < 100" by simp
  then have sp: "unat (ucast (t mod of_nat RHINO_CONFIG_TICKS_PER_SECOND) :: 32 word) = n mod 100"
    by (subst unat_ucast_small) (auto simp: n_def unat_mod intro: less_trans)
  define w where "w = ucast (t mod of_nat RHINO_CONFIG_TICKS_PER_SECOND) * 1000 div (of_nat RHINO_CONFIG_TICKS_PER_SECOND :: 32 word)"
  have w: "unat w = (n mod 100) * 1000 div 100"
    unfolding w_def unat_div by (subst unat_mult_small) (use sp m in simp_all)
  have d: "unat (t div of_nat RHINO_CONFIG_TICKS_PER_SECOND * 1000) = n div 100 * 1000"
    by (subst unat_mult_small) (use assms in \<open>simp_all add: unat_div n_def\<close>)
  have "krhino_ticks_to_ms t = t div of_nat RHINO_CONFIG_TICKS_PER_SECOND * 1000 + ucast w"
    by (simp only: krhino_ticks_to_ms_def Let_def padding_zero w_def) simp
  moreover have "unat (ucast w :: 64 word) = unat w"
    using unsigned_less [of w, where 'a = nat] by (intro unat_ucast_small) simp
  moreover have "(n mod 100) * 1000 div 100 = n mod 100 * 10"
    using div_mult_mult2 [of 100 "n mod 100 * 10" 1] by simp
  then have "n div 100 * 1000 + (n mod 100) * 1000 div 100 = n * 10"
    using div_mult_mod_eq [of n 100] by linarith
  ultimately show ?thesis
    using assms d w by (simp add: unat_add_small n_def)
qed

section \<open>Properties\<close>

text \<open>
  C39: Converting milliseconds to ticks rounds up, for every 64-bit number of milliseconds: the
  ticks last at least as long as asked, and less than one tick longer. No intermediate
  value of 16 or 32 bits overflows.
\<close>

theorem ms_to_ticks_rounds_up:
  "unat ms \<le> 10 * unat (krhino_ms_to_ticks ms) \<and> 10 * unat (krhino_ms_to_ticks ms) < unat ms + 10"
  unfolding ms_to_ticks_value by presburger

text \<open>
  Converting ticks to milliseconds and back gives the ticks again, as long as the
  milliseconds fit in 64 bits.
\<close>

lemma ticks_ms_round_trip:
  assumes "unat t * 10 < 2 ^ 64"
  shows "krhino_ms_to_ticks (krhino_ticks_to_ms t) = t"
  by (simp add: word_unat_eq_iff ms_to_ticks_value ticks_to_ms_value [OF assms])

end
