(* ===== verification/Kernel_Run.thy ===== *)
theory Kernel_Run
  imports Frame Time
begin

text \<open>
  The kernel as a whole: every call of its interface, the tick, interrupts and context
  switches as steps of one system, and the invariant of its runs.
\<close>

section \<open>The remaining calls keep the invariant\<close>

lemma sysinv_upd_field:
  assumes i: "sysinv s" and f: "task_view (f (tasks s t)) = task_view (tasks s t)" "task_state (f (tasks s t)) = st s t"
      "suspend_count (f (tasks s t)) = suspend_count (tasks s t)" "pend_option (f (tasks s t)) = pend_option (tasks s t)"
      "pend_flags (f (tasks s t)) = pend_flags (tasks s t)"
  shows "sysinv (upd_task t f s)"
proof -
  note d = sysinvD [OF i]
  have "kinv (upd_task t f s)" using d(1) f(1-3) by (rule kinv_upd_field)
  moreover have "tick_pos (upd_task t f s)" using d(2) by (rule tick_pos_cong) (use f(1) in \<open>simp_all add: task_view_def\<close>)
  moreover have "no_lost (upd_task t f s)" using d(5) by (rule upd_task_no_lost) (use f in \<open>simp add: task_view_def\<close>)
  ultimately show ?thesis
    using d(3,4) f(2)
    by (cases "g_active_task s = t") (auto simp: sysinv_def sched_ok_def no_fatal_def best_def)
qed

lemma task_field_sysinv:
  assumes "sysinv s"
  shows "sysinv (snd (krhino_task_time_slice_set t n s))" "sysinv (snd (krhino_sched_policy_set t pol s))"
    "sysinv (snd (krhino_sched_policy_get t p s))" "sysinv (snd (krhino_task_info_set t i v s))"
    "sysinv (snd (krhino_task_info_get t i p s))" "sysinv (snd (krhino_cur_task_get s))"
    "sysinv (snd (krhino_sys_tick_get s))" "sysinv (snd (krhino_sys_time_get s))"
  using assms
  by (simp_all add: krhino_task_time_slice_set_def krhino_sched_policy_set_def krhino_sched_policy_get_def
      krhino_task_info_set_def krhino_task_info_get_def krhino_cur_task_get_def krhino_sys_tick_get_def krhino_sys_time_get_def
      Let_def sysinv_upd_field task_view_def split: option.split)

lemma pend_state_end_proc_sysinv: "sysinv (snd (pend_state_end_proc t s)) = sysinv s"
  by (simp add: pend_state_end_proc_def sysinv_k_err split: blk_state_t.split)

lemma resume_sysinv:
  assumes "sysinv s"
  shows "sysinv (snd (pend_resume s))" "sysinv (snd (krhino_queue_recv_resume p s))"
    "sysinv (snd (krhino_buf_queue_recv_resume p s))"
  using assms pend_state_end_proc_sysinv [of "g_active_task s" "RHINO_CRITICAL_ENTER s"]
  by (simp_all add: pend_resume_def krhino_queue_recv_resume_def krhino_buf_queue_recv_resume_def Let_def split_def)

lemma task_sem_create_sysinv:
  assumes "sysinv s" and "sem \<noteq> NULL \<Longrightarrow> unused sem s"
  shows "sysinv (snd (krhino_task_sem_create t sem name n s))"
proof -
  have "sysinv (snd (krhino_sem_create sem name n s))"
    using sem_create_sysinv [OF assms] by (simp add: krhino_sem_create_def)
  then show ?thesis
    using assms(1) by (simp add: krhino_task_sem_create_def split_def Let_def sysinv_upd_field task_view_def)
qed

lemma task_sem_sysinv:
  assumes "sysinv s" and "callable s"
  shows "sysinv (snd (krhino_task_sem_del t s))" "sysinv (snd (krhino_task_sem_give t s))"
    "sysinv (snd (krhino_task_sem_count_set t n s))" "sysinv (snd (krhino_task_sem_count_get t p s))"
  using assms
  by (simp_all add: krhino_task_sem_del_def krhino_task_sem_give_def krhino_task_sem_count_set_def
      krhino_task_sem_count_get_def krhino_sem_del_sysinv krhino_sem_give_sysinv krhino_sem_count_set_sysinv
      krhino_sem_count_get_sysinv)

section \<open>Calls\<close>

text \<open>
  The calls an application makes, with their arguments, by component. A call that may block
  has returned or has left the caller blocked; the rest of a blocking call, which runs when the
  caller is scheduled again, is a call of its own (\<^verbatim>\<open>..._resume\<close>).

  \<open>permitted\<close> is what a caller owes the kernel: objects are created in memory that holds none, a
  task is deleted at most once, and the idle task neither blocks nor holds mutexes (its body,
  \<^verbatim>\<open>k_idle.c\<close>, only counts).
\<close>

definition returned :: "kstat_t \<times> kernel \<Rightarrow> kret \<times> kernel" where
  "returned r = (Returned (fst r), snd r)"

lemma snd_returned [simp]: "snd (returned r) = snd r"
  by (simp add: returned_def)

definition may_block :: "kernel \<Rightarrow> bool" where
  "may_block s \<longleftrightarrow> (g_intrpt_nested_level s = 0 \<longrightarrow> g_active_task s \<noteq> g_idle_task s)"

datatype task_call =
    Task_create ptr ptr ptr nat tick_t ptr size_t ptr bool
  | Task_del ptr
  | Task_suspend ptr
  | Task_resume ptr
  | Task_pri_change ptr nat ptr
  | Task_wait_abort ptr
  | Task_sleep tick_t
  | Task_yield
  | Task_time_slice_set ptr size_t
  | Sched_policy_set ptr "sched_policy_t option"
  | Sched_policy_get ptr ptr
  | Task_info_set ptr nat ptr
  | Task_info_get ptr nat ptr
  | Sched_disable
  | Sched_enable
  | Pend_resume

primrec task_exec :: "task_call \<Rightarrow> kernel \<Rightarrow> kret \<times> kernel" where
  "task_exec (Task_create x0 x1 x2 x3 x4 x5 x6 x7 x8) s = returned (krhino_task_create x0 x1 x2 x3 x4 x5 x6 x7 x8 s)"
| "task_exec (Task_del x0) s = returned (krhino_task_del x0 s)"
| "task_exec (Task_suspend x0) s = returned (krhino_task_suspend x0 s)"
| "task_exec (Task_resume x0) s = returned (krhino_task_resume x0 s)"
| "task_exec (Task_pri_change x0 x1 x2) s = returned (krhino_task_pri_change x0 x1 x2 s)"
| "task_exec (Task_wait_abort x0) s = returned (krhino_task_wait_abort x0 s)"
| "task_exec (Task_sleep x0) s = krhino_task_sleep x0 s"
| "task_exec Task_yield s = returned (krhino_task_yield s)"
| "task_exec (Task_time_slice_set x0 x1) s = returned (krhino_task_time_slice_set x0 x1 s)"
| "task_exec (Sched_policy_set x0 x1) s = returned (krhino_sched_policy_set x0 x1 s)"
| "task_exec (Sched_policy_get x0 x1) s = returned (krhino_sched_policy_get x0 x1 s)"
| "task_exec (Task_info_set x0 x1 x2) s = returned (krhino_task_info_set x0 x1 x2 s)"
| "task_exec (Task_info_get x0 x1 x2) s = returned (krhino_task_info_get x0 x1 x2 s)"
| "task_exec Sched_disable s = returned (krhino_sched_disable s)"
| "task_exec Sched_enable s = returned (krhino_sched_enable s)"
| "task_exec Pend_resume s = returned (pend_resume s)"

primrec task_permitted :: "task_call \<Rightarrow> kernel \<Rightarrow> bool" where
  "task_permitted (Task_create t y1 y2 y3 y4 y5 y6 y7 y8) s = (t = NULL \<or> \<not> live (st s t))"
| "task_permitted (Task_del t) s = (live (st s (if t = NULL then g_active_task s else t)))"
| "task_permitted (Task_suspend y0) s = True"
| "task_permitted (Task_resume y0) s = True"
| "task_permitted (Task_pri_change t y1 y2) s = (live (st s t) \<or> st s t = K_DELETED \<or> t = NULL)"
| "task_permitted (Task_wait_abort y0) s = True"
| "task_permitted (Task_sleep y0) s = (may_block s)"
| "task_permitted Task_yield s = (g_intrpt_nested_level s = 0)"
| "task_permitted (Task_time_slice_set y0 y1) s = True"
| "task_permitted (Sched_policy_set y0 y1) s = True"
| "task_permitted (Sched_policy_get y0 y1) s = True"
| "task_permitted (Task_info_set y0 y1 y2) s = True"
| "task_permitted (Task_info_get y0 y1 y2) s = True"
| "task_permitted Sched_disable s = True"
| "task_permitted Sched_enable s = True"
| "task_permitted Pend_resume s = True"

datatype sem_call =
    Sem_create ptr ptr nat
  | Sem_del ptr
  | Sem_give ptr
  | Sem_give_all ptr
  | Sem_take ptr tick_t
  | Sem_count_set ptr nat
  | Sem_count_get ptr ptr
  | Task_sem_create ptr ptr ptr nat
  | Task_sem_del ptr
  | Task_sem_give ptr
  | Task_sem_take tick_t
  | Task_sem_count_set ptr nat
  | Task_sem_count_get ptr ptr

primrec sem_exec :: "sem_call \<Rightarrow> kernel \<Rightarrow> kret \<times> kernel" where
  "sem_exec (Sem_create x0 x1 x2) s = returned (krhino_sem_create x0 x1 x2 s)"
| "sem_exec (Sem_del x0) s = returned (krhino_sem_del x0 s)"
| "sem_exec (Sem_give x0) s = returned (krhino_sem_give x0 s)"
| "sem_exec (Sem_give_all x0) s = returned (krhino_sem_give_all x0 s)"
| "sem_exec (Sem_take x0 x1) s = krhino_sem_take x0 x1 s"
| "sem_exec (Sem_count_set x0 x1) s = returned (krhino_sem_count_set x0 x1 s)"
| "sem_exec (Sem_count_get x0 x1) s = returned (krhino_sem_count_get x0 x1 s)"
| "sem_exec (Task_sem_create x0 x1 x2 x3) s = returned (krhino_task_sem_create x0 x1 x2 x3 s)"
| "sem_exec (Task_sem_del x0) s = returned (krhino_task_sem_del x0 s)"
| "sem_exec (Task_sem_give x0) s = returned (krhino_task_sem_give x0 s)"
| "sem_exec (Task_sem_take x0) s = krhino_task_sem_take x0 s"
| "sem_exec (Task_sem_count_set x0 x1) s = returned (krhino_task_sem_count_set x0 x1 s)"
| "sem_exec (Task_sem_count_get x0 x1) s = returned (krhino_task_sem_count_get x0 x1 s)"

primrec sem_permitted :: "sem_call \<Rightarrow> kernel \<Rightarrow> bool" where
  "sem_permitted (Sem_create b y1 y2) s = (b \<noteq> NULL \<longrightarrow> unused b s)"
| "sem_permitted (Sem_del y0) s = True"
| "sem_permitted (Sem_give y0) s = True"
| "sem_permitted (Sem_give_all y0) s = True"
| "sem_permitted (Sem_take y0 y1) s = (may_block s)"
| "sem_permitted (Sem_count_set y0 y1) s = True"
| "sem_permitted (Sem_count_get y0 y1) s = True"
| "sem_permitted (Task_sem_create y0 b y2 y3) s = (b \<noteq> NULL \<longrightarrow> unused b s)"
| "sem_permitted (Task_sem_del y0) s = True"
| "sem_permitted (Task_sem_give y0) s = True"
| "sem_permitted (Task_sem_take y0) s = (may_block s)"
| "sem_permitted (Task_sem_count_set y0 y1) s = True"
| "sem_permitted (Task_sem_count_get y0 y1) s = True"

datatype sync_call =
    Event_create ptr ptr "32 word"
  | Event_del ptr
  | Event_get ptr "32 word" "8 word" ptr tick_t
  | Event_set ptr "32 word" "8 word"
  | Mutex_create ptr ptr
  | Mutex_del ptr
  | Mutex_lock ptr tick_t
  | Mutex_unlock ptr

primrec sync_exec :: "sync_call \<Rightarrow> kernel \<Rightarrow> kret \<times> kernel" where
  "sync_exec (Event_create x0 x1 x2) s = returned (krhino_event_create x0 x1 x2 s)"
| "sync_exec (Event_del x0) s = returned (krhino_event_del x0 s)"
| "sync_exec (Event_get x0 x1 x2 x3 x4) s = krhino_event_get x0 x1 x2 x3 x4 s"
| "sync_exec (Event_set x0 x1 x2) s = returned (krhino_event_set x0 x1 x2 s)"
| "sync_exec (Mutex_create x0 x1) s = returned (krhino_mutex_create x0 x1 s)"
| "sync_exec (Mutex_del x0) s = returned (krhino_mutex_del x0 s)"
| "sync_exec (Mutex_lock x0 x1) s = krhino_mutex_lock x0 x1 s"
| "sync_exec (Mutex_unlock x0) s = returned (krhino_mutex_unlock x0 s)"

primrec sync_permitted :: "sync_call \<Rightarrow> kernel \<Rightarrow> bool" where
  "sync_permitted (Event_create b y1 y2) s = (b \<noteq> NULL \<longrightarrow> unused b s)"
| "sync_permitted (Event_del y0) s = True"
| "sync_permitted (Event_get y0 y1 y2 y3 y4) s = (may_block s)"
| "sync_permitted (Event_set y0 y1 y2) s = True"
| "sync_permitted (Mutex_create b y1) s = (b \<noteq> NULL \<longrightarrow> unused b s)"
| "sync_permitted (Mutex_del y0) s = True"
| "sync_permitted (Mutex_lock y0 y1) s = (may_block s)"
| "sync_permitted (Mutex_unlock y0) s = (may_block s)"

datatype queue_call =
    Queue_create ptr ptr ptr nat
  | Queue_del ptr
  | Queue_back_send ptr ptr
  | Queue_all_send ptr ptr
  | Queue_recv ptr tick_t ptr
  | Queue_recv_resume ptr
  | Queue_is_full ptr
  | Queue_flush ptr
  | Queue_info_get ptr ptr
  | Buf_queue_create ptr ptr ptr nat nat
  | Fix_buf_queue_create ptr ptr ptr nat nat
  | Buf_queue_del ptr
  | Buf_queue_send ptr ptr nat
  | Buf_queue_recv ptr tick_t ptr ptr
  | Buf_queue_recv_resume ptr
  | Buf_queue_flush ptr
  | Buf_queue_info_get ptr ptr

primrec queue_exec :: "queue_call \<Rightarrow> kernel \<Rightarrow> kret \<times> kernel" where
  "queue_exec (Queue_create x0 x1 x2 x3) s = returned (krhino_queue_create x0 x1 x2 x3 s)"
| "queue_exec (Queue_del x0) s = returned (krhino_queue_del x0 s)"
| "queue_exec (Queue_back_send x0 x1) s = returned (krhino_queue_back_send x0 x1 s)"
| "queue_exec (Queue_all_send x0 x1) s = returned (krhino_queue_all_send x0 x1 s)"
| "queue_exec (Queue_recv x0 x1 x2) s = krhino_queue_recv x0 x1 x2 s"
| "queue_exec (Queue_recv_resume x0) s = returned (krhino_queue_recv_resume x0 s)"
| "queue_exec (Queue_is_full x0) s = returned (krhino_queue_is_full x0 s)"
| "queue_exec (Queue_flush x0) s = returned (krhino_queue_flush x0 s)"
| "queue_exec (Queue_info_get x0 x1) s = returned (krhino_queue_info_get x0 x1 s)"
| "queue_exec (Buf_queue_create x0 x1 x2 x3 x4) s = returned (krhino_buf_queue_create x0 x1 x2 x3 x4 s)"
| "queue_exec (Fix_buf_queue_create x0 x1 x2 x3 x4) s = returned (krhino_fix_buf_queue_create x0 x1 x2 x3 x4 s)"
| "queue_exec (Buf_queue_del x0) s = returned (krhino_buf_queue_del x0 s)"
| "queue_exec (Buf_queue_send x0 x1 x2) s = returned (krhino_buf_queue_send x0 x1 x2 s)"
| "queue_exec (Buf_queue_recv x0 x1 x2 x3) s = krhino_buf_queue_recv x0 x1 x2 x3 s"
| "queue_exec (Buf_queue_recv_resume x0) s = returned (krhino_buf_queue_recv_resume x0 s)"
| "queue_exec (Buf_queue_flush x0) s = returned (krhino_buf_queue_flush x0 s)"
| "queue_exec (Buf_queue_info_get x0 x1) s = returned (krhino_buf_queue_info_get x0 x1 s)"

primrec queue_permitted :: "queue_call \<Rightarrow> kernel \<Rightarrow> bool" where
  "queue_permitted (Queue_create b y1 y2 y3) s = (b \<noteq> NULL \<longrightarrow> unused b s)"
| "queue_permitted (Queue_del y0) s = True"
| "queue_permitted (Queue_back_send y0 y1) s = True"
| "queue_permitted (Queue_all_send y0 y1) s = True"
| "queue_permitted (Queue_recv y0 y1 y2) s = (may_block s)"
| "queue_permitted (Queue_recv_resume y0) s = True"
| "queue_permitted (Queue_is_full y0) s = True"
| "queue_permitted (Queue_flush y0) s = True"
| "queue_permitted (Queue_info_get y0 y1) s = True"
| "queue_permitted (Buf_queue_create b y1 y2 y3 y4) s = (b \<noteq> NULL \<longrightarrow> unused b s)"
| "queue_permitted (Fix_buf_queue_create b y1 y2 y3 y4) s = (b \<noteq> NULL \<longrightarrow> unused b s)"
| "queue_permitted (Buf_queue_del y0) s = True"
| "queue_permitted (Buf_queue_send y0 y1 y2) s = True"
| "queue_permitted (Buf_queue_recv y0 y1 y2 y3) s = (may_block s)"
| "queue_permitted (Buf_queue_recv_resume y0) s = True"
| "queue_permitted (Buf_queue_flush y0) s = True"
| "queue_permitted (Buf_queue_info_get y0 y1) s = True"

datatype call = Task_api task_call | Sem_api sem_call | Sync_api sync_call | Queue_api queue_call

primrec syscall :: "call \<Rightarrow> kernel \<Rightarrow> kret \<times> kernel" where
  "syscall (Task_api c) s = task_exec c s"
| "syscall (Sem_api c) s = sem_exec c s"
| "syscall (Sync_api c) s = sync_exec c s"
| "syscall (Queue_api c) s = queue_exec c s"

primrec permitted :: "call \<Rightarrow> kernel \<Rightarrow> bool" where
  "permitted (Task_api c) s = task_permitted c s"
| "permitted (Sem_api c) s = sem_permitted c s"
| "permitted (Sync_api c) s = sync_permitted c s"
| "permitted (Queue_api c) s = queue_permitted c s"

section \<open>Every call keeps the invariant\<close>

lemma task_exec_sysinv:
  assumes "sysinv s" "callable s" and "g_sys_stat s = RHINO_RUNNING" and "task_permitted c s"
  shows "sysinv (snd (task_exec c s))"
proof (cases c)
  case (Task_create t)
  then show ?thesis
    using assms by (cases "t = NULL") (simp_all add: krhino_task_create_def task_create_sysinv, simp add: task_create_def)
qed (use assms in \<open>simp_all add: krhino_task_del_sysinv krhino_task_suspend_sysinv krhino_task_resume_sysinv
    krhino_task_pri_change_sysinv krhino_task_wait_abort_sysinv krhino_task_sleep_sysinv krhino_task_yield_sysinv
    task_field_sysinv krhino_sched_disable_sysinv krhino_sched_enable_sysinv resume_sysinv may_block_def\<close>)

lemma critical_id: "RHINO_CRITICAL_EXIT (irq_off s) (RHINO_CRITICAL_ENTER s) = s"
  by (simp add: RHINO_CRITICAL_EXIT_def RHINO_CRITICAL_ENTER_def)

lemma sem_exec_sysinv:
  assumes i: "sysinv s" "callable s" and "sem_permitted c s"
  shows "sysinv (snd (sem_exec c s))"
proof (cases c)
  case (Task_sem_take n)
  have "may_block s" using assms Task_sem_take by simp
  then show ?thesis
    using i Task_sem_take
    by (simp add: krhino_task_sem_take_def krhino_cur_task_get_def Let_def krhino_sem_take_sysinv may_block_def critical_id)
qed (use assms in \<open>simp_all add: krhino_sem_create_def sem_create_sysinv krhino_sem_del_sysinv krhino_sem_give_sysinv
    krhino_sem_take_sysinv krhino_sem_count_set_sysinv krhino_sem_count_get_sysinv task_sem_create_sysinv task_sem_sysinv
    may_block_def\<close>)

lemma sync_exec_sysinv:
  assumes "sysinv s" "callable s" and "sync_permitted c s"
  shows "sysinv (snd (sync_exec c s))"
  using assms
  by (cases c) (simp_all add: krhino_event_create_def event_create_sysinv krhino_event_del_sysinv krhino_event_get_sysinv
      krhino_event_set_sysinv krhino_mutex_create_def mutex_create_sysinv krhino_mutex_del_sysinv krhino_mutex_lock_sysinv
      krhino_mutex_unlock_sysinv may_block_def)

lemma queue_exec_sysinv:
  assumes "sysinv s" "callable s" and "queue_permitted c s"
  shows "sysinv (snd (queue_exec c s))"
  using assms
  by (cases c) (simp_all add: krhino_queue_create_def queue_create_sysinv krhino_queue_del_sysinv krhino_queue_back_send_def
      krhino_queue_all_send_def msg_send_sysinv krhino_queue_recv_sysinv krhino_queue_flush_sysinv krhino_queue_query_sysinv
      resume_sysinv krhino_buf_queue_create_def krhino_fix_buf_queue_create_def buf_queue_create_sysinv
      krhino_buf_queue_del_sysinv krhino_buf_queue_send_def buf_queue_send_sysinv krhino_buf_queue_recv_sysinv
      krhino_buf_queue_flush_sysinv krhino_buf_queue_info_get_sysinv may_block_def)

lemma syscall_sysinv:
  assumes "sysinv s" "callable s" and "g_sys_stat s = RHINO_RUNNING" and "permitted c s"
  shows "sysinv (snd (syscall c s))"
  using assms by (cases c) (simp_all add: task_exec_sysinv sem_exec_sysinv sync_exec_sysinv queue_exec_sysinv)

end
