(* ===== verification/Runs.thy ===== *)
theory Runs
  imports Kernel_Run
begin

text \<open>
  Runs of the system from power-on: initialisation, the creation of tasks and objects, the start
  of the scheduler, and then calls, ticks, interrupts and context switches in any order.
\<close>

section \<open>Calls leave the status of the system and the interrupt mask alone\<close>

definition deletes_idle :: "call \<Rightarrow> kernel \<Rightarrow> bool" where
  "deletes_idle c s \<longleftrightarrow> (case c of Task_api (Task_del t) \<Rightarrow>
     g_intrpt_nested_level s = 0 \<and> pr s (if t = NULL then g_active_task s else t) = RHINO_IDLE_PRI | _ \<Rightarrow> False)"

lemmas api_keep = sched_api_keep task_api_keep task_field_keep sem_api_keep event_api_keep queue_api_keep
  buf_queue_api_keep mutex_api_keep

lemma resume_keep:
  "keep (snd (pend_resume s)) = keep s" "keep (snd (krhino_queue_recv_resume p s)) = keep s"
  "keep (snd (krhino_buf_queue_recv_resume p s)) = keep s"
  by (simp_all add: keep_def pend_resume_def krhino_queue_recv_resume_def krhino_buf_queue_recv_resume_def Let_def split_def)

lemma task_exec_keep: "\<not> deletes_idle (Task_api c) s \<Longrightarrow> keep (snd (task_exec c s)) = keep s"
  by (cases c) (auto simp: krhino_task_create_def api_keep resume_keep deletes_idle_def word_gt_0 intro!: krhino_task_del_keep)

lemma upd_task_keep: "keep (upd_task t f s) = keep s"
  by (simp add: keep_def)

lemma sem_exec_keep: "keep (snd (sem_exec c s)) = keep s"
  by (cases c) (simp_all add: krhino_sem_create_def krhino_sem_give_def krhino_sem_give_all_def krhino_task_sem_create_def
      krhino_task_sem_del_def krhino_task_sem_give_def krhino_task_sem_take_def krhino_cur_task_get_def
      krhino_task_sem_count_set_def krhino_task_sem_count_get_def api_keep Let_def split_def critical_id
      upd_task_keep)

lemma sync_exec_keep: "keep (snd (sync_exec c s)) = keep s"
  by (cases c) (simp_all add: krhino_event_create_def krhino_event_set_def krhino_mutex_create_def api_keep)

lemma queue_exec_keep: "keep (snd (queue_exec c s)) = keep s"
  by (cases c) (simp_all add: krhino_queue_create_def krhino_queue_back_send_def krhino_queue_all_send_def
      krhino_buf_queue_create_def krhino_fix_buf_queue_create_def krhino_buf_queue_send_def resume_keep api_keep)

lemma syscall_keep: "\<not> deletes_idle c s \<Longrightarrow> keep (snd (syscall c s)) = keep s"
  by (cases c) (simp_all add: task_exec_keep sem_exec_keep sync_exec_keep queue_exec_keep)

lemma deletes_idle_effect:
  assumes "deletes_idle c s"
  shows "fst (syscall c s) = Returned RHINO_TASK_DEL_NOT_ALLOWED" and "snd (syscall c s) = RHINO_CRITICAL_ENTER s"
  using assms
  by (auto simp: deletes_idle_def krhino_task_del_def returned_def Let_def split: call.splits task_call.splits)

lemma syscall_status: "g_sys_stat (snd (syscall c s)) = g_sys_stat s"
  using keepD(1) [OF syscall_keep] deletes_idle_effect(2) by (cases "deletes_idle c s") simp_all

section \<open>Steps and runs\<close>

inductive kstep :: "kernel \<Rightarrow> kernel \<Rightarrow> bool" where
  call: "callable s \<Longrightarrow> permitted c s \<Longrightarrow> kstep s (snd (syscall c s))"
| interrupt: "g_intrpt_nested_level s < 188 \<Longrightarrow> kstep s (snd (krhino_intrpt_enter s))"
| tick: "g_intrpt_nested_level s > 0 \<Longrightarrow> kstep s (krhino_tick_proc s)"
| end_interrupt: "g_intrpt_nested_level s > 0 \<Longrightarrow> kstep s (krhino_intrpt_exit s)"
| switch: "g_intrpt_nested_level s = 0 \<Longrightarrow> cpu_switch s \<Longrightarrow> kstep s (cpu_context_switch s)"

lemma kstep_sysinv:
  assumes "kstep s s'" and "sysinv s" and "g_sys_stat s = RHINO_RUNNING"
  shows "sysinv s' \<and> g_sys_stat s' = RHINO_RUNNING"
  using assms
proof cases
  case (call c)
  then show ?thesis using assms by (simp add: syscall_sysinv syscall_status)
qed (use assms keepD(1) [OF intrpt_keep(1)] keepD(1) [OF intrpt_keep(2)] keepD(1) [OF intrpt_keep(3)]
    keepD(1) [OF intrpt_keep(4)] in \<open>simp_all add: krhino_intrpt_enter_sysinv krhino_tick_proc_sysinv
    krhino_intrpt_exit_sysinv cpu_context_switch_sysinv\<close>)

text \<open>
  Before the start, tasks and objects may be created. Such a call runs as it would in a system
  whose idle task runs with the scheduler locked.
\<close>

definition creates :: "call \<Rightarrow> bool" where
  "creates c \<longleftrightarrow> (case c of
       Task_api c' \<Rightarrow> (case c' of Task_create _ _ _ _ _ _ _ _ _ \<Rightarrow> True | _ \<Rightarrow> False)
     | Sem_api c' \<Rightarrow> (case c' of Sem_create _ _ _ \<Rightarrow> True | Task_sem_create _ _ _ _ \<Rightarrow> True | _ \<Rightarrow> False)
     | Sync_api c' \<Rightarrow> (case c' of Event_create _ _ _ \<Rightarrow> True | Mutex_create _ _ \<Rightarrow> True | _ \<Rightarrow> False)
     | Queue_api c' \<Rightarrow> (case c' of Queue_create _ _ _ _ \<Rightarrow> True | Buf_queue_create _ _ _ _ _ \<Rightarrow> True
         | Fix_buf_queue_create _ _ _ _ _ \<Rightarrow> True | _ \<Rightarrow> False))"

lemma as_running_objects:
  "as_running (upd_blk b fb s) = upd_blk b fb (as_running s)" "as_running (upd_sem b fs s) = upd_sem b fs (as_running s)"
  "as_running (upd_event b fe s) = upd_event b fe (as_running s)" "as_running (upd_mutex b fm s) = upd_mutex b fm (as_running s)"
  "as_running (upd_queue b fq s) = upd_queue b fq (as_running s)"
  "as_running (upd_buf_queue b fbq s) = upd_buf_queue b fbq (as_running s)"
  by (cases s; simp add: as_running_def upd_blk_def upd_sem_def upd_event_def upd_mutex_def upd_queue_def upd_buf_queue_def)+

lemma as_running_sel:
  "queues (as_running s) = queues s" "buf_queues (as_running s) = buf_queues s" "blks (as_running s) = blks s"
  by (simp_all add: as_running_def)

lemma create_as_running:
  "as_running (snd (sem_create b name n flag s)) = snd (sem_create b name n flag (as_running s))"
  "fst (sem_create b name n flag (as_running s)) = fst (sem_create b name n flag s)"
  "as_running (snd (event_create b name f flag s)) = snd (event_create b name f flag (as_running s))"
  "as_running (snd (mutex_create b name flag s)) = snd (mutex_create b name flag (as_running s))"
  "as_running (snd (queue_create b name p n flag s)) = snd (queue_create b name p n flag (as_running s))"
  "as_running (snd (buf_queue_create b name p n m flag ty s)) = snd (buf_queue_create b name p n m flag ty (as_running s))"
  by (simp_all add: sem_create_def event_create_def mutex_create_def queue_create_def buf_queue_create_def Let_def
      as_running_upd as_running_objects as_running_sel)

lemma creates_as_running:
  assumes "g_sys_stat s = RHINO_STOPPED" and "creates c"
  shows "as_running (snd (syscall c s)) = snd (syscall c (as_running s))"
    and "g_sched_lock (snd (syscall c s)) = g_sched_lock s"
    and "g_intrpt_nested_level (snd (syscall c s)) = g_intrpt_nested_level s"
    and "permitted c s \<Longrightarrow> permitted c (as_running s)"
  using assms
  by (auto simp: creates_def task_create_as_running create_as_running as_running_upd as_running_sel unused_def is_mutex_def
      krhino_task_create_def krhino_sem_create_def krhino_task_sem_create_def krhino_event_create_def krhino_mutex_create_def
      krhino_queue_create_def krhino_buf_queue_create_def krhino_fix_buf_queue_create_def split_def Let_def
      split: call.splits task_call.splits sem_call.splits sync_call.splits queue_call.splits)
    (simp_all add: task_create_def sem_create_def event_create_def mutex_create_def queue_create_def buf_queue_create_def Let_def
      upd_sem_def upd_event_def upd_queue_def upd_buf_queue_def)

lemma prestart_creates:
  assumes "prestart s" and "creates c" and "permitted c s"
  shows "prestart (snd (syscall c s))"
proof -
  have st: "g_sys_stat s = RHINO_STOPPED" "sysinv (as_running s)" using assms(1) by (simp_all add: prestart_def)
  note c = creates_as_running [OF st(1) assms(2)]
  have "\<not> cpu_switch s" using sysinvD(3) [OF st(2)] by (simp add: sched_ok_def as_running_def)
  then have "callable (as_running s)" "g_sys_stat (as_running s) = RHINO_RUNNING"
    by (simp_all add: callable_def as_running_def)
  then have "sysinv (snd (syscall c (as_running s)))" using st(2) c(4) assms(3) by (intro syscall_sysinv) simp_all
  then show ?thesis using assms(1) c by (simp add: prestart_def syscall_status)
qed

inductive booted :: "kernel \<Rightarrow> bool" where
  init: "boot s \<Longrightarrow> name \<noteq> NULL \<Longrightarrow> stack \<noteq> NULL \<Longrightarrow> entry \<noteq> NULL \<Longrightarrow> booted (snd (krhino_init name stack entry s))"
| create: "booted s \<Longrightarrow> creates c \<Longrightarrow> permitted c s \<Longrightarrow> booted (snd (syscall c s))"

inductive run :: "kernel \<Rightarrow> bool" where
  start: "booted s \<Longrightarrow> run (snd (krhino_start s))"
| step: "run s \<Longrightarrow> kstep s s' \<Longrightarrow> run s'"

lemma booted_prestart: "booted s \<Longrightarrow> prestart s"
  by (induction rule: booted.induct) (simp_all add: krhino_init_prestart prestart_creates)

lemma run_sysinv:
  assumes "run s"
  shows "sysinv s" and "g_sys_stat s = RHINO_RUNNING"
  using assms
proof induction
  case (start s)
  {
    case 1
    show ?case using booted_prestart [OF start] by (rule krhino_start_sysinv)
  next
    case 2
    show ?case using booted_prestart [OF start] by (rule krhino_start_sysinv)
  }
qed (use kstep_sysinv in blast)+

end
