(* ===== verification/Msg_Fifo.thy ===== *)
theory Msg_Fifo
  imports Kernel_Types
begin

text \<open>
  What the kernel's message containers promise: a bounded first-in first-out queue. The
  specification is a list of messages; a container is an implementation when its state
  represents a list and its two operations follow the list. The consequences are proved once,
  for every container.
\<close>

section \<open>The specification\<close>

datatype 'm fifo_op = Send 'm | Recv

definition spec_send :: "('m list \<Rightarrow> 'm \<Rightarrow> bool) \<Rightarrow> kstat_t \<Rightarrow> 'm \<Rightarrow> 'm list \<Rightarrow> kstat_t \<times> 'm list" where
  "spec_send room full m ms = (if room ms m then (RHINO_SUCCESS, ms @ [m]) else (full, ms))"

definition spec_recv :: "kstat_t \<Rightarrow> 'm list \<Rightarrow> kstat_t \<times> 'm option \<times> 'm list" where
  "spec_recv none ms = (case ms of [] \<Rightarrow> (none, None, []) | m # ms \<Rightarrow> (RHINO_SUCCESS, Some m, ms))"

text \<open>A sequence of operations, with the status and the message that each one returned.\<close>

fun fifo_run ::
  "('m \<Rightarrow> 's \<Rightarrow> kstat_t \<times> 's) \<Rightarrow> ('s \<Rightarrow> kstat_t \<times> 'm option \<times> 's) \<Rightarrow> 'm fifo_op list \<Rightarrow> 's \<Rightarrow>
   (kstat_t \<times> 'm option) list \<times> 's" where
  "fifo_run send recv [] s = ([], s)"
| "fifo_run send recv (Send m # ops) s =
     (let (r, s) = send m s; (rs, s) = fifo_run send recv ops s in ((r, None) # rs, s))"
| "fifo_run send recv (Recv # ops) s =
     (let (r, m, s) = recv s; (rs, s) = fifo_run send recv ops s in ((r, m) # rs, s))"

fun accepted :: "'m fifo_op list \<Rightarrow> (kstat_t \<times> 'm option) list \<Rightarrow> 'm list" where
  "accepted (Send m # ops) ((r, _) # rs) = (if r = RHINO_SUCCESS then [m] else []) @ accepted ops rs"
| "accepted (Recv # ops) (_ # rs) = accepted ops rs"
| "accepted _ _ = []"

definition delivered :: "(kstat_t \<times> 'm option) list \<Rightarrow> 'm list" where
  "delivered rs = List.map_filter snd rs"

definition sends :: "'m fifo_op list \<Rightarrow> 'm set" where
  "sends ops = {m. Send m \<in> set ops}"

lemma spec_fifo:
  assumes "full \<noteq> RHINO_SUCCESS"
  shows "ms @ accepted ops (fst (fifo_run (spec_send room full) (spec_recv none) ops ms)) =
     delivered (fst (fifo_run (spec_send room full) (spec_recv none) ops ms)) @
     snd (fifo_run (spec_send room full) (spec_recv none) ops ms)"
proof (induction ops arbitrary: ms)
  case Nil
  then show ?case by (simp add: delivered_def map_filter_simps)
next
  case (Cons op ops)
  show ?case
  proof (cases op)
    case (Send m)
    have "ms @ m # accepted ops rs = (ms @ [m]) @ accepted ops rs" for rs by simp
    then show ?thesis
      using Cons.IH [of "ms @ [m]"] Cons.IH [of ms] assms Send
      by (simp add: spec_send_def case_prod_beta Let_def delivered_def map_filter_simps)
  next
    case Recv
    then show ?thesis
      using Cons.IH [of "tl ms"] Cons.IH [of ms]
      by (cases ms) (simp_all add: spec_recv_def case_prod_beta Let_def delivered_def map_filter_simps)
  qed
qed

section \<open>Implementations\<close>

locale bounded_fifo =
  fixes rep :: "'s \<Rightarrow> 'm list \<Rightarrow> bool" and send :: "'m \<Rightarrow> 's \<Rightarrow> kstat_t \<times> 's"
    and recv :: "'s \<Rightarrow> kstat_t \<times> 'm option \<times> 's" and fits :: "'m \<Rightarrow> bool"
    and room :: "'m list \<Rightarrow> 'm \<Rightarrow> bool" and full none :: kstat_t
  assumes send_step: "rep s ms \<Longrightarrow> fits m \<Longrightarrow>
      fst (send m s) = fst (spec_send room full m ms) \<and> rep (snd (send m s)) (snd (spec_send room full m ms))"
    and recv_step: "rep s ms \<Longrightarrow>
      fst (recv s) = fst (spec_recv none ms) \<and> fst (snd (recv s)) = fst (snd (spec_recv none ms)) \<and>
      rep (snd (snd (recv s))) (snd (snd (spec_recv none ms)))"
    and full_fails: "full \<noteq> RHINO_SUCCESS"
begin

lemma run_refines:
  assumes "rep s ms" and "\<forall>m \<in> sends ops. fits m"
  shows "fst (fifo_run send recv ops s) = fst (fifo_run (spec_send room full) (spec_recv none) ops ms) \<and>
    rep (snd (fifo_run send recv ops s)) (snd (fifo_run (spec_send room full) (spec_recv none) ops ms))"
  using assms
proof (induction ops arbitrary: s ms)
  case Nil
  then show ?case by simp
next
  case (Cons op ops)
  have f: "\<forall>m \<in> sends ops. fits m" using Cons.prems(2) by (simp add: sends_def)
  show ?case
  proof (cases op)
    case (Send m)
    have "fits m" using Cons.prems(2) Send by (simp add: sends_def)
    note st = send_step [OF Cons.prems(1) this]
    show ?thesis
      using Cons.IH [OF conjunct2 [OF st] f] st Send by (simp add: case_prod_beta Let_def)
  next
    case Recv
    note st = recv_step [OF Cons.prems(1)]
    show ?thesis
      using Cons.IH [OF conjunct2 [OF conjunct2 [OF st]] f] st Recv by (simp add: case_prod_beta Let_def)
  qed
qed

text \<open>Messages are delivered in the order in which they were accepted, none lost or repeated.\<close>

lemma run_fifo:
  assumes "rep s ms" and "\<forall>m \<in> sends ops. fits m"
  shows "\<exists>rest. rep (snd (fifo_run send recv ops s)) rest \<and>
    ms @ accepted ops (fst (fifo_run send recv ops s)) = delivered (fst (fifo_run send recv ops s)) @ rest"
  using run_refines [OF assms] spec_fifo [OF full_fails, of ms ops room none] by metis

end

end
