(* ===== verification/Ringbuf_Fifo.thy ===== *)
theory Ringbuf_Fifo
  imports Ringbuf Msg_Fifo
begin

text \<open>
  The ring buffer is a queue of messages. \<open>content\<close> is the sequence of its bytes from the head
  on; the fragments that \<^verbatim>\<open>ringbuf_push\<close> and \<^verbatim>\<open>ringbuf_pop\<close> copy append to it and take from it,
  and \<open>rb_rep\<close> says which messages a buffer holds.
\<close>

section \<open>The bytes in the buffer\<close>

definition cap :: "k_ringbuf_t \<Rightarrow> nat" where "cap rb = rb_end rb - rb_buf rb"

definition used :: "k_ringbuf_t \<Rightarrow> nat" where "used rb = cap rb - freesize rb"

definition at_off :: "k_ringbuf_t \<Rightarrow> nat \<Rightarrow> nat" where
  "at_off rb i = rb_buf rb + (rb_head rb - rb_buf rb + i) mod cap rb"

definition rb_content :: "k_ringbuf_t \<Rightarrow> memory \<Rightarrow> byte list" where
  "rb_content rb mem = map (\<lambda>i. mem (at_off rb i)) [0..<used rb]"

definition rb_ok :: "k_ringbuf_t \<Rightarrow> bool" where
  "rb_ok rb \<longleftrightarrow>
     rb_buf rb < rb_end rb \<and> freesize rb \<le> cap rb \<and>
     rb_buf rb \<le> rb_head rb \<and> rb_head rb \<le> rb_end rb \<and> rb_buf rb \<le> rb_tail rb \<and> rb_tail rb \<le> rb_end rb \<and>
     (rb_tail rb - rb_buf rb) mod cap rb = (rb_head rb - rb_buf rb + used rb) mod cap rb"

lemma mod_inj:
  fixes h :: nat
  assumes "(h + i) mod n = (h + j) mod n" and "i < n" "j < n"
  shows "i = j"
  using assms
proof (induction i j rule: linorder_wlog)
  case (le i j)
  then have "n dvd (h + j) - (h + i)" using mod_eq_dvd_iff_nat [of "h + i" "h + j" n] by simp
  with le show ?case by (auto dest: dvd_imp_le)
qed simp

lemma used_free: "rb_ok rb \<Longrightarrow> used rb + freesize rb = cap rb"
  by (simp add: rb_ok_def used_def)

lemma cap_pos: "rb_ok rb \<Longrightarrow> 0 < cap rb"
  by (simp add: rb_ok_def cap_def)

lemma rb_bounds:
  "rb_ok rb \<Longrightarrow> rb_buf rb \<le> rb_tail rb \<and> rb_buf rb \<le> rb_head rb \<and> rb_buf rb + cap rb = rb_end rb"
  by (simp add: rb_ok_def cap_def)

lemma length_content [simp]: "length (rb_content rb mem) = used rb"
  by (simp add: rb_content_def)

lemma at_off_less:
  assumes "rb_ok rb"
  shows "rb_buf rb \<le> at_off rb i \<and> at_off rb i < rb_end rb"
proof -
  define y where "y = (rb_head rb - rb_buf rb + i) mod cap rb"
  have "y < cap rb" unfolding y_def by (rule mod_less_divisor [OF cap_pos [OF assms]])
  then have "rb_buf rb + y < rb_end rb" by (simp add: cap_def)
  then show ?thesis by (simp add: at_off_def y_def [symmetric])
qed

lemma tail_mod:
  assumes "rb_ok rb"
  shows "(rb_tail rb - rb_buf rb + i) mod cap rb = (rb_head rb - rb_buf rb + (used rb + i)) mod cap rb"
proof -
  have "(rb_tail rb - rb_buf rb) mod cap rb = (rb_head rb - rb_buf rb + used rb) mod cap rb"
    using assms by (simp only: rb_ok_def)
  from mod_add_cong [OF this refl, of i] show ?thesis by (simp only: add.assoc)
qed

lemma at_off_tail:
  assumes "rb_ok rb" and "rb_tail rb + i < rb_end rb"
  shows "at_off rb (used rb + i) = rb_tail rb + i"
proof -
  have "rb_tail rb - rb_buf rb + i < cap rb" "rb_buf rb \<le> rb_tail rb" using assms by (auto simp: rb_ok_def cap_def)
  then show ?thesis by (simp add: at_off_def tail_mod [OF assms(1), symmetric])
qed

lemma at_off_head:
  "rb_ok rb \<Longrightarrow> rb_head rb + i < rb_end rb \<Longrightarrow> at_off rb i = rb_head rb + i"
  by (auto simp: at_off_def rb_ok_def cap_def)

lemma at_off_inj: "rb_ok rb \<Longrightarrow> i < cap rb \<Longrightarrow> j < cap rb \<Longrightarrow> at_off rb i = at_off rb j \<Longrightarrow> i = j"
  by (auto simp: at_off_def dest: mod_inj)

text \<open>A fragment written at the tail.\<close>

definition tail_add :: "nat \<Rightarrow> k_ringbuf_t \<Rightarrow> k_ringbuf_t" where
  "tail_add n rb = rb\<lparr>rb_tail := rb_tail rb + n, freesize := freesize rb - n\<rparr>"

lemma put_fragment:
  assumes k: "rb_ok rb" and n: "n \<le> freesize rb" "rb_tail rb + n \<le> rb_end rb"
  shows "rb_ok (tail_add n rb)" and "used (tail_add n rb) = used rb + n"
    and "rb_content (tail_add n rb) (memcpy mem (rb_tail rb) data n) = rb_content rb mem @ map data [0..<n]"
proof -
  let ?r = "tail_add n rb"
  have c: "cap ?r = cap rb" "rb_buf ?r = rb_buf rb" "rb_head ?r = rb_head rb" by (simp_all add: tail_add_def cap_def)
  show u: "used ?r = used rb + n" using n(1) k by (simp add: used_def c) (simp add: tail_add_def rb_ok_def)
  have "rb_tail ?r - rb_buf rb = rb_tail rb - rb_buf rb + n" using k by (simp add: tail_add_def rb_ok_def)
  then have "(rb_tail ?r - rb_buf ?r) mod cap ?r = (rb_head ?r - rb_buf ?r + used ?r) mod cap ?r"
    by (simp only: c u tail_mod [OF k])
  moreover have "rb_end ?r = rb_end rb" "freesize ?r \<le> cap rb" "rb_buf rb \<le> rb_tail ?r" "rb_tail ?r \<le> rb_end rb"
    using k n used_free [OF k] by (simp_all add: tail_add_def rb_ok_def)
  ultimately show "rb_ok ?r" using k unfolding rb_ok_def c by simp
  have o: "at_off ?r = at_off rb" by (simp add: at_off_def c fun_eq_iff)
  show "rb_content ?r (memcpy mem (rb_tail rb) data n) = rb_content rb mem @ map data [0..<n]"
  proof (rule nth_equalityI)
    fix i assume "i < length (rb_content ?r (memcpy mem (rb_tail rb) data n))"
    then have i: "i < used rb + n" by (simp add: u)
    show "rb_content ?r (memcpy mem (rb_tail rb) data n) ! i = (rb_content rb mem @ map data [0..<n]) ! i"
    proof (cases "i < used rb")
      case True
      have "\<not> (rb_tail rb \<le> at_off rb i \<and> at_off rb i < rb_tail rb + n)"
      proof
        assume a: "rb_tail rb \<le> at_off rb i \<and> at_off rb i < rb_tail rb + n"
        define j where "j = at_off rb i - rb_tail rb"
        have "at_off rb (used rb + j) = at_off rb i"
          using a n(2) at_off_tail [OF k, of j] by (simp add: j_def)
        moreover have "j < n" using a by (auto simp: j_def)
        then have "used rb + j < cap rb" using n(1) used_free [OF k] by simp
        ultimately show False using at_off_inj [OF k, of "used rb + j" i] True by simp
      qed
      then show ?thesis using True u by (auto simp: rb_content_def nth_append o memcpy_def)
    next
      case False
      then obtain j where j: "i = used rb + j" by (metis le_Suc_ex not_less)
      then have "at_off rb i = rb_tail rb + j" using at_off_tail [OF k, of j] i n(2) by simp
      then show ?thesis using i u j by (simp add: rb_content_def nth_append o memcpy_def)
    qed
  qed (simp add: u)
qed

text \<open>A fragment read at the head.\<close>

definition head_add :: "nat \<Rightarrow> k_ringbuf_t \<Rightarrow> k_ringbuf_t" where
  "head_add n rb = rb\<lparr>rb_head := rb_head rb + n, freesize := freesize rb + n\<rparr>"

lemma get_fragment:
  assumes k: "rb_ok rb" and n: "n \<le> used rb" "rb_head rb + n \<le> rb_end rb"
  shows "rb_ok (head_add n rb)" and "used (head_add n rb) = used rb - n"
    and "rb_content (head_add n rb) mem = drop n (rb_content rb mem)"
    and "bytes_at mem (rb_head rb) n = take n (rb_content rb mem)"
proof -
  let ?r = "head_add n rb"
  have c: "cap ?r = cap rb" "rb_buf ?r = rb_buf rb" "rb_tail ?r = rb_tail rb" "rb_end ?r = rb_end rb"
    by (simp_all add: head_add_def cap_def)
  show u: "used ?r = used rb - n" by (simp add: used_def c) (simp add: head_add_def)
  have h: "rb_head ?r - rb_buf rb = rb_head rb - rb_buf rb + n" using k by (simp add: head_add_def rb_ok_def)
  have "rb_head rb - rb_buf rb + n + (used rb - n) = rb_head rb - rb_buf rb + used rb" using n(1) by simp
  then have "(rb_tail ?r - rb_buf ?r) mod cap ?r = (rb_head ?r - rb_buf ?r + used ?r) mod cap ?r"
    using tail_mod [OF k, of 0] by (simp only: c u h) simp
  moreover have "freesize ?r \<le> cap rb" "rb_buf rb \<le> rb_head ?r" "rb_head ?r \<le> rb_end rb"
    using k n used_free [OF k] by (simp_all add: head_add_def rb_ok_def)
  ultimately show "rb_ok ?r" using k unfolding rb_ok_def c by simp
  have o: "at_off ?r i = at_off rb (n + i)" for i unfolding at_off_def c h by (simp only: add.assoc)
  show "rb_content ?r mem = drop n (rb_content rb mem)"
    by (rule nth_equalityI) (simp_all add: u rb_content_def o less_diff_conv add.commute)
  show "bytes_at mem (rb_head rb) n = take n (rb_content rb mem)"
    using n(1) at_off_head [OF k] n(2)
    by (intro nth_equalityI) (simp_all add: bytes_at_def rb_content_def)
qed

text \<open>Going back to the start of the buffer.\<close>

definition wrap_tail :: "k_ringbuf_t \<Rightarrow> k_ringbuf_t" where
  "wrap_tail rb = (if rb_tail rb = rb_end rb then rb\<lparr>rb_tail := rb_buf rb\<rparr> else rb)"

definition wrap_head :: "k_ringbuf_t \<Rightarrow> k_ringbuf_t" where
  "wrap_head rb = (if rb_head rb = rb_end rb then rb\<lparr>rb_head := rb_buf rb\<rparr> else rb)"

lemma wrap_tail_ok:
  assumes k: "rb_ok rb"
  shows "rb_ok (wrap_tail rb)" and "rb_tail (wrap_tail rb) < rb_end rb"
    and "rb_content (wrap_tail rb) mem = rb_content rb mem" and "used (wrap_tail rb) = used rb"
proof -
  have c: "cap (wrap_tail rb) = cap rb" "freesize (wrap_tail rb) = freesize rb" "rb_buf (wrap_tail rb) = rb_buf rb"
    "rb_end (wrap_tail rb) = rb_end rb" "rb_head (wrap_tail rb) = rb_head rb"
    by (simp_all add: wrap_tail_def cap_def)
  show u: "used (wrap_tail rb) = used rb" by (simp add: used_def c)
  have t: "rb_tail (wrap_tail rb) = (if rb_tail rb = rb_end rb then rb_buf rb else rb_tail rb)" by (simp add: wrap_tail_def)
  have "(rb_tail (wrap_tail rb) - rb_buf rb) mod cap rb = (rb_tail rb - rb_buf rb) mod cap rb"
    unfolding t by (simp add: cap_def)
  then show "rb_ok (wrap_tail rb)"
    using k t unfolding rb_ok_def c u by auto
  show "rb_tail (wrap_tail rb) < rb_end rb" using k t by (auto simp: rb_ok_def)
  show "rb_content (wrap_tail rb) mem = rb_content rb mem" by (simp add: rb_content_def u at_off_def c)
qed

lemma wrap_head_ok:
  assumes k: "rb_ok rb"
  shows "rb_ok (wrap_head rb)" and "rb_head (wrap_head rb) < rb_end rb"
    and "rb_content (wrap_head rb) mem = rb_content rb mem" and "used (wrap_head rb) = used rb"
proof -
  have c: "cap (wrap_head rb) = cap rb" "freesize (wrap_head rb) = freesize rb" "rb_buf (wrap_head rb) = rb_buf rb"
    "rb_end (wrap_head rb) = rb_end rb" "rb_tail (wrap_head rb) = rb_tail rb"
    by (simp_all add: wrap_head_def cap_def)
  show u: "used (wrap_head rb) = used rb" by (simp add: used_def c)
  have t: "rb_head (wrap_head rb) = (if rb_head rb = rb_end rb then rb_buf rb else rb_head rb)" by (simp add: wrap_head_def)
  have m: "(rb_head (wrap_head rb) - rb_buf rb + i) mod cap rb = (rb_head rb - rb_buf rb + i) mod cap rb" for i
    unfolding t by (simp add: cap_def [symmetric])
  then show "rb_ok (wrap_head rb)"
    using k t unfolding rb_ok_def c u by auto
  show "rb_head (wrap_head rb) < rb_end rb" using k t by (auto simp: rb_ok_def)
  show "rb_content (wrap_head rb) mem = rb_content rb mem" by (simp add: rb_content_def u at_off_def c m)
qed

text \<open>
  Fragments fit: a fragment that is not split at the end of the buffer stays inside it.
\<close>

lemma put_fits:
  assumes k: "rb_ok rb" and n: "n \<le> freesize rb" and h: "rb_tail rb < rb_head rb"
  shows "rb_tail rb + n \<le> rb_end rb"
proof (rule ccontr)
  define ho to where "ho = rb_head rb - rb_buf rb" and "to = rb_tail rb - rb_buf rb"
  assume a: "\<not> rb_tail rb + n \<le> rb_end rb"
  have b: "to < ho" "ho \<le> cap rb" "cap rb < to + n" "used rb + freesize rb = cap rb"
    using k h a used_free [OF k] by (auto simp: ho_def to_def rb_ok_def cap_def)
  have m: "to mod cap rb = (ho + used rb) mod cap rb" using k by (simp only: rb_ok_def ho_def to_def)
  show False
  proof (cases "ho + used rb < cap rb")
    case True
    then show ?thesis using m b by simp
  next
    case False
    then have "(ho + used rb) mod cap rb = ho + used rb - cap rb" using b n by (simp add: mod_if)
    then show ?thesis using m b n False by simp
  qed
qed

lemma get_fits:
  assumes k: "rb_ok rb" and n: "n \<le> used rb" "used rb < cap rb" and h: "rb_head rb \<le> rb_tail rb" "rb_head rb < rb_end rb"
  shows "rb_head rb + n \<le> rb_end rb"
proof (rule ccontr)
  define ho to where "ho = rb_head rb - rb_buf rb" and "to = rb_tail rb - rb_buf rb"
  assume a: "\<not> rb_head rb + n \<le> rb_end rb"
  have b: "ho \<le> to" "ho < cap rb" "to \<le> cap rb" "cap rb < ho + n"
    using k h a by (auto simp: ho_def to_def rb_ok_def cap_def)
  have m: "to mod cap rb = (ho + used rb) mod cap rb" using k by (simp only: rb_ok_def ho_def to_def)
  have "(ho + used rb) mod cap rb = ho + used rb - cap rb" using b n by (simp add: mod_if)
  then show False using m b n by (cases "to = cap rb") auto
qed

definition put :: "nat \<Rightarrow> memory \<Rightarrow> k_ringbuf_t \<times> memory \<Rightarrow> k_ringbuf_t \<times> memory" where
  "put n data = (\<lambda>(rb, mem).
     let rb = wrap_tail rb; split_len = rb_end rb - rb_tail rb in
     if rb_tail rb \<ge> rb_head rb \<and> split_len < n \<and> split_len > 0
     then (tail_add (n - split_len) (rb\<lparr>rb_tail := rb_buf rb, freesize := freesize rb - split_len\<rparr>),
           memcpy (memcpy mem (rb_tail rb) data split_len) (rb_buf rb) (\<lambda>i. data (split_len + i)) (n - split_len))
     else (tail_add n rb, memcpy mem (rb_tail rb) data n))"

definition same_frame :: "k_ringbuf_t \<Rightarrow> k_ringbuf_t \<Rightarrow> bool" where
  "same_frame rb rb' \<longleftrightarrow> rb_buf rb' = rb_buf rb \<and> rb_end rb' = rb_end rb \<and> rb_type rb' = rb_type rb \<and>
     blk_size rb' = blk_size rb"

lemma wrap_after_fill:
  assumes "rb_ok rb" and "split_len = rb_end rb - rb_tail rb" "split_len \<le> freesize rb"
  shows "wrap_tail (tail_add split_len rb) = rb\<lparr>rb_tail := rb_buf rb, freesize := freesize rb - split_len\<rparr>"
  using assms by (simp add: wrap_tail_def tail_add_def rb_ok_def)

lemma map_upt_add: "m \<le> n \<Longrightarrow> map f [0..<m] @ map (\<lambda>i. f (m + i)) [0..<n - m] = map f [0..<n]"
  by (rule nth_equalityI) (auto simp: nth_append)

lemma put_ok:
  assumes k: "rb_ok rb" and n: "n \<le> freesize rb" and r: "put n data (rb, mem) = (rb', mem')"
  shows "rb_ok rb'" and "used rb' = used rb + n" and "rb_content rb' mem' = rb_content rb mem @ map data [0..<n]"
    and "same_frame rb rb'"
proof -
  define ra where "ra = wrap_tail rb"
  have fr: "freesize ra = freesize rb" "same_frame rb ra" by (simp_all add: ra_def wrap_tail_def same_frame_def)
  have ends: "rb_end ra = rb_end rb" using fr(2) by (simp add: same_frame_def)
  note a = wrap_tail_ok [OF k, folded ra_def]
  define sl where "sl = rb_end ra - rb_tail ra"
  have r: "(rb', mem') = (if rb_tail ra \<ge> rb_head ra \<and> sl < n \<and> sl > 0
     then (tail_add (n - sl) (ra\<lparr>rb_tail := rb_buf ra, freesize := freesize ra - sl\<rparr>),
           memcpy (memcpy mem (rb_tail ra) data sl) (rb_buf ra) (\<lambda>i. data (sl + i)) (n - sl))
     else (tail_add n ra, memcpy mem (rb_tail ra) data n))"
    unfolding r [symmetric] by (simp add: put_def Let_def ra_def sl_def)
  have "rb_ok rb' \<and> used rb' = used rb + n \<and> rb_content rb' mem' = rb_content rb mem @ map data [0..<n] \<and> same_frame rb rb'"
  proof (cases "rb_tail ra \<ge> rb_head ra \<and> sl < n")
    case True
    have sl: "sl \<le> freesize ra" "rb_tail ra + sl \<le> rb_end ra" "0 < sl"
      using True n fr(1) a(2) ends by (auto simp: sl_def)
    note p = put_fragment [OF a(1) sl(1,2)]
    define rb2 where "rb2 = wrap_tail (tail_add sl ra)"
    define mem2 where "mem2 = memcpy mem (rb_tail ra) data sl"
    have rb2: "rb2 = ra\<lparr>rb_tail := rb_buf ra, freesize := freesize ra - sl\<rparr>"
      unfolding rb2_def by (rule wrap_after_fill [OF a(1) sl_def sl(1)])
    note w = wrap_tail_ok [OF p(1), folded rb2_def]
    have f2: "n - sl \<le> freesize rb2" "rb_tail rb2 + (n - sl) \<le> rb_end rb2"
      using n fr(1) True sl a(1) by (auto simp: rb2 rb_ok_def sl_def cap_def)
    note q = put_fragment [OF w(1) f2]
    have eq: "rb' = tail_add (n - sl) rb2" "mem' = memcpy mem2 (rb_tail rb2) (\<lambda>i. data (sl + i)) (n - sl)"
      using r True sl(3) by (simp_all add: mem2_def rb2)
    show ?thesis
      using q w p a True map_upt_add [of sl n data] fr(2)
      by (simp add: eq mem2_def) (simp add: same_frame_def tail_add_def rb2)
  next
    case False
    have fits: "rb_tail ra + n \<le> rb_end ra"
      using False put_fits [OF a(1), of n] n fr(1) a(2) ends by (auto simp: sl_def not_le)
    have nf: "n \<le> freesize ra" using n fr(1) by simp
    note p = put_fragment [OF a(1) nf fits]
    have "rb' = tail_add n ra" "mem' = memcpy mem (rb_tail ra) data n"
      using r False by auto
    then show ?thesis using p a fr(2) by (simp add: same_frame_def tail_add_def)
  qed
  then show "rb_ok rb'" and "used rb' = used rb + n" and "rb_content rb' mem' = rb_content rb mem @ map data [0..<n]"
    and "same_frame rb rb'" by simp_all
qed

definition get :: "bool \<Rightarrow> nat \<Rightarrow> k_ringbuf_t \<Rightarrow> memory \<Rightarrow> k_ringbuf_t \<times> byte list" where
  "get c n rb mem =
     (let split_len = rb_end rb - rb_head rb in
      if c \<and> split_len < n
      then (head_add (n - split_len) (rb\<lparr>rb_head := rb_buf rb, freesize := freesize rb + split_len\<rparr>),
            bytes_at mem (rb_head rb) split_len @ bytes_at mem (rb_buf rb) (n - split_len))
      else (head_add n rb, bytes_at mem (rb_head rb) n))"

lemma get_ok:
  assumes k: "rb_ok rb" and n: "n \<le> used rb" and h: "rb_head rb < rb_end rb" and c: "c \<or> rb_head rb + n \<le> rb_end rb"
    and r: "get c n rb mem = (rb', bs)"
  shows "rb_ok rb'" and "used rb' = used rb - n" and "rb_content rb' mem = drop n (rb_content rb mem)"
    and "bs = take n (rb_content rb mem)" and "same_frame rb rb'" and "rb_tail rb' = rb_tail rb"
proof -
  define sl where "sl = rb_end rb - rb_head rb"
  have r: "(rb', bs) = (if c \<and> sl < n
      then (head_add (n - sl) (rb\<lparr>rb_head := rb_buf rb, freesize := freesize rb + sl\<rparr>),
            bytes_at mem (rb_head rb) sl @ bytes_at mem (rb_buf rb) (n - sl))
      else (head_add n rb, bytes_at mem (rb_head rb) n))"
    unfolding r [symmetric] by (simp add: get_def Let_def sl_def)
  have "rb_ok rb' \<and> used rb' = used rb - n \<and> rb_content rb' mem = drop n (rb_content rb mem) \<and>
    bs = take n (rb_content rb mem) \<and> same_frame rb rb' \<and> rb_tail rb' = rb_tail rb"
  proof (cases "c \<and> sl < n")
    case True
    have sl: "sl \<le> used rb" "rb_head rb + sl \<le> rb_end rb" using True n h by (auto simp: sl_def)
    note p = get_fragment [OF k sl]
    define rb2 where "rb2 = wrap_head (head_add sl rb)"
    have rb2: "rb2 = rb\<lparr>rb_head := rb_buf rb, freesize := freesize rb + sl\<rparr>"
      using h by (simp add: rb2_def wrap_head_def head_add_def sl_def)
    note w = wrap_head_ok [OF p(1), folded rb2_def]
    have "n - sl \<le> cap rb" using n used_free [OF k] by simp
    moreover have "rb_buf rb + cap rb = rb_end rb" using k by (simp add: cap_def rb_ok_def)
    ultimately have f2: "n - sl \<le> used rb2" "rb_head rb2 + (n - sl) \<le> rb_end rb2"
      using n p(2) w(4) by (simp_all add: rb2)
    note q = get_fragment [OF w(1) f2]
    have eq: "rb' = head_add (n - sl) rb2" "bs = bytes_at mem (rb_head rb) sl @ bytes_at mem (rb_head rb2) (n - sl)"
      using r True by (simp_all add: rb2)
    have "bs = take sl (rb_content rb mem) @ take (n - sl) (drop sl (rb_content rb mem))"
      unfolding eq(2) p(4) q(4) w(3) p(3) ..
    also have "\<dots> = take n (rb_content rb mem)" using True by (simp add: take_add [symmetric])
    finally show ?thesis
      using p q w True by (simp add: eq(1)) (simp add: same_frame_def head_add_def rb2)
  next
    case False
    have "rb_head rb + n \<le> rb_end rb" using False c h by (auto simp: sl_def)
    note p = get_fragment [OF k n this]
    have "rb' = head_add n rb" "bs = bytes_at mem (rb_head rb) n" using r False by auto
    then show ?thesis using p by (simp add: same_frame_def head_add_def)
  qed
  then show "rb_ok rb'" and "used rb' = used rb - n" and "rb_content rb' mem = drop n (rb_content rb mem)"
    and "bs = take n (rb_content rb mem)" and "same_frame rb rb'" and "rb_tail rb' = rb_tail rb" by simp_all
qed

section \<open>Message lengths\<close>

definition hdr :: "nat \<Rightarrow> byte list" where
  "hdr len = snd (ringbuf_headlen_compress len)"

definition hdr_bytes :: "byte \<Rightarrow> nat" where
  "hdr_bytes b = (if b AND 0x80 = 0 then 1 else if b AND 0xC0 = 0x80 then 2 else if b AND 0xC0 = 0xC0 then 3 else 0)"

lemma low_bits: "w AND 0x3f = w" if "unat w < 64" for w :: byte
proof -
  have "w AND mask 6 = take_bit 6 w" by (simp add: take_bit_eq_mask)
  moreover have "take_bit 6 w = w" using that by (simp add: word_unat_eq_iff unsigned_take_bit_eq take_bit_nat_eq_self_iff)
  ultimately show ?thesis by (simp add: mask_numeral)
qed

lemma length_hdr: "len \<le> 0x3fffff \<Longrightarrow> length (hdr len) = COMPRESS_LEN len"
  by (simp add: hdr_def ringbuf_headlen_compress_def Let_def COMPRESS_LEN_def)

lemma high_or:
  fixes w :: byte
  assumes "unat w < 64"
  shows "(0x80 OR w) AND 0x3f = w" and "(0xC0 OR w) AND 0x3f = w"
    and "(0x80 OR w) AND 0x80 = 0x80" and "(0xC0 OR w) AND 0x80 = 0x80"
    and "(0x80 OR w) AND 0xC0 = 0x80" and "(0xC0 OR w) AND 0xC0 = 0xC0"
proof -
  have e: "w AND x = w AND (0x3f AND x)" for x :: byte using low_bits [OF assms] by (metis and.assoc)
  have z: "w AND 0x80 = 0" "w AND 0xC0 = 0" using e [of "0x80"] e [of "0xC0"] by simp_all
  show "(0x80 OR w) AND 0x3f = w" "(0xC0 OR w) AND 0x3f = w"
    "(0x80 OR w) AND 0x80 = 0x80" "(0xC0 OR w) AND 0x80 = 0x80"
    "(0x80 OR w) AND 0xC0 = 0x80" "(0xC0 OR w) AND 0xC0 = 0xC0"
    by (simp_all add: bit.conj_disj_distrib2 low_bits [OF assms] z)
qed

lemma unat_p_len: "unat (p_len len i) = len div 256 ^ (3 - i) mod 256"
  by (simp add: p_len_def unat_of_nat)

lemma hdr_first:
  assumes "len \<le> 0x3fffff"
  shows "hdr_bytes (hd (hdr len)) = COMPRESS_LEN len"
proof -
  have "hdr len = [0x7f AND p_len len 3] \<and> len \<le> 0x7f \<or>
    hdr len = [0x80 OR p_len len 2, p_len len 3] \<and> \<not> len \<le> 0x7f \<and> len \<le> 0x3fff \<or>
    hdr len = [0xC0 OR p_len len 1, p_len len 2, p_len len 3] \<and> \<not> len \<le> 0x3fff"
    using assms by (simp add: hdr_def ringbuf_headlen_compress_def Let_def COMPRESS_LEN_def)
  then show ?thesis
  proof (elim disjE conjE)
    assume a: "hdr len = [0x7f AND p_len len 3]" "len \<le> 0x7f"
    have "(0x7f AND p_len len 3) AND (0x80 :: byte) = p_len len 3 AND (0x7f AND 0x80)" by (simp only: ac_simps)
    then show ?thesis using a by (simp add: hdr_bytes_def COMPRESS_LEN_def)
  next
    assume a: "hdr len = [0x80 OR p_len len 2, p_len len 3]" "\<not> len \<le> 0x7f" "len \<le> 0x3fff"
    then have "unat (p_len len 2) < 64" by (simp add: unat_p_len)
    from high_or [OF this] a show ?thesis by (simp add: hdr_bytes_def COMPRESS_LEN_def)
  next
    assume a: "hdr len = [0xC0 OR p_len len 1, p_len len 2, p_len len 3]" "\<not> len \<le> 0x3fff"
    then have "unat (p_len len 1) < 64" using assms by (simp add: unat_p_len)
    from high_or [OF this] a assms show ?thesis by (simp add: hdr_bytes_def COMPRESS_LEN_def)
  qed
qed

lemma decompress_hdr:
  assumes "len \<le> 0x3fffff"
  shows "ringbuf_headlen_decompress (COMPRESS_LEN len) (hdr len) = len"
proof -
  consider "len \<le> 0x7f" | "\<not> len \<le> 0x7f" "len \<le> 0x3fff" | "\<not> len \<le> 0x3fff" by linarith
  then show ?thesis
  proof cases
    case 1
    have "unat (0x7f AND p_len len 3) = len"
    proof -
      have "0x7f AND p_len len 3 = take_bit 7 (p_len len 3)" by (simp add: take_bit_eq_mask mask_numeral and.commute)
      then show ?thesis using 1 by (simp add: unat_p_len take_bit_eq_mod unat_mod)
    qed
    with 1 show ?thesis
      by (simp add: hdr_def ringbuf_headlen_compress_def Let_def COMPRESS_LEN_def ringbuf_headlen_decompress_def)
  next
    case 2
    then have "unat (p_len len 2) < 64" by (simp add: unat_p_len)
    note h = high_or(1) [OF this]
    have "len div 256 mod 256 * 256 + len mod 256 = len" using 2 by simp
    with 2 h show ?thesis
      by (simp add: hdr_def ringbuf_headlen_compress_def Let_def COMPRESS_LEN_def ringbuf_headlen_decompress_def unat_p_len)
  next
    case 3
    then have "unat (p_len len 1) < 64" using assms by (simp add: unat_p_len)
    note h = high_or(2) [OF this]
    have "len div 65536 mod 256 = len div 65536" using assms by simp
    moreover have "len div 65536 = len div 256 div 256" by (simp add: div_mult2_eq [symmetric])
    then have "(len div 65536 * 256 + len div 256 mod 256) * 256 + len mod 256 = len"
      by (simp only: div_mult_mod_eq)
    ultimately show ?thesis using 3 h assms
      by (simp add: hdr_def ringbuf_headlen_compress_def Let_def COMPRESS_LEN_def ringbuf_headlen_decompress_def unat_p_len)
  qed
qed

section \<open>Pushing and popping, fragment by fragment\<close>

lemma rb_update_order:
  "(rb :: k_ringbuf_t)\<lparr>freesize := f, rb_tail := t\<rparr> = rb\<lparr>rb_tail := t, freesize := f\<rparr>"
  by (cases rb) simp

lemma ringbuf_push_dyn:
  assumes "rb_type rb = RINGBUF_TYPE_DYN" and "len \<le> 0x3fffff"
  shows "ringbuf_push rb mem data len =
    (if freesize rb < 2 \<or> freesize rb < COMPRESS_LEN len + len then (RHINO_RINGBUF_FULL, rb, mem)
     else (RHINO_SUCCESS, put len data (put (COMPRESS_LEN len) (nth (hdr len)) (rb, mem))))"
proof -
  define lb where "lb = COMPRESS_LEN len"
  have lb: "0 < lb" "lb \<le> 3" using assms(2) by (auto simp: lb_def COMPRESS_LEN_def)
  have h: "ringbuf_headlen_compress len = (lb, hdr len)"
    by (simp add: hdr_def ringbuf_headlen_compress_def Let_def lb_def)
  have full: "ringbuf_is_full rb \<longleftrightarrow> freesize rb < 2" using assms(1) by (simp add: ringbuf_is_full_def)
  obtain ra ma where p: "put lb (nth (hdr len)) (rb, mem) = (ra, ma)" by fastforce
  define rw where "rw = wrap_tail rb"
  define sl where "sl = rb_end rw - rb_tail rw"
  have eq: "(ra, ma) = (if rb_tail rw \<ge> rb_head rw \<and> sl < lb \<and> sl > 0
     then (tail_add (lb - sl) (rw\<lparr>rb_tail := rb_buf rw, freesize := freesize rw - sl\<rparr>),
           memcpy (memcpy mem (rb_tail rw) (nth (hdr len)) sl) (rb_buf rw) (\<lambda>i. hdr len ! (sl + i)) (lb - sl))
     else (tail_add lb rw, memcpy mem (rb_tail rw) (nth (hdr len)) lb))"
    unfolding p [symmetric] by (simp add: put_def Let_def rw_def sl_def)
  show ?thesis
  proof (cases "rb_tail rw \<ge> rb_head rw \<and> sl < lb \<and> sl > 0")
    case True
    then have "ra = tail_add (lb - sl) (rw\<lparr>rb_tail := rb_buf rw, freesize := freesize rw - sl\<rparr>)"
      "ma = memcpy (memcpy mem (rb_tail rw) (nth (hdr len)) sl) (rb_buf rw) (\<lambda>i. hdr len ! (sl + i)) (lb - sl)"
      using eq by simp_all
    moreover have "rb_tail rw < rb_end rw" using True by (simp add: sl_def)
    ultimately show ?thesis
      unfolding ringbuf_push_def h full lb_def [symmetric] p
      using assms(1) lb True
      by (simp add: Let_def wrap_tail_def [symmetric] rw_def [symmetric] sl_def [symmetric] put_def rb_update_order tail_add_def)
  next
    case False
    then have "ra = tail_add lb rw" "ma = memcpy mem (rb_tail rw) (nth (hdr len)) lb"
      using eq by auto
    moreover have c: "(rb_head rw \<le> rb_tail rw \<and> sl < lb \<and> rb_tail rw < rb_end rw) = False"
      using False by (auto simp: sl_def)
    ultimately show ?thesis
      unfolding ringbuf_push_def h full lb_def [symmetric] p
      using assms(1) lb
      by (simp add: Let_def wrap_tail_def [symmetric] rw_def [symmetric] sl_def [symmetric] put_def rb_update_order
          tail_add_def c)
  qed
qed

lemma rb_update_order_head:
  "(rb :: k_ringbuf_t)\<lparr>freesize := f, rb_head := t\<rparr> = rb\<lparr>rb_head := t, freesize := f\<rparr>"
  by (cases rb) simp

lemma ringbuf_pop_dyn:
  fixes mem :: memory
  assumes "rb_type rb = RINGBUF_TYPE_DYN" and "\<not> ringbuf_is_empty rb"
  defines "rw \<equiv> wrap_head rb"
  defines "lb \<equiv> hdr_bytes (mem (rb_head rw))"
  assumes lb: "0 < lb" and h: "rb_head rw < rb_end rw"
  shows "ringbuf_pop rb mem =
    (let (ra, c_len) = get True lb rw mem;
         rw = wrap_head ra
     in (RHINO_SUCCESS, get (rb_head rw > rb_tail rw) (ringbuf_headlen_decompress lb c_len) rw mem))"
proof -
  define sl where "sl = rb_end rw - rb_head rw"
  have sl: "0 < sl" using h by (simp add: sl_def)
  obtain ra c_len where g: "get True lb rw mem = (ra, c_len)" by fastforce
  have eq: "(ra, c_len) = (if sl < lb
      then (head_add (lb - sl) (rw\<lparr>rb_head := rb_buf rw, freesize := freesize rw + sl\<rparr>),
            bytes_at mem (rb_head rw) sl @ bytes_at mem (rb_buf rw) (lb - sl))
      else (head_add lb rw, bytes_at mem (rb_head rw) lb))"
    unfolding g [symmetric] by (simp add: get_def Let_def sl_def)
  note unf = ringbuf_pop_def Let_def wrap_head_def [symmetric] rw_def [symmetric] hdr_bytes_def [symmetric]
    lb_def [symmetric]
  show ?thesis
  proof (cases "sl < lb")
    case True
    then have "ra = head_add (lb - sl) (rw\<lparr>rb_head := rb_buf rw, freesize := freesize rw + sl\<rparr>)"
      "c_len = bytes_at mem (rb_head rw) sl @ bytes_at mem (rb_buf rw) (lb - sl)"
      using eq by simp_all
    then show ?thesis
      using assms(1,2) lb True h sl
      by (simp add: unf sl_def [symmetric] get_def head_add_def)
  next
    case False
    then have "ra = head_add lb rw" "c_len = bytes_at mem (rb_head rw) lb" using eq by simp_all
    then show ?thesis
      using assms(1,2) lb False h sl
      by (simp add: unf sl_def [symmetric] get_def head_add_def)
  qed
qed

section \<open>A queue of messages\<close>

definition rb_encode :: "ringbuf_type \<Rightarrow> byte list \<Rightarrow> byte list" where
  "rb_encode ty m = (case ty of RINGBUF_TYPE_FIX \<Rightarrow> m | RINGBUF_TYPE_DYN \<Rightarrow> hdr (length m) @ m)"

definition msg_fits :: "k_ringbuf_t \<Rightarrow> byte list \<Rightarrow> bool" where
  "msg_fits rb m \<longleftrightarrow>
     (case rb_type rb of RINGBUF_TYPE_FIX \<Rightarrow> length m = blk_size rb | RINGBUF_TYPE_DYN \<Rightarrow> length m \<le> 0x3fffff)"

definition rb_rep :: "k_ringbuf_t \<Rightarrow> memory \<Rightarrow> byte list list \<Rightarrow> bool" where
  "rb_rep rb mem ms \<longleftrightarrow>
     rb_ok rb \<and> list_all (msg_fits rb) ms \<and>
     rb_content rb mem = concat (map (rb_encode (rb_type rb)) ms) \<and>
     (rb_type rb = RINGBUF_TYPE_FIX \<longrightarrow> 0 < blk_size rb \<and> blk_size rb dvd cap rb \<and>
        blk_size rb dvd rb_head rb - rb_buf rb \<and> blk_size rb dvd rb_tail rb - rb_buf rb)"

lemma rb_rep_init:
  assumes "0 < len" and "ty = RINGBUF_TYPE_FIX \<Longrightarrow> 0 < b \<and> b dvd len"
  shows "rb_rep (ringbuf_init rb buf len ty b) mem []"
  using assms by (simp add: rb_rep_def ringbuf_init_def ringbuf_reset_def rb_ok_def cap_def used_def rb_content_def)

lemma rb_rep_reset:
  assumes "rb_rep rb mem ms"
  shows "rb_rep (ringbuf_reset rb) mem []"
  using assms by (simp add: rb_rep_def ringbuf_reset_def rb_ok_def cap_def used_def rb_content_def)

lemma rb_encode_nonempty: "msg_fits rb m \<Longrightarrow> rb_type rb = RINGBUF_TYPE_FIX \<longrightarrow> 0 < blk_size rb \<Longrightarrow>
    rb_encode (rb_type rb) m \<noteq> []"
  using length_hdr [of "length m"]
  by (cases "rb_type rb") (auto simp: msg_fits_def rb_encode_def COMPRESS_LEN_def split: if_splits)

lemma rb_rep_empty:
  assumes r: "rb_rep rb mem ms"
  shows "ringbuf_is_empty rb \<longleftrightarrow> ms = []"
proof -
  have "ringbuf_is_empty rb \<longleftrightarrow> used rb = 0"
    using r by (auto simp: ringbuf_is_empty_def rb_rep_def rb_ok_def used_def cap_def)
  also have "\<dots> \<longleftrightarrow> rb_content rb mem = []" using length_content [of rb mem] by (metis length_0_conv)
  also have "\<dots> \<longleftrightarrow> ms = []"
    using r rb_encode_nonempty [of rb] by (cases ms) (auto simp: rb_rep_def)
  finally show ?thesis .
qed

definition rb_room :: "k_ringbuf_t \<Rightarrow> nat \<Rightarrow> bool" where
  "rb_room rb len \<longleftrightarrow>
     (case rb_type rb of RINGBUF_TYPE_FIX \<Rightarrow> blk_size rb \<le> freesize rb
      | RINGBUF_TYPE_DYN \<Rightarrow> 2 \<le> freesize rb \<and> COMPRESS_LEN len + len \<le> freesize rb)"

lemma dvd_step: "b dvd x \<Longrightarrow> b dvd y \<Longrightarrow> x < y \<Longrightarrow> x + b \<le> (y :: nat)"
  using dvd_imp_le [of b "y - x"] by (simp add: dvd_diff_nat less_diff_conv2)

lemma msg_fits_frame: "same_frame rb rb' \<Longrightarrow> msg_fits rb' = msg_fits rb"
  by (auto simp: msg_fits_def same_frame_def fun_eq_iff split: ringbuf_type.split)

lemma push_rep:
  assumes r: "rb_rep rb mem ms" and f: "msg_fits rb (map data [0..<len])"
  shows "if rb_room rb len
    then \<exists>rb' mem'. ringbuf_push rb mem data len = (RHINO_SUCCESS, rb', mem') \<and>
      rb_rep rb' mem' (ms @ [map data [0..<len]]) \<and> same_frame rb rb'
    else ringbuf_push rb mem data len = (RHINO_RINGBUF_FULL, rb, mem)"
proof (cases "rb_type rb")
  case RINGBUF_TYPE_DYN
  define lb where "lb = COMPRESS_LEN len"
  have len: "len \<le> 0x3fffff" using f RINGBUF_TYPE_DYN by (simp add: msg_fits_def)
  note p = ringbuf_push_dyn [OF RINGBUF_TYPE_DYN len, of mem data, folded lb_def]
  show ?thesis
  proof (cases "rb_room rb len")
    case True
    then have n: "\<not> (freesize rb < 2 \<or> freesize rb < lb + len)" "lb \<le> freesize rb"
      using RINGBUF_TYPE_DYN by (auto simp: rb_room_def lb_def)
    have k: "rb_ok rb" using r by (simp add: rb_rep_def)
    obtain ra ma where a: "put lb (nth (hdr len)) (rb, mem) = (ra, ma)" by fastforce
    obtain rb' mem' where b: "put len data (ra, ma) = (rb', mem')" by fastforce
    note ka = put_ok [OF k n(2) a]
    have "len \<le> freesize ra" using n used_free [OF ka(1)] used_free [OF k] ka(2,4) by (simp add: same_frame_def cap_def)
    note kb = put_ok [OF ka(1) this b]
    have h: "map (nth (hdr len)) [0..<lb] = hdr len" using map_nth [of "hdr len"] length_hdr [OF len] by (simp add: lb_def)
    have fr: "same_frame rb rb'" using ka(4) kb(4) by (simp add: same_frame_def)
    have "list_all (msg_fits rb') (ms @ [map data [0..<len]])"
      using r f msg_fits_frame [OF fr] by (simp add: rb_rep_def)
    moreover have ty: "rb_type rb' = RINGBUF_TYPE_DYN" using fr RINGBUF_TYPE_DYN by (simp add: same_frame_def)
    moreover have "rb_content rb' mem' = concat (map (rb_encode (rb_type rb')) (ms @ [map data [0..<len]]))"
      using r RINGBUF_TYPE_DYN by (simp add: ty ka(3) kb(3) h rb_rep_def rb_encode_def)
    ultimately have "rb_rep rb' mem' (ms @ [map data [0..<len]])" using kb(1) by (simp add: rb_rep_def)
    then show ?thesis using True p n a b fr by simp
  next
    case False
    then show ?thesis using p RINGBUF_TYPE_DYN by (auto simp: rb_room_def lb_def)
  qed
next
  case RINGBUF_TYPE_FIX
  define n where "n = blk_size rb"
  have len: "len = n" using f RINGBUF_TYPE_FIX by (simp add: msg_fits_def n_def)
  have b: "0 < n" "n dvd cap rb" "n dvd rb_head rb - rb_buf rb" "n dvd rb_tail rb - rb_buf rb"
    using r RINGBUF_TYPE_FIX by (simp_all add: rb_rep_def n_def)
  show ?thesis
  proof (cases "n \<le> freesize rb")
    case True
    have k: "rb_ok rb" using r by (simp add: rb_rep_def)
    define rw where "rw = wrap_tail rb"
    have fw: "same_frame rb rw" "rb_head rw = rb_head rb" "freesize rw = freesize rb" "cap rw = cap rb"
      by (simp_all add: rw_def wrap_tail_def same_frame_def cap_def)
    note w = wrap_tail_ok [OF k, folded rw_def]
    have d: "n dvd rb_tail rw - rb_buf rw" using b(4) by (simp add: rw_def wrap_tail_def)
    have lt: "rb_tail rw - rb_buf rw < cap rw" using w(1,2) fw(1) by (auto simp: cap_def rb_ok_def same_frame_def)
    have "rb_tail rw - rb_buf rw + n \<le> cap rw" by (rule dvd_step [OF d _ lt]) (simp add: fw b)
    then have fit: "rb_tail rw + n \<le> rb_end rw" using rb_bounds [OF w(1)] by linarith
    note p = put_fragment [OF w(1) True [folded fw(3)] fit]
    define rb' where "rb' = tail_add n rw"
    have fr: "same_frame rb rb'" using fw(1) by (simp add: same_frame_def rb'_def tail_add_def)
    have "rb_head rb' = rb_head rb" "rb_tail rb' = rb_tail rw + n" "cap rb' = cap rb"
      using fw by (simp_all add: rb'_def tail_add_def cap_def)
    moreover have "rb_tail rw + n - rb_buf rb = (rb_tail rw - rb_buf rw) + n"
      using w(1) fw(1) by (simp add: rb_ok_def same_frame_def)
    ultimately have dv: "n dvd cap rb'" "n dvd rb_head rb' - rb_buf rb'" "n dvd rb_tail rb' - rb_buf rb'"
      using b d fr by (simp_all add: same_frame_def)
    have "list_all (msg_fits rb') (ms @ [map data [0..<len]])"
      using r f msg_fits_frame [OF fr] by (simp add: rb_rep_def)
    moreover have ty: "rb_type rb' = RINGBUF_TYPE_FIX" "blk_size rb' = n"
      using fr RINGBUF_TYPE_FIX by (simp_all add: same_frame_def n_def)
    moreover have "rb_content rb' (memcpy mem (rb_tail rw) data n) = concat (map (rb_encode (rb_type rb')) (ms @ [map data [0..<len]]))"
      using r p(3) RINGBUF_TYPE_FIX by (simp add: ty rb'_def [symmetric] w(3) rb_rep_def rb_encode_def len)
    ultimately have "rb_rep rb' (memcpy mem (rb_tail rw) data n) (ms @ [map data [0..<len]])"
      using p(1) dv b(1) by (simp add: rb_rep_def rb'_def)
    moreover have "ringbuf_push rb mem data len = (RHINO_SUCCESS, rb', memcpy mem (rb_tail rw) data n)"
      using True RINGBUF_TYPE_FIX fw(1)
      by (simp add: ringbuf_push_def ringbuf_is_full_def Let_def wrap_tail_def [symmetric] rw_def [symmetric]
          rb'_def tail_add_def n_def [symmetric] same_frame_def)
    ultimately show ?thesis using True fr RINGBUF_TYPE_FIX by (simp add: rb_room_def n_def)
  next
    case False
    then show ?thesis using RINGBUF_TYPE_FIX by (simp add: rb_room_def ringbuf_push_def ringbuf_is_full_def n_def)
  qed
qed

lemma pop_rep:
  assumes r: "rb_rep rb mem (m # ms)"
  obtains rb' where "ringbuf_pop rb mem = (RHINO_SUCCESS, rb', m)" "rb_rep rb' mem ms" "same_frame rb rb'"
proof -
  have ne: "\<not> ringbuf_is_empty rb" using rb_rep_empty [OF r] by simp
  have k: "rb_ok rb" and fm: "msg_fits rb m" using r by (simp_all add: rb_rep_def)
  define rw where "rw = wrap_head rb"
  have fw: "same_frame rb rw" "rb_tail rw = rb_tail rb" "freesize rw = freesize rb" "cap rw = cap rb"
    by (simp_all add: rw_def wrap_head_def same_frame_def cap_def)
  note w = wrap_head_ok [OF k, folded rw_def]
  have hd: "rb_head rw < rb_end rw" using w(2) fw(1) by (simp add: same_frame_def)
  have cw: "rb_content rw mem = rb_encode (rb_type rb) m @ concat (map (rb_encode (rb_type rb)) ms)"
    using r w(3) [of mem] by (simp add: rb_rep_def)
  show thesis
  proof (cases "rb_type rb")
    case RINGBUF_TYPE_DYN
    define len where "len = length m"
    have len: "len \<le> 0x3fffff" using fm RINGBUF_TYPE_DYN by (simp add: msg_fits_def len_def)
    define lb where "lb = COMPRESS_LEN len"
    have lh: "length (hdr len) = lb" "0 < lb" using length_hdr [OF len] by (auto simp: lb_def COMPRESS_LEN_def)
    have cw: "rb_content rw mem = hdr len @ m @ concat (map (rb_encode RINGBUF_TYPE_DYN) ms)"
      using cw RINGBUF_TYPE_DYN by (simp add: rb_encode_def len_def)
    have us: "lb + len \<le> used rw" using length_content [of rw mem] unfolding cw by (simp add: lh len_def [symmetric])
    have "mem (rb_head rw) = rb_content rw mem ! 0"
      using at_off_head [OF w(1), of 0] hd us lh(2) by (simp add: rb_content_def)
    then have b: "hdr_bytes (mem (rb_head rw)) = lb"
      using hdr_first [OF len] lh by (cases "hdr len") (simp_all add: cw lb_def)
    obtain ra c_len where a: "get True lb rw mem = (ra, c_len)" by fastforce
    note ga = get_ok [OF w(1) _ hd _ a]
    have ga: "rb_ok ra" "used ra = used rw - lb" "rb_content ra mem = drop lb (rb_content rw mem)"
      "c_len = take lb (rb_content rw mem)" "same_frame rw ra" "rb_tail ra = rb_tail rw"
      using ga us by simp_all
    have c: "c_len = hdr len" "rb_content ra mem = m @ concat (map (rb_encode RINGBUF_TYPE_DYN) ms)"
      using ga(3,4) by (simp_all add: cw lh)
    define rx where "rx = wrap_head ra"
    have fx: "same_frame ra rx" "rb_tail rx = rb_tail ra" "cap rx = cap ra"
      by (simp_all add: rx_def wrap_head_def same_frame_def cap_def)
    note wx = wrap_head_ok [OF ga(1), folded rx_def]
    have hx: "rb_head rx < rb_end rx" using wx(2) fx(1) by (simp add: same_frame_def)
    have ux: "len \<le> used rx" "used rx < cap rx"
      using us ga(2) wx(4) used_free [OF w(1)] lh(2) fx(3) ga(5) by (simp_all add: same_frame_def cap_def)
    obtain rb' bs where g: "get (rb_head rx > rb_tail rx) len rx mem = (rb', bs)" by fastforce
    have "rb_head rx > rb_tail rx \<or> rb_head rx + len \<le> rb_end rx"
      using get_fits [OF wx(1) ux _ hx] by linarith
    note gb = get_ok [OF wx(1) ux(1) hx this g]
    have out: "bs = m" "rb_content rb' mem = concat (map (rb_encode RINGBUF_TYPE_DYN) ms)"
      using gb(3,4) wx(3) [of mem] c(2) by (simp_all add: len_def)
    have fr: "same_frame rb rb'" using fw(1) ga(5) fx(1) gb(5) by (simp add: same_frame_def)
    have ty: "rb_type rb' = RINGBUF_TYPE_DYN" using fr RINGBUF_TYPE_DYN by (simp add: same_frame_def)
    have "rb_rep rb' mem ms"
      using gb(1) out(2) r msg_fits_frame [OF fr] by (simp add: rb_rep_def ty)
    moreover have "ringbuf_pop rb mem = (RHINO_SUCCESS, rb', m)"
      using ringbuf_pop_dyn [OF RINGBUF_TYPE_DYN ne, of mem, folded rw_def, unfolded b, OF lh(2) hd]
        decompress_hdr [OF len] a g out(1) by (simp add: c(1) lb_def rx_def [symmetric])
    ultimately show thesis using fr that by blast
  next
    case RINGBUF_TYPE_FIX
    define n where "n = blk_size rb"
    have b: "0 < n" "n dvd cap rb" "n dvd rb_head rb - rb_buf rb" "n dvd rb_tail rb - rb_buf rb"
      using r RINGBUF_TYPE_FIX by (simp_all add: rb_rep_def n_def)
    have lm: "length m = n" using fm RINGBUF_TYPE_FIX by (simp add: msg_fits_def n_def)
    have us: "n \<le> used rw" using length_content [of rw mem] RINGBUF_TYPE_FIX unfolding cw by (simp add: rb_encode_def lm)
    have d: "n dvd rb_head rw - rb_buf rw" using b(3) by (simp add: rw_def wrap_head_def)
    have lt: "rb_head rw - rb_buf rw < cap rw" using w(1) hd by (auto simp: cap_def rb_ok_def)
    have "rb_head rw - rb_buf rw + n \<le> cap rw" by (rule dvd_step [OF d _ lt]) (simp add: fw b)
    then have fit: "rb_head rw + n \<le> rb_end rw" using rb_bounds [OF w(1)] by linarith
    note g = get_fragment [OF w(1) us fit]
    define rb' where "rb' = head_add n rw"
    have fr: "same_frame rb rb'" using fw(1) by (simp add: same_frame_def rb'_def head_add_def)
    have "rb_tail rb' = rb_tail rb" "rb_head rb' = rb_head rw + n" "cap rb' = cap rb"
      using fw by (simp_all add: rb'_def head_add_def cap_def)
    moreover have "rb_head rw + n - rb_buf rb = (rb_head rw - rb_buf rw) + n"
      using w(1) fw(1) by (simp add: rb_ok_def same_frame_def)
    ultimately have dv: "n dvd cap rb'" "n dvd rb_head rb' - rb_buf rb'" "n dvd rb_tail rb' - rb_buf rb'"
      using b d fr by (simp_all add: same_frame_def)
    have ty: "rb_type rb' = RINGBUF_TYPE_FIX" "blk_size rb' = n"
      using fr RINGBUF_TYPE_FIX by (simp_all add: same_frame_def n_def)
    have "rb_rep rb' mem ms"
      using g(1) g(3) [of mem] r msg_fits_frame [OF fr] dv b(1) RINGBUF_TYPE_FIX
      by (simp add: rb_rep_def ty rb'_def [symmetric] cw rb_encode_def lm)
    moreover have "ringbuf_pop rb mem = (RHINO_SUCCESS, rb', m)"
      using ne RINGBUF_TYPE_FIX fw(1) g(4) [of mem]
      by (simp add: ringbuf_pop_def Let_def wrap_head_def [symmetric] rw_def [symmetric] rb'_def head_add_def
          n_def [symmetric] same_frame_def cw rb_encode_def lm)
    ultimately show thesis using fr that by blast
  qed
qed

section \<open>The ring buffer implements the queue\<close>

definition rb_send :: "byte list \<Rightarrow> k_ringbuf_t \<times> memory \<Rightarrow> kstat_t \<times> k_ringbuf_t \<times> memory" where
  "rb_send m = (\<lambda>(rb, mem). ringbuf_push rb mem (nth m) (length m))"

definition rb_recv :: "k_ringbuf_t \<times> memory \<Rightarrow> kstat_t \<times> byte list option \<times> k_ringbuf_t \<times> memory" where
  "rb_recv = (\<lambda>(rb, mem). let (err, rb', bs) = ringbuf_pop rb mem
     in (err, if err = RHINO_SUCCESS then Some bs else None, rb', mem))"

definition rb_used :: "ringbuf_type \<Rightarrow> byte list list \<Rightarrow> nat" where
  "rb_used ty ms = length (concat (map (rb_encode ty) ms))"

definition fifo_fits :: "ringbuf_type \<Rightarrow> nat \<Rightarrow> byte list \<Rightarrow> bool" where
  "fifo_fits ty b m \<longleftrightarrow>
     (case ty of RINGBUF_TYPE_FIX \<Rightarrow> length m = b | RINGBUF_TYPE_DYN \<Rightarrow> length m \<le> 0x3fffff)"

definition fifo_room :: "nat \<Rightarrow> ringbuf_type \<Rightarrow> byte list list \<Rightarrow> byte list \<Rightarrow> bool" where
  "fifo_room c ty ms m \<longleftrightarrow>
     rb_used ty ms + length (rb_encode ty m) \<le> c \<and> (ty = RINGBUF_TYPE_DYN \<longrightarrow> rb_used ty ms + 2 \<le> c)"

definition rb_is :: "nat \<Rightarrow> nat \<Rightarrow> ringbuf_type \<Rightarrow> nat \<Rightarrow> k_ringbuf_t \<times> memory \<Rightarrow> byte list list \<Rightarrow> bool" where
  "rb_is base c ty b = (\<lambda>(rb, mem) ms. rb_rep rb mem ms \<and> rb_buf rb = base \<and> cap rb = c \<and> rb_type rb = ty \<and> blk_size rb = b)"

lemma rb_rep_used: "rb_rep rb mem ms \<Longrightarrow> used rb = rb_used (rb_type rb) ms"
  using length_content [of rb mem] by (simp add: rb_rep_def rb_used_def)

lemma rb_room_iff:
  assumes r: "rb_rep rb mem ms" and f: "fifo_fits (rb_type rb) (blk_size rb) m"
  shows "rb_room rb (length m) \<longleftrightarrow> fifo_room (cap rb) (rb_type rb) ms m"
proof -
  have u: "rb_used (rb_type rb) ms + freesize rb = cap rb"
    using used_free [of rb] r rb_rep_used [OF r] by (simp add: rb_rep_def)
  show ?thesis
    using u f length_hdr [of "length m"]
    by (cases "rb_type rb") (auto simp: rb_room_def fifo_room_def fifo_fits_def rb_encode_def)
qed

lemma push_step:
  assumes r: "rb_is base c ty b (rb, mem) ms" and f: "fifo_fits ty b (map data [0..<len])"
  shows "fst (ringbuf_push rb mem data len) =
      fst (spec_send (fifo_room c ty) RHINO_RINGBUF_FULL (map data [0..<len]) ms)"
    and "rb_is base c ty b (snd (ringbuf_push rb mem data len))
      (snd (spec_send (fifo_room c ty) RHINO_RINGBUF_FULL (map data [0..<len]) ms))"
proof -
  have k: "rb_rep rb mem ms" "cap rb = c" "rb_type rb = ty" "blk_size rb = b" "rb_buf rb = base" using r by (simp_all add: rb_is_def)
  have p: "msg_fits rb (map data [0..<len])" using f k by (cases ty) (simp_all add: msg_fits_def fifo_fits_def)
  have room: "rb_room rb len \<longleftrightarrow> fifo_room c ty ms (map data [0..<len])"
    using rb_room_iff [OF k(1), of "map data [0..<len]"] f k by simp
  have "fst (ringbuf_push rb mem data len) =
      fst (spec_send (fifo_room c ty) RHINO_RINGBUF_FULL (map data [0..<len]) ms) \<and>
    rb_is base c ty b (snd (ringbuf_push rb mem data len))
      (snd (spec_send (fifo_room c ty) RHINO_RINGBUF_FULL (map data [0..<len]) ms))"
    using push_rep [OF k(1) p] k room
    by (auto simp: spec_send_def rb_is_def same_frame_def cap_def split: if_splits)
  then show "fst (ringbuf_push rb mem data len) =
      fst (spec_send (fifo_room c ty) RHINO_RINGBUF_FULL (map data [0..<len]) ms)"
    and "rb_is base c ty b (snd (ringbuf_push rb mem data len))
      (snd (spec_send (fifo_room c ty) RHINO_RINGBUF_FULL (map data [0..<len]) ms))" by simp_all
qed

lemma rb_send_step:
  assumes r: "rb_is base c ty b x ms" and f: "fifo_fits ty b m"
  shows "fst (rb_send m x) = fst (spec_send (fifo_room c ty) RHINO_RINGBUF_FULL m ms) \<and>
    rb_is base c ty b (snd (rb_send m x)) (snd (spec_send (fifo_room c ty) RHINO_RINGBUF_FULL m ms))"
  using push_step [of base c ty b "fst x" "snd x" ms "nth m" "length m"] assms
  by (simp add: rb_send_def case_prod_beta map_nth)

lemma rb_recv_step:
  assumes r: "rb_is base c ty b x ms"
  shows "fst (rb_recv x) = fst (spec_recv RHINO_RINGBUF_EMPTY ms) \<and>
    fst (snd (rb_recv x)) = fst (snd (spec_recv RHINO_RINGBUF_EMPTY ms)) \<and>
    rb_is base c ty b (snd (snd (rb_recv x))) (snd (snd (spec_recv RHINO_RINGBUF_EMPTY ms)))"
proof -
  obtain rb mem where x: "x = (rb, mem)" by fastforce
  have k: "rb_rep rb mem ms" "cap rb = c" "rb_type rb = ty" "blk_size rb = b" "rb_buf rb = base" using r by (simp_all add: rb_is_def x)
  show ?thesis
  proof (cases ms)
    case Nil
    then show ?thesis
      using k rb_rep_empty [OF k(1)] by (simp add: x rb_recv_def ringbuf_pop_def spec_recv_def rb_is_def)
  next
    case (Cons m ms')
    obtain rb' where "ringbuf_pop rb mem = (RHINO_SUCCESS, rb', m)" "rb_rep rb' mem ms'" "same_frame rb rb'"
      using pop_rep [of rb mem m ms'] k(1) Cons by blast
    then show ?thesis
      using k Cons by (simp add: x rb_recv_def spec_recv_def rb_is_def same_frame_def cap_def)
  qed
qed

interpretation rbq: bounded_fifo "rb_is base c ty b" rb_send rb_recv "fifo_fits ty b" "fifo_room c ty"
    RHINO_RINGBUF_FULL RHINO_RINGBUF_EMPTY for base c ty b
  by unfold_locales (erule (1) rb_send_step, erule rb_recv_step, simp)

text \<open>Memory outside the buffer does not matter.\<close>

lemma rb_rep_mem:
  assumes "rb_rep rb mem ms" and "\<And>a. rb_buf rb \<le> a \<Longrightarrow> a < rb_end rb \<Longrightarrow> mem' a = mem a"
  shows "rb_rep rb mem' ms"
proof -
  have "rb_content rb mem' = rb_content rb mem"
    using at_off_less [of rb] assms by (simp add: rb_content_def rb_rep_def)
  then show ?thesis using assms(1) by (simp add: rb_rep_def)
qed

section \<open>Property\<close>

text \<open>
  The length header of a message reads back. For every length of at most 22 bits the
  header has the number of bytes its first byte announces, and decoding it gives the length.
\<close>

lemma headlen_round_trip:
  assumes "ringbuf_headlen_compress len = (n, c_len)" and "len \<le> 0x3fffff"
  shows "length c_len = n \<and> hdr_bytes (hd c_len) = n \<and> ringbuf_headlen_decompress n c_len = len"
proof -
  have "n = COMPRESS_LEN len" "c_len = hdr len"
    using assms(1) by (auto simp: hdr_def ringbuf_headlen_compress_def Let_def)
  then show ?thesis using assms(2) length_hdr hdr_first decompress_hdr by simp
qed

end
