(* ===== verification/Queue_Fifo.thy ===== *)
theory Queue_Fifo
  imports Queue Buf_queue Ringbuf_Fifo
begin

text \<open>
  The kernel's two message queues, used without waiting tasks, are bounded first-in first-out
  queues: the message queue of pointers and the buffer queue of byte messages. Both rest on
  the ring buffer, and both get the general lemmas of \<open>Msg_Fifo\<close> by interpretation.
\<close>

section \<open>Pointers in memory\<close>

definition ptr_bytes :: "ptr \<Rightarrow> byte list" where
  "ptr_bytes p = map (ptr_byte p) [0..<4]"

definition load_ptr :: "memory \<Rightarrow> nat \<Rightarrow> ptr" where
  "load_ptr m a = ucast (m a) OR push_bit 8 (ucast (m (a + 1))) OR push_bit 16 (ucast (m (a + 2))) OR
     push_bit 24 (ucast (m (a + 3)))"

lemma load_ptr_bytes:
  assumes "\<And>i. i < 4 \<Longrightarrow> m (a + i) = ptr_byte p i"
  shows "load_ptr m a = p"
proof (rule bit_word_eqI)
  fix n assume n: "n < LENGTH(32)"
  have m: "m a = ptr_byte p 0" "m (a + 1) = ptr_byte p 1" "m (a + 2) = ptr_byte p 2" "m (a + 3) = ptr_byte p 3"
    using assms [of 0] assms [of 1] assms [of 2] assms [of 3] by simp_all
  consider "n < 8" | "8 \<le> n" "n < 16" | "16 \<le> n" "n < 24" | "24 \<le> n" by linarith
  then show "bit (load_ptr m a) n = bit p n"
    unfolding load_ptr_def m using n by cases (auto simp: ptr_byte_def bit_simps)
qed

section \<open>The message queue\<close>

lemma upd_queue_mem [simp]:
  "mem (upd_queue q f s) = mem s" "mem (upd_buf_queue q g s) = mem s" "outs (upd_buf_queue q g s) = outs s"
  "mem (set_out p v s) = mem s" "buf_queues (set_out p v s) = buf_queues s" "blks (set_out p v s) = blks s"
  "outs (set_out p v s) = (outs s)(p := v)"
  by (simp_all add: upd_queue_def upd_buf_queue_def set_out_def)

definition queue_is :: "ptr \<Rightarrow> ptr \<Rightarrow> nat \<Rightarrow> nat \<Rightarrow> kernel \<Rightarrow> ptr list \<Rightarrow> bool" where
  "queue_is q a base n s ps \<longleftrightarrow>
     q \<noteq> NULL \<and> a \<noteq> NULL \<and> (unat a + 4 \<le> base \<or> base + n * 4 \<le> unat a) \<and>
     obj_type (blks s q) = RHINO_QUEUE_OBJ_TYPE \<and> blk_list (blks s q) = [] \<and>
     rb_is base (n * 4) RINGBUF_TYPE_FIX 4 (q_ringbuf (queues s q), mem s) (map ptr_bytes ps) \<and>
     cur_num (msg_q (queues s q)) = length ps \<and> msg_size (msg_q (queues s q)) = n"

definition queue_recv :: "ptr \<Rightarrow> ptr \<Rightarrow> kernel \<Rightarrow> kstat_t \<times> ptr option \<times> kernel" where
  "queue_recv q a s =
     (case krhino_queue_recv q RHINO_NO_WAIT a s of
        (Returned e, s) \<Rightarrow> (e, if e = RHINO_SUCCESS then Some (load_ptr (mem s) (unat a)) else None, s)
      | (Blocked, s) \<Rightarrow> (RHINO_BLK_INV_STATE, None, s))"

lemma length_ptr_bytes [simp]: "length (ptr_bytes p) = 4"
  by (simp add: ptr_bytes_def)

lemma rb_used_ptrs: "rb_used RINGBUF_TYPE_FIX (map ptr_bytes ps) = length ps * 4"
  by (induction ps) (simp_all add: rb_used_def rb_encode_def)

lemma queue_send_step:
  assumes r: "queue_is q a base n s ps"
  shows "fst (krhino_queue_back_send q p s) = fst (spec_send (\<lambda>ps _. length ps < n) RHINO_QUEUE_FULL p ps) \<and>
    queue_is q a base n (snd (krhino_queue_back_send q p s)) (snd (spec_send (\<lambda>ps _. length ps < n) RHINO_QUEUE_FULL p ps))"
proof (cases "length ps < n")
  case False
  then show ?thesis
    using r by (simp add: queue_is_def krhino_queue_back_send_def msg_send_def Let_def spec_send_def)
next
  case True
  have k: "rb_is base (n * 4) RINGBUF_TYPE_FIX 4 (q_ringbuf (queues s q), mem s) (map ptr_bytes ps)"
    using r by (simp add: queue_is_def)
  have room: "fifo_room (n * 4) RINGBUF_TYPE_FIX (map ptr_bytes ps) (map (ptr_byte p) [0..<4])"
    using True by (simp add: fifo_room_def rb_used_ptrs rb_encode_def)
  note ps = push_step [OF k, of "ptr_byte p" 4]
  have "rb_is base (n * 4) RINGBUF_TYPE_FIX 4 (snd (ringbuf_push (q_ringbuf (queues s q)) (mem s) (ptr_byte p) 4))
      (map ptr_bytes (ps @ [p]))"
    using ps(2) room by (simp add: fifo_fits_def spec_send_def ptr_bytes_def)
  then show ?thesis
    using True r
    by (simp add: queue_is_def krhino_queue_back_send_def msg_send_def Let_def spec_send_def case_prod_beta)
qed

lemma queue_recv_step:
  assumes r: "queue_is q a base n s ps"
  shows "fst (queue_recv q a s) = fst (spec_recv RHINO_NO_PEND_WAIT ps) \<and>
    fst (snd (queue_recv q a s)) = fst (snd (spec_recv RHINO_NO_PEND_WAIT ps)) \<and>
    queue_is q a base n (snd (snd (queue_recv q a s))) (snd (snd (spec_recv RHINO_NO_PEND_WAIT ps)))"
proof -
  have k: "rb_rep (q_ringbuf (queues s q)) (mem s) (map ptr_bytes ps)" "rb_buf (q_ringbuf (queues s q)) = base"
    "cap (q_ringbuf (queues s q)) = n * 4" "rb_type (q_ringbuf (queues s q)) = RINGBUF_TYPE_FIX"
    "blk_size (q_ringbuf (queues s q)) = 4"
    using r by (simp_all add: queue_is_def rb_is_def)
  have q: "q \<noteq> NULL" "a \<noteq> NULL" and d: "unat a + 4 \<le> base \<or> base + n * 4 \<le> unat a"
    using r by (simp_all add: queue_is_def)
  have e: "rb_end (q_ringbuf (queues s q)) = base + n * 4"
    using rb_bounds [of "q_ringbuf (queues s q)"] k by (simp add: rb_rep_def)
  show ?thesis
  proof (cases ps)
    case Nil
    have "rb_rep (q_ringbuf (queues s q)) (store_ptr (mem s) (unat a) NULL) (map ptr_bytes ps)"
      using d by (intro rb_rep_mem [OF k(1)]) (auto simp: store_ptr_def memcpy_def k(2) e)
    then show ?thesis
      using Nil r q k by (simp add: queue_recv_def krhino_queue_recv_def Let_def spec_recv_def queue_is_def rb_is_def)
  next
    case (Cons p ps')
    obtain rb' where p: "ringbuf_pop (q_ringbuf (queues s q)) (mem s) = (RHINO_SUCCESS, rb', ptr_bytes p)"
      "rb_rep rb' (mem s) (map ptr_bytes ps')" "same_frame (q_ringbuf (queues s q)) rb'"
      using pop_rep [of "q_ringbuf (queues s q)" "mem s" "ptr_bytes p" "map ptr_bytes ps'"] k(1) Cons by auto
    let ?m = "memcpy (mem s) (unat a) (nth (ptr_bytes p)) 4"
    have "rb_rep rb' ?m (map ptr_bytes ps')"
      using d p(3) by (intro rb_rep_mem [OF p(2)]) (auto simp: memcpy_def k(2) e same_frame_def)
    moreover have "load_ptr ?m (unat a) = p"
      by (rule load_ptr_bytes) (simp add: memcpy_def ptr_bytes_def)
    ultimately show ?thesis
      using Cons r q k p
      by (simp add: queue_recv_def krhino_queue_recv_def Let_def spec_recv_def queue_is_def rb_is_def same_frame_def cap_def)
  qed
qed

section \<open>The buffer queue\<close>

definition buf_queue_is ::
  "ptr \<Rightarrow> ptr \<Rightarrow> ptr \<Rightarrow> ptr \<Rightarrow> nat \<Rightarrow> nat \<Rightarrow> ringbuf_type \<Rightarrow> nat \<Rightarrow> kernel \<Rightarrow> byte list list \<Rightarrow> bool" where
  "buf_queue_is q src dst sz base c ty mx s ms \<longleftrightarrow>
     q \<noteq> NULL \<and> src \<noteq> NULL \<and> dst \<noteq> NULL \<and> sz \<noteq> NULL \<and>
     (unat src + mx \<le> base \<or> base + c \<le> unat src) \<and> (unat dst + mx \<le> base \<or> base + c \<le> unat dst) \<and>
     obj_type (blks s q) = RHINO_BUF_QUEUE_OBJ_TYPE \<and> blk_list (blks s q) = [] \<and>
     max_msg_size (buf_queues s q) = mx \<and> list_all (\<lambda>m. length m \<le> mx) ms \<and>
     rb_is base c ty mx (bq_ringbuf (buf_queues s q), mem s) ms"

text \<open>The caller writes the message to its own buffer before it sends it.\<close>

definition bq_send :: "ptr \<Rightarrow> ptr \<Rightarrow> byte list \<Rightarrow> kernel \<Rightarrow> kstat_t \<times> kernel" where
  "bq_send q src m s =
     krhino_buf_queue_send q src (length m) (s\<lparr>mem := memcpy (mem s) (unat src) (nth m) (length m)\<rparr>)"

definition bq_recv :: "ptr \<Rightarrow> ptr \<Rightarrow> ptr \<Rightarrow> kernel \<Rightarrow> kstat_t \<times> byte list option \<times> kernel" where
  "bq_recv q dst sz s =
     (case krhino_buf_queue_recv q RHINO_NO_WAIT dst sz s of
        (Returned e, s) \<Rightarrow>
          (e, if e = RHINO_SUCCESS then Some (bytes_at (mem s) (unat dst) (outs s sz)) else None, s)
      | (Blocked, s) \<Rightarrow> (RHINO_BLK_INV_STATE, None, s))"

definition bq_fits :: "ringbuf_type \<Rightarrow> nat \<Rightarrow> byte list \<Rightarrow> bool" where
  "bq_fits ty mx m \<longleftrightarrow> m \<noteq> [] \<and> length m \<le> mx \<and> fifo_fits ty mx m"

lemma map_memcpy: "map (\<lambda>i. memcpy x a (nth m) (length m) (a + i)) [0..<length m] = m"
  by (rule nth_equalityI) (simp_all add: memcpy_def)

lemma bytes_memcpy: "bytes_at (memcpy x a (nth m) (length m)) a (length m) = m"
  by (rule nth_equalityI) (simp_all add: memcpy_def bytes_at_def)

lemma bq_send_step:
  assumes r: "buf_queue_is q src dst sz base c ty mx s ms" and f: "bq_fits ty mx m"
  shows "fst (bq_send q src m s) = fst (spec_send (fifo_room c ty) RHINO_BUF_QUEUE_FULL m ms) \<and>
    buf_queue_is q src dst sz base c ty mx (snd (bq_send q src m s)) (snd (spec_send (fifo_room c ty) RHINO_BUF_QUEUE_FULL m ms))"
proof -
  define rb where "rb = bq_ringbuf (buf_queues s q)"
  have q: "q \<noteq> NULL" "src \<noteq> NULL" and d: "unat src + mx \<le> base \<or> base + c \<le> unat src"
    using r by (simp_all add: buf_queue_is_def)
  define ma where "ma = memcpy (mem s) (unat src) (nth m) (length m)"
  have k: "rb_rep rb (mem s) ms" "rb_buf rb = base" "cap rb = c" "rb_type rb = ty" "blk_size rb = mx"
    using r by (simp_all add: buf_queue_is_def rb_is_def rb_def)
  have e: "rb_end rb = base + c" using rb_bounds [of rb] k by (simp add: rb_rep_def)
  have "rb_rep rb ma ms"
    using d f by (intro rb_rep_mem [OF k(1)]) (auto simp: memcpy_def k(2) e ma_def bq_fits_def)
  then have ri: "rb_is base c ty mx (rb, ma) ms" using k by (simp add: rb_is_def)
  define data where "data = (\<lambda>i. ma (unat src + i))"
  have dm: "map data [0..<length m] = m" unfolding data_def ma_def by (rule map_memcpy)
  have ff: "fifo_fits ty mx (map data [0..<length m])" using f by (simp add: dm bq_fits_def)
  note p = push_step [OF ri ff, unfolded dm]
  have l: "\<not> length m > mx" "length m \<noteq> 0" using f by (auto simp: bq_fits_def)
  obtain err rb' m' where pu: "ringbuf_push rb ma data (length m) = (err, rb', m')" using prod_cases3 by blast
  have bs: "obj_type (blks s q) = RHINO_BUF_QUEUE_OBJ_TYPE" "blk_list (blks s q) = []" "max_msg_size (buf_queues s q) = mx"
    "list_all (\<lambda>m. length m \<le> mx) ms" using r by (simp_all add: buf_queue_is_def)
  show ?thesis
    using p l q bs r
    by (cases "fifo_room c ty ms m") (simp_all add: bq_send_def krhino_buf_queue_send_def buf_queue_send_def Let_def ma_def [symmetric]
        rb_def [symmetric] data_def [symmetric] pu buf_queue_is_def spec_send_def)
qed

lemma bq_recv_step:
  assumes r: "buf_queue_is q src dst sz base c ty mx s ms"
  shows "fst (bq_recv q dst sz s) = fst (spec_recv RHINO_NO_PEND_WAIT ms) \<and>
    fst (snd (bq_recv q dst sz s)) = fst (snd (spec_recv RHINO_NO_PEND_WAIT ms)) \<and>
    buf_queue_is q src dst sz base c ty mx (snd (snd (bq_recv q dst sz s))) (snd (snd (spec_recv RHINO_NO_PEND_WAIT ms)))"
proof -
  define rb where "rb = bq_ringbuf (buf_queues s q)"
  have q: "q \<noteq> NULL" "dst \<noteq> NULL" "sz \<noteq> NULL" and d: "unat dst + mx \<le> base \<or> base + c \<le> unat dst"
    using r by (simp_all add: buf_queue_is_def)
  have k: "rb_rep rb (mem s) ms" "rb_buf rb = base" "cap rb = c" "rb_type rb = ty" "blk_size rb = mx"
    using r by (simp_all add: buf_queue_is_def rb_is_def rb_def)
  have e: "rb_end rb = base + c" using rb_bounds [of rb] k by (simp add: rb_rep_def)
  show ?thesis
  proof (cases ms)
    case Nil
    then show ?thesis
      using r q k rb_rep_empty [OF k(1)]
      by (simp add: bq_recv_def krhino_buf_queue_recv_def Let_def spec_recv_def buf_queue_is_def rb_is_def rb_def)
  next
    case (Cons m ms')
    obtain rb' where p: "ringbuf_pop rb (mem s) = (RHINO_SUCCESS, rb', m)" "rb_rep rb' (mem s) ms'" "same_frame rb rb'"
      using pop_rep [of rb "mem s" m ms'] k(1) Cons by auto
    have lm: "length m \<le> mx" using r Cons by (simp add: buf_queue_is_def)
    have "rb_rep rb' (memcpy (mem s) (unat dst) (nth m) (length m)) ms'"
      using d p(3) lm by (intro rb_rep_mem [OF p(2)]) (auto simp: memcpy_def k(2) e same_frame_def)
    then show ?thesis
      using Cons r q k p rb_rep_empty [OF k(1)]
      by (simp add: bq_recv_def krhino_buf_queue_recv_def Let_def spec_recv_def buf_queue_is_def rb_is_def rb_def [symmetric]
          same_frame_def cap_def bytes_memcpy)
  qed
qed

section \<open>Both implement the queue\<close>

interpretation kq: bounded_fifo "queue_is q a base n" "krhino_queue_back_send q" "queue_recv q a" "\<lambda>_. True"
    "\<lambda>ps _. length ps < n" RHINO_QUEUE_FULL RHINO_NO_PEND_WAIT for q a base n
  by unfold_locales (erule queue_send_step, erule queue_recv_step, simp)

interpretation bq: bounded_fifo "buf_queue_is q src dst sz base c ty mx" "bq_send q src" "bq_recv q dst sz" "bq_fits ty mx"
    "fifo_room c ty" RHINO_BUF_QUEUE_FULL RHINO_NO_PEND_WAIT for q src dst sz base c ty mx
  by unfold_locales (erule (1) bq_send_step, erule bq_recv_step, simp)

end
