(* ===== verification/Scenario.thy ===== *)
theory Scenario
  imports Runs Queue_Fifo
begin

text \<open>
  A small application on the kernel, from power-on: two tasks, a semaphore, a mutex, an event
  group and a message queue. Its states show that the hypotheses of the theorems can hold.
\<close>

definition zero_rb :: k_ringbuf_t where
  "zero_rb = \<lparr>rb_buf = 0, rb_end = 0, rb_head = 0, rb_tail = 0, freesize = 0, rb_type = RINGBUF_TYPE_FIX, blk_size = 0\<rparr>"

definition power_on :: kernel where
  "power_on = \<lparr>g_sys_stat = RHINO_SUCCESS, g_idle_task_spawned = False,
     g_ready_queue = \<lparr>cur_list_item = (\<lambda>_. []), task_bit_map = [0, 0], highest_pri = 0\<rparr>,
     g_sched_lock = 0, g_intrpt_nested_level = 0, g_preferred_ready_task = NULL, g_active_task = NULL,
     g_idle_task = 256, g_tick_count = 0, g_tick_head = [],
     g_kobj_list = \<lparr>task_head = [], mutex_head = [], sem_head = [], queue_head = [], event_head = [], buf_queue_head = []\<rparr>,
     tasks = (\<lambda>_. zero_task),
     blks = (\<lambda>_. \<lparr>blk_list = [], obj_name = NULL, blk_policy = BLK_POLICY_PRI, obj_type = RHINO_OBJ_TYPE_NONE\<rparr>),
     sems = (\<lambda>_. \<lparr>sem_count = 0, peak_count = 0, sem_alloc_flag = K_OBJ_NO_ALLOC\<rparr>),
     mutexes = (\<lambda>_. \<lparr>mutex_task = NULL, owner_nested = 0, mutex_alloc_flag = K_OBJ_NO_ALLOC\<rparr>),
     events = (\<lambda>_. \<lparr>event_flags = 0, event_alloc_flag = K_OBJ_NO_ALLOC\<rparr>),
     queues = (\<lambda>_. \<lparr>q_ringbuf = zero_rb, msg_q = \<lparr>queue_start = NULL, msg_size = 0, cur_num = 0, peak_num = 0\<rparr>,
       queue_alloc_flag = K_OBJ_NO_ALLOC\<rparr>),
     buf_queues = (\<lambda>_. \<lparr>bq_buf = NULL, bq_ringbuf = zero_rb, max_msg_size = 0, bq_cur_num = 0, bq_peak_num = 0,
       min_free_buf_size = 0, bq_alloc_flag = K_OBJ_NO_ALLOC\<rparr>),
     mem = (\<lambda>_. 0), outs = (\<lambda>_. 0), irq_off = False, cpu_switch = False, k_errs = [], ub = False,
     port = \<lparr>sem_count_max = 4294967295, suspend_nested_max = 255, mutex_nested_max = 255,
       cpu_task_stack_init = (\<lambda>base sz arg entry. base)\<rparr>\<rparr>"

lemma boot_power_on: "boot power_on"
  by (simp add: boot_def power_on_def)

definition tcb :: "ptr \<Rightarrow> ptr \<Rightarrow> nat \<Rightarrow> ktask_t" where
  "tcb name stack p = zero_task\<lparr>time_total := RHINO_CONFIG_TIME_SLICE_DEFAULT, time_slice_cnt := RHINO_CONFIG_TIME_SLICE_DEFAULT,
     sched_policy := KSCHED_RR, task_state := K_RDY, suspend_count := 0, task_stack_base := stack, task_name := name,
     prio := p, b_prio := p, stack_size := 100, mm_alloc_flag := K_OBJ_STATIC_ALLOC, cpu_num := 0, task_stack := stack\<rparr>"

definition obj :: "kobj_type_t \<Rightarrow> blk_obj_t" where
  "obj ty = \<lparr>blk_list = [], obj_name = 10, blk_policy = BLK_POLICY_PRI, obj_type = ty\<rparr>"

text \<open>
  A task of priority 20 at address 768 starts, takes a mutex and creates a task of priority 10 at
  address 512, which then runs.
\<close>

definition app0 :: kernel where "app0 = snd (krhino_init 1 2 3 power_on)"
definition app1 :: kernel where "app1 = snd (syscall (Task_api (Task_create 768 10 NULL 20 0 20 100 30 True)) app0)"
definition app2 :: kernel where "app2 = snd (syscall (Sem_api (Sem_create 1024 10 0)) app1)"
definition app3 :: kernel where "app3 = snd (syscall (Sync_api (Mutex_create 1280 10)) app2)"
definition app4 :: kernel where "app4 = snd (syscall (Sync_api (Event_create 1536 10 0)) app3)"
definition run0 :: kernel where "run0 = snd (krhino_start app4)"
definition run1 :: kernel where "run1 = snd (syscall (Sync_api (Mutex_lock 1280 RHINO_WAIT_FOREVER)) run0)"
definition run2 :: kernel where "run2 = snd (syscall (Task_api (Task_create 512 10 NULL 10 0 20 100 30 True)) run1)"

lemmas setup_defs = krhino_init_def krhino_task_create_def task_create_def tick_list_init_def kobj_list_init_def
  krhino_sem_create_def sem_create_def krhino_mutex_create_def mutex_create_def krhino_event_create_def event_create_def
  krhino_start_def

lemmas op_defs = ready_list_add_tail_def ready_list_add_head_def ready_list_add_def ready_list_init_def runqueue_init_def
  is_ready_list_empty_def upd_rq_def upd_kobj_def upd_task_def upd_blk_def upd_sem_def upd_mutex_def upd_event_def
  RHINO_CRITICAL_ENTER_def RHINO_CRITICAL_EXIT_def Let_def returned_def
  preferred_cpu_ready_task_get_def krhino_bitmap_set_def BITMAP_MASK_def BITMAP_WORD_def
  core_sched_def RHINO_CRITICAL_EXIT_SCHED_def cpu_task_switch_def cpu_context_switch_def

definition demo_tasks :: "ptr \<Rightarrow> ktask_t" where
  "demo_tasks = (\<lambda>_. zero_task)(256 := tcb 1 2 RHINO_IDLE_PRI, 768 := (tcb 10 20 20)\<lparr>mutex_list := [1280]\<rparr>, 512 := tcb 10 20 10)"

definition demo :: kernel where
  "demo = power_on\<lparr>g_sys_stat := RHINO_RUNNING, g_idle_task_spawned := True,
     g_ready_queue := \<lparr>cur_list_item = (\<lambda>_. [])(RHINO_IDLE_PRI := [256], 20 := [768], 10 := [512]),
       task_bit_map = [2099200, 4], highest_pri = 10\<rparr>,
     g_preferred_ready_task := 512, g_active_task := 512,
     g_kobj_list := \<lparr>task_head = [256, 768, 512], mutex_head = [1280], sem_head = [1024], queue_head = [],
       event_head = [1536], buf_queue_head = []\<rparr>,
     tasks := demo_tasks,
     blks := (blks power_on)(1024 := obj RHINO_SEM_OBJ_TYPE, 1280 := obj RHINO_MUTEX_OBJ_TYPE, 1536 := obj RHINO_EVENT_OBJ_TYPE),
     sems := (sems power_on)(1024 := \<lparr>sem_count = 0, peak_count = 0, sem_alloc_flag = K_OBJ_STATIC_ALLOC\<rparr>),
     mutexes := (mutexes power_on)(1280 := \<lparr>mutex_task = 768, owner_nested = 1, mutex_alloc_flag = K_OBJ_STATIC_ALLOC\<rparr>),
     events := (events power_on)(1536 := \<lparr>event_flags = 0, event_alloc_flag = K_OBJ_STATIC_ALLOC\<rparr>)\<rparr>"

lemmas app_defs = app0_def app1_def app2_def app3_def app4_def run0_def run1_def run2_def power_on_def

lemma app_facts:
  "\<not> live (st app0 768)" "unused 1024 app1" "unused 1280 app2" "unused 1536 app3"
  by (simp_all add: app_defs setup_defs op_defs unused_def is_mutex_def zero_task_def)

lemma run_facts:
  "callable run0" "may_block run0" "callable run1" "\<not> live (st run1 512)" "g_intrpt_nested_level run2 = 0" "cpu_switch run2"
  by (simp_all add: app_defs setup_defs op_defs callable_def may_block_def zero_task_def krhino_mutex_lock_def)

lemma run2_demo: "cpu_context_switch run2 = demo"
  by (simp add: app_defs demo_def demo_tasks_def tcb_def obj_def krhino_mutex_lock_def setup_defs op_defs
      BITMAP_UNIT_SIZE_def fun_eq_iff)

lemma run_demo: "run demo"
proof -
  have "booted app0" unfolding app0_def by (rule booted.init [OF boot_power_on]) simp_all
  then have "booted app1" unfolding app1_def by (rule booted.create) (simp_all add: creates_def app_facts)
  then have "booted app2" unfolding app2_def by (rule booted.create) (simp_all add: creates_def app_facts)
  then have "booted app3" unfolding app3_def by (rule booted.create) (simp_all add: creates_def app_facts)
  then have "booted app4" unfolding app4_def by (rule booted.create) (simp_all add: creates_def app_facts)
  then have "run run0" unfolding run0_def by (rule run.start)
  then have "run run1" unfolding run1_def by (rule run.step [OF _ kstep.call]) (simp_all add: run_facts)
  then have "run run2" unfolding run2_def by (rule run.step [OF _ kstep.call]) (simp_all add: run_facts)
  then have "run (cpu_context_switch run2)" by (rule run.step [OF _ kstep.switch]) (simp_all add: run_facts)
  then show ?thesis by (simp add: run2_demo)
qed

text \<open>From there the task waits for the semaphore, for an event, for the mutex or for time to pass.\<close>

definition on_sem :: kernel where
  "on_sem = cpu_context_switch (snd (syscall (Sem_api (Sem_take 1024 RHINO_WAIT_FOREVER)) demo))"

definition on_event :: kernel where
  "on_event = cpu_context_switch (snd (syscall (Sync_api (Event_get 1536 3 RHINO_OR 64 RHINO_WAIT_FOREVER)) demo))"

definition on_mutex :: kernel where
  "on_mutex = cpu_context_switch (snd (syscall (Sync_api (Mutex_lock 1280 RHINO_WAIT_FOREVER)) demo))"

definition on_sem_timed :: kernel where
  "on_sem_timed = cpu_context_switch (snd (syscall (Sem_api (Sem_take 1024 1)) demo))"

definition asleep :: kernel where
  "asleep = cpu_context_switch (snd (syscall (Task_api (Task_sleep 2)) demo))"

lemmas wait_defs = krhino_sem_take_def krhino_event_get_def krhino_mutex_lock_def krhino_task_sleep_def
  pend_to_blk_obj_def pend_list_add_def ready_list_rm_def tick_list_insert_def tick_list_pri_insert_def

lemma demo_bits:
  "krhino_bitmap_clear [2099200, 4] 10 = [2048, 4]" "krhino_find_first_bit [2048, 4] = Some 20"
  by code_simp+

lemmas demo_defs = demo_def demo_tasks_def tcb_def obj_def power_on_def wait_defs op_defs demo_bits

definition low_ready :: runqueue_t where
  "low_ready = \<lparr>cur_list_item = (\<lambda>_. [])(RHINO_IDLE_PRI := [256], 20 := [768], 10 := []), task_bit_map = [2048, 4],
     highest_pri = 20\<rparr>"

definition low_runs :: kernel where
  "low_runs = demo\<lparr>g_ready_queue := low_ready, g_preferred_ready_task := 768, g_active_task := 768\<rparr>"

lemma on_sem_eq:
  "on_sem = low_runs\<lparr>tasks := demo_tasks(512 := (tcb 10 20 10)\<lparr>blk_obj := 1024, task_state := K_PEND\<rparr>),
     blks := (blks demo)(1024 := (obj RHINO_SEM_OBJ_TYPE)\<lparr>blk_list := [512]\<rparr>)\<rparr>"
  by (simp add: on_sem_def low_runs_def low_ready_def demo_defs)

lemma on_event_eq:
  "on_event = low_runs\<lparr>tasks := demo_tasks(512 := (tcb 10 20 10)\<lparr>pend_option := RHINO_OR, pend_flags := 3, pend_info := 64,
       blk_obj := 1536, task_state := K_PEND\<rparr>),
     blks := (blks demo)(1536 := (obj RHINO_EVENT_OBJ_TYPE)\<lparr>blk_list := [512]\<rparr>)\<rparr>"
  by (simp add: on_event_def low_runs_def low_ready_def demo_defs event_match_def)

lemma asleep_eq:
  "asleep = low_runs\<lparr>g_tick_head := [512],
     tasks := demo_tasks(512 := (tcb 10 20 10)\<lparr>task_state := K_SLEEP, tick_match := 2, tick_remain := 2, tick_head := True\<rparr>)\<rparr>"
  by (simp add: asleep_def low_runs_def low_ready_def demo_defs)

lemma on_sem_timed_eq:
  "on_sem_timed = low_runs\<lparr>g_tick_head := [512],
     tasks := demo_tasks(512 := (tcb 10 20 10)\<lparr>blk_obj := 1024, tick_match := 1, tick_remain := 1, tick_head := True,
       task_state := K_PEND\<rparr>),
     blks := (blks demo)(1024 := (obj RHINO_SEM_OBJ_TYPE)\<lparr>blk_list := [512]\<rparr>)\<rparr>"
  by (simp add: on_sem_timed_def low_runs_def low_ready_def demo_defs)

text \<open>The owner of the mutex runs on at the priority of the task that waits for it.\<close>

lemma boost_bits:
  "krhino_bitmap_clear [2099200, 4] 20 = [2097152, 4]" "krhino_find_first_bit [2097152, 4] = Some 10"
  by code_simp+

lemma on_mutex_eq:
  "on_mutex = demo\<lparr>g_ready_queue := \<lparr>cur_list_item = (\<lambda>_. [])(RHINO_IDLE_PRI := [256], 20 := [], 10 := [768]),
       task_bit_map = [2097152, 4], highest_pri = 10\<rparr>,
     g_preferred_ready_task := 768, g_active_task := 768,
     tasks := (\<lambda>_. zero_task)(256 := tcb 1 2 RHINO_IDLE_PRI, 768 := (tcb 10 20 20)\<lparr>mutex_list := [1280], prio := 10\<rparr>,
       512 := (tcb 10 20 10)\<lparr>blk_obj := 1280, task_state := K_PEND\<rparr>),
     blks := (blks demo)(1280 := (obj RHINO_MUTEX_OBJ_TYPE)\<lparr>blk_list := [512]\<rparr>)\<rparr>"
  by (simp add: on_mutex_def demo_defs boost_bits task_pri_change.simps task_pri_change_round_def set_prio_def)

lemma waiting_facts:
  "g_intrpt_nested_level demo = 0" "callable demo" "may_block demo"
  "cpu_switch (snd (krhino_sem_take 1024 RHINO_WAIT_FOREVER demo))"
  "g_intrpt_nested_level (snd (krhino_sem_take 1024 RHINO_WAIT_FOREVER demo)) = 0"
  "cpu_switch (snd (krhino_sem_take 1024 1 demo))" "g_intrpt_nested_level (snd (krhino_sem_take 1024 1 demo)) = 0"
  "cpu_switch (snd (krhino_event_get 1536 3 RHINO_OR 64 RHINO_WAIT_FOREVER demo))"
  "g_intrpt_nested_level (snd (krhino_event_get 1536 3 RHINO_OR 64 RHINO_WAIT_FOREVER demo)) = 0"
  "cpu_switch (snd (krhino_task_sleep 2 demo))" "g_intrpt_nested_level (snd (krhino_task_sleep 2 demo)) = 0"
  by (simp_all add: demo_defs callable_def may_block_def event_match_def)

lemma mutex_facts:
  "cpu_switch (snd (krhino_mutex_lock 1280 RHINO_WAIT_FOREVER demo))"
  "g_intrpt_nested_level (snd (krhino_mutex_lock 1280 RHINO_WAIT_FOREVER demo)) = 0"
  by (simp_all add: demo_defs boost_bits task_pri_change.simps task_pri_change_round_def set_prio_def)

lemma run_call_switch:
  assumes "run s" and "callable s" and "permitted c s"
    and "g_intrpt_nested_level (snd (syscall c s)) = 0" and "cpu_switch (snd (syscall c s))"
  shows "run (cpu_context_switch (snd (syscall c s)))"
  by (rule run.step [OF run.step [OF assms(1) kstep.call [OF assms(2,3)]] kstep.switch [OF assms(4,5)]])

lemma run_waiting: "run on_sem" "run on_event" "run on_mutex" "run asleep" "run on_sem_timed"
  unfolding on_sem_def on_event_def on_mutex_def asleep_def on_sem_timed_def
  by (rule run_call_switch [OF run_demo]; simp add: waiting_facts mutex_facts)+

end
