(* ===== verification/Behaviour.thy ===== *)
theory Behaviour
  imports Scenario
begin

text \<open>
  What the calls do in a running system: who is woken, who gets a mutex, what a counter holds
  afterwards, and what a call leaves alone when it returns an error.
\<close>

lemma run_calls:
  assumes "run s" and "callable s"
  shows "presched (RHINO_CRITICAL_ENTER s)" and "core_ok s" and "blk_ok s"
  using sysinv_presched [OF run_sysinv(1) [OF assms(1)] assms(2)]
    kinvD(1) [OF sysinvD(1) [OF run_sysinv(1) [OF assms(1)]]] core_okD(3)
  by simp_all

lemma exit_sched_fields [simp]:
  "tasks (RHINO_CRITICAL_EXIT_SCHED c s) = tasks s" "blks (RHINO_CRITICAL_EXIT_SCHED c s) = blks s"
  "sems (RHINO_CRITICAL_EXIT_SCHED c s) = sems s" "mutexes (RHINO_CRITICAL_EXIT_SCHED c s) = mutexes s"
  "events (RHINO_CRITICAL_EXIT_SCHED c s) = events s" "outs (RHINO_CRITICAL_EXIT_SCHED c s) = outs s"
  "g_tick_count (RHINO_CRITICAL_EXIT_SCHED c s) = g_tick_count s"
  by (simp_all add: RHINO_CRITICAL_EXIT_SCHED_def core_sched_def preferred_cpu_ready_task_get_def cpu_task_switch_def Let_def)

section \<open>Semaphores\<close>

lemma goes_lists:
  assumes "goes t x s s'"
  shows "bl s' b = remove1 t (bl s b)" and "st s' t = x" and "u \<noteq> t \<Longrightarrow> tasks s' u = tasks s u"
    and "sems s' = sems s" and "events s' = events s"
  using assms by (auto simp: goes_def env_def)

text \<open>
  C20: Giving a semaphore on which tasks wait makes exactly the first of them ready (or
  suspended, if it was suspended as well) and takes it off the list; its wait ends with
  success, the count stays as it was and no other task is touched. When the semaphore's
  policy is by priority, no waiting task had a higher priority.
\<close>

theorem sem_give_first_waiter:
  assumes "run s" and "callable s" and "sem \<noteq> NULL" and "obj_type (blks s sem) = RHINO_SEM_OBJ_TYPE"
    and b: "bl s sem = t # ts"
  defines "s' \<equiv> snd (krhino_sem_give sem s)"
  shows "fst (krhino_sem_give sem s) = RHINO_SUCCESS \<and> st s' t = woken (st s t) \<and> blk_state (tasks s' t) = BLK_FINISH \<and>
    bl s' sem = ts \<and> sems s' = sems s \<and> (\<forall>u. u \<noteq> t \<longrightarrow> tasks s' u = tasks s u) \<and>
    (blk_policy (blks s sem) = BLK_POLICY_PRI \<longrightarrow> (\<forall>u \<in> set ts. pr s t \<le> pr s u))"
proof -
  note r = run_calls [OF assms(1,2)]
  define sa where "sa = RHINO_CRITICAL_ENTER s"
  have sa: "presched sa" "blks sa = blks s" "tasks sa = tasks s" "sems sa = sems s" using r(1) by (simp_all add: sa_def)
  have t: "pended (st sa t)" "bo sa t = sem" using in_bl_iff [OF r(3), of t sem] b by (simp_all add: sa)
  note k = kinvD(1) [OF preschedD(1) [OF sa(1)]]
  note g = goes_lists [OF wk.wake_goes [OF k t(1)]]
  have e: "krhino_sem_give sem s = (RHINO_SUCCESS, RHINO_CRITICAL_EXIT_SCHED (irq_off s) (pend_task_wakeup t sa))"
    using assms(3,4) b by (simp add: krhino_sem_give_def sem_give_def Let_def sa_def)
  have "sorted (map (pr s) (bl s sem))" if "blk_policy (blks s sem) = BLK_POLICY_PRI"
    using r(3) that by (simp add: blk_ok_def)
  then show ?thesis
    using g wk.wake_result [OF k t(1)] b unfolding s'_def e by (simp add: sa)
qed

theorem sem_give_first_waiter_witness:
  "st (snd (krhino_sem_give 1024 on_sem)) 512 = K_RDY \<and> bl (snd (krhino_sem_give 1024 on_sem)) 1024 = []"
proof -
  have "callable on_sem" "obj_type (blks on_sem 1024) = RHINO_SEM_OBJ_TYPE" "bl on_sem 1024 = [512]" "st on_sem 512 = K_PEND"
    by (simp_all add: on_sem_eq low_runs_def demo_defs callable_def)
  then show ?thesis using sem_give_first_waiter [OF run_waiting(1), of 1024 512 "[]"] by (simp add: woken_def)
qed

text \<open>
  C29: Giving a semaphore nobody waits for adds one to its count, unless the count is at the
  maximum of its type: then the call fails and changes nothing. The count never wraps.
\<close>

theorem sem_give_counts:
  assumes "sem \<noteq> NULL" and "obj_type (blks s sem) = RHINO_SEM_OBJ_TYPE" and "bl s sem = []"
    and "sem_count (sems s sem) \<le> sem_count_max (port s)"
  shows "krhino_sem_give sem s =
      (if sem_count (sems s sem) = sem_count_max (port s) then (RHINO_SEM_OVF, s)
       else (RHINO_SUCCESS, upd_sem sem (\<lambda>k. k\<lparr>sem_count := sem_count k + 1,
              peak_count := max (peak_count k) (sem_count k + 1)\<rparr>) s))"
  using assms
  by (auto simp: krhino_sem_give_def sem_give_def Let_def critical_id cinc_def upd_sem_def RHINO_CRITICAL_ENTER_def
      RHINO_CRITICAL_EXIT_def max_def)

theorem sem_give_counts_witness:
  "sem_count (sems (snd (krhino_sem_give 1024 demo)) 1024) = 1"
proof -
  have "obj_type (blks demo 1024) = RHINO_SEM_OBJ_TYPE" "bl demo 1024 = []" "sem_count (sems demo 1024) = 0"
    "sem_count_max (port demo) = 4294967295"
    by (simp_all add: demo_defs)
  then show ?thesis using sem_give_counts [of 1024 demo] by simp
qed

text \<open>
  What is given can be taken: after a successful give with no waiter, a take by a task
  returns success at once, whatever its timeout, and the count is what it was before.
\<close>

lemma sem_give_take:
  assumes "sem \<noteq> NULL" and "obj_type (blks s sem) = RHINO_SEM_OBJ_TYPE" and "bl s sem = []"
    and "sem_count (sems s sem) < sem_count_max (port s)" and "g_intrpt_nested_level s = 0"
  defines "s' \<equiv> snd (krhino_sem_give sem s)"
  shows "fst (krhino_sem_take sem n s') = Returned RHINO_SUCCESS \<and>
    sem_count (sems (snd (krhino_sem_take sem n s')) sem) = sem_count (sems s sem) \<and> tasks (snd (krhino_sem_take sem n s')) = tasks s"
proof -
  have "fst (krhino_sem_give sem s) = RHINO_SUCCESS" "blks s' = blks s" "tasks s' = tasks s" "g_intrpt_nested_level s' = 0"
    "sem_count (sems s' sem) = sem_count (sems s sem) + 1"
    using assms by (simp_all add: s'_def krhino_sem_give_def sem_give_def Let_def cinc_def)
      (simp_all add: upd_sem_def)
  then show ?thesis using assms(1,2) by (simp add: krhino_sem_take_def Let_def)
qed

text \<open>
  C24: Deleting a semaphore ends the wait of every task that waited for it, with the result
  that says so; no task is left on its list, its memory is no semaphore any more, and no other
  task is touched.
\<close>

theorem sem_del_wakes_all:
  assumes "run s" and "callable s" and "sem \<noteq> NULL" and "obj_type (blks s sem) = RHINO_SEM_OBJ_TYPE"
    and "g_intrpt_nested_level s = 0" and "sem_alloc_flag (sems s sem) = K_OBJ_STATIC_ALLOC"
  defines "s' \<equiv> snd (krhino_sem_del sem s)"
  shows "fst (krhino_sem_del sem s) = RHINO_SUCCESS \<and> bl s' sem = [] \<and> obj_type (blks s' sem) = RHINO_OBJ_TYPE_NONE \<and>
    (\<forall>t. if t \<in> set (bl s sem) then st s' t = woken (st s t) \<and> blk_state (tasks s' t) = BLK_DEL else tasks s' t = tasks s t)"
proof -
  define sa where "sa = RHINO_CRITICAL_ENTER s"
  have sa: "presched sa" "blks sa = blks s" "tasks sa = tasks s" using run_calls [OF assms(1,2)] by (simp_all add: sa_def)
  have nm: "\<not> is_mutex sa sem" using assms(4) by (simp add: is_mutex_def sa)
  note d = delete_wakes [OF sa(1) nm]
  show ?thesis
    unfolding s'_def using assms(3-6) d(2,4,5,6) by (simp add: krhino_sem_del_def Let_def sa_def [symmetric] sa) (simp add: sa_def)
qed

theorem sem_del_wakes_all_witness:
  "st (snd (krhino_sem_del 1024 on_sem)) 512 = K_RDY \<and> blk_state (tasks (snd (krhino_sem_del 1024 on_sem)) 512) = BLK_DEL"
proof -
  have "callable on_sem" "obj_type (blks on_sem 1024) = RHINO_SEM_OBJ_TYPE" "bl on_sem 1024 = [512]" "st on_sem 512 = K_PEND"
    "g_intrpt_nested_level on_sem = 0" "sem_alloc_flag (sems on_sem 1024) = K_OBJ_STATIC_ALLOC"
    by (simp_all add: on_sem_eq low_runs_def demo_defs callable_def)
  then show ?thesis using sem_del_wakes_all [OF run_waiting(1), of 1024] by (auto simp: woken_def dest: spec [of _ 512])
qed

section \<open>Event groups\<close>

text \<open>
  C19: Setting flags of an event group wakes exactly the waiting tasks whose condition the new
  flags meet, with success; every other task is left alone, and afterwards no waiting task's
  condition holds.
\<close>

theorem event_set_wakes:
  fixes flags :: "32 word"
  assumes "run s" and "callable s" and "e \<noteq> NULL" and "obj_type (blks s e) = RHINO_EVENT_OBJ_TYPE"
  defines "s' \<equiv> snd (krhino_event_set e flags RHINO_OR s)"
  defines "cond \<equiv> \<lambda>t. event_match (pend_option (tasks s t)) (pend_flags (tasks s t)) (event_flags (events s e) OR flags)"
  shows "fst (krhino_event_set e flags RHINO_OR s) = RHINO_SUCCESS \<and>
    (\<forall>t. if t \<in> set (bl s e) \<and> cond t then st s' t = woken (st s t) \<and> blk_state (tasks s' t) = BLK_FINISH
       else tasks s' t = tasks s t) \<and>
    (\<forall>t. pended (st s' t) \<longrightarrow> \<not> avail s' (bo s' t) (tasks s' t))"
proof -
  define sa where "sa = RHINO_CRITICAL_ENTER s"
  have sa: "presched sa" "blks sa = blks s" "tasks sa = tasks s" "events sa = events s"
    using run_calls [OF assms(1,2)] by (simp_all add: sa_def)
  have ty: "obj_type (blks sa e) = RHINO_EVENT_OBJ_TYPE" using assms(4) by (simp add: sa)
  note w = event_set_walk_no_lost [OF sa(1) ty, where flags = flags, unfolded sa matches_def]
  have "sysinv s'"
    unfolding s'_def using run_sysinv(1) [OF assms(1)] assms(2) by (simp add: krhino_event_set_sysinv)
  then have "\<forall>t. pended (st s' t) \<longrightarrow> \<not> avail s' (bo s' t) (tasks s' t)" using sysinvD(5) by (simp add: no_lost_def)
  moreover have "fst (krhino_event_set e flags RHINO_OR s) = RHINO_SUCCESS \<and>
      tasks s' = tasks (event_set_walk e (event_flags (events s e) OR flags) (bl s e)
        (upd_event e (\<lambda>k. k\<lparr>event_flags := event_flags k OR flags\<rparr>) sa))"
    using assms(3,4) unfolding s'_def by (simp add: krhino_event_set_def event_set_or sa_def)
  ultimately show ?thesis unfolding cond_def using w(2,3) by simp
qed

theorem event_set_wakes_witness:
  "st (snd (krhino_event_set 1536 2 RHINO_OR on_event)) 512 = K_RDY"
proof -
  have "callable on_event" "obj_type (blks on_event 1536) = RHINO_EVENT_OBJ_TYPE" "bl on_event 1536 = [512]"
    "st on_event 512 = K_PEND" "pend_option (tasks on_event 512) = RHINO_OR" "pend_flags (tasks on_event 512) = 3"
    "event_flags (events on_event 1536) = 0"
    by (simp_all add: on_event_eq low_runs_def demo_defs callable_def)
  then show ?thesis using event_set_wakes [OF run_waiting(2), of 1536 2] by (auto simp: woken_def event_match_def dest: spec [of _ 512])
qed

section \<open>Mutexes\<close>

lemma ready_release:
  assumes "st s t = K_RDY"
  shows "blks (mutex_release t m s) = blks s" and "mutexes (mutex_release t m s) = mutexes s"
    and "u \<noteq> t \<Longrightarrow> tasks (mutex_release t m s) u = tasks s u"
    and "held (mutex_release t m s) t = filter (\<lambda>x. x \<noteq> m) (held s t)"
proof -
  define s1 where "s1 = snd (mutex_pri_look t m s)"
  have s1: "s1 = upd_task t (\<lambda>k. k\<lparr>mutex_list := filter (\<lambda>x. x \<noteq> m) (mutex_list k)\<rparr>) s"
    by (simp add: s1_def mutex_pri_look_def Let_def upd_task_def)
  have st: "st s1 t = K_RDY" using assms by (simp add: s1)
  have "blks s' = blks s1 \<and> mutexes s' = mutexes s1 \<and> (\<forall>u. u \<noteq> t \<longrightarrow> tasks s' u = tasks s1 u) \<and> held s' t = held s1 t"
    if "s' = snd (task_pri_change t q s1)" for q s'
    using st that by (subst (asm) task_pri_change.simps) (auto simp: task_pri_change_round_def set_prio_def Let_def)
  then show "blks (mutex_release t m s) = blks s" "mutexes (mutex_release t m s) = mutexes s"
    "u \<noteq> t \<Longrightarrow> tasks (mutex_release t m s) u = tasks s u"
    "held (mutex_release t m s) t = filter (\<lambda>x. x \<noteq> m) (held s t)"
    by (simp_all add: mutex_release_def split_def Let_def s1_def [symmetric]) (simp_all add: s1)
qed

lemma wakeup_woken: "pended (st s t) \<Longrightarrow> st (pend_task_wakeup t s) t = woken (st s t)"
  and wakeup_held: "held (pend_task_wakeup t s) u = held s u"
  by (auto simp: pend_task_wakeup_def Let_def pended_def woken_def split: task_stat_t.split)

text \<open>
  C15: Releasing a mutex for the last time hands it to the first waiting task, which no waiting
  task exceeds in priority: that task becomes the owner with a nesting count of one, is woken,
  and has the mutex in its list; the task that released it has not.
\<close>

theorem mutex_unlock_hands_over:
  assumes "run s" and "callable s" and "m \<noteq> NULL" and "is_mutex s m" and "g_intrpt_nested_level s = 0"
    and "owner s m = g_active_task s" and "owner_nested (mutexes s m) = 1" and b: "bl s m = t # ts"
  defines "s' \<equiv> snd (krhino_mutex_unlock m s)"
  shows "fst (krhino_mutex_unlock m s) = RHINO_SUCCESS \<and> owner s' m = t \<and> owner_nested (mutexes s' m) = 1 \<and>
    st s' t = woken (st s t) \<and> m \<in> set (held s' t) \<and> m \<notin> set (held s' (g_active_task s)) \<and>
    (\<forall>u \<in> set ts. pr s t \<le> pr s u)"
proof -
  note r = run_calls [OF assms(1,2)] and i = run_sysinv [OF assms(1)]
  note mu = mutex_okD [OF kinvD(2) [OF sysinvD(1) [OF i(1)]]]
  define a where "a = g_active_task s"
  have a: "st s a = K_RDY" unfolding a_def by (rule active_ready [OF sysinv_presched [OF i(1) assms(2)] assms(5) i(1)])
  have t: "pended (st s t)" "bo s t = m" using in_bl_iff [OF r(3), of t m] b by simp_all
  have ta: "t \<noteq> a" using t(1) a by auto
  define sb where "sb = upd_mutex m (\<lambda>k. k\<lparr>owner_nested := cdec (mutex_nested_max (port s)) (owner_nested k)\<rparr>) (RHINO_CRITICAL_ENTER s)"
  have sb: "st sb a = K_RDY" "tasks sb = tasks s" "blks sb = blks s" "owner_nested (mutexes sb m) = 0"
    using a assms(7) by (simp_all add: sb_def cdec_def)
  define sc where "sc = mutex_release a m sb"
  note rel = ready_release [OF sb(1), where m = m, folded sc_def, unfolded sb(2,3)]
  have e: "krhino_mutex_unlock m s = (RHINO_SUCCESS, RHINO_CRITICAL_EXIT_SCHED (irq_off s)
      (upd_mutex m (\<lambda>m. m\<lparr>owner_nested := 1\<rparr>) (upd_task t (\<lambda>k. k\<lparr>mutex_list := m # mutex_list k\<rparr>)
        (upd_mutex m (\<lambda>m. m\<lparr>mutex_task := t\<rparr>) (pend_task_wakeup t sc)))))"
    using assms(3-6) i(2) b rel(1)
    by (simp add: krhino_mutex_unlock_def Let_def is_mutex_def a_def [symmetric] sb_def [symmetric] sb(4) sc_def [symmetric])
  have "sorted (map (pr s) (bl s m))" using r(3) mu(4) [OF assms(4)] by (simp add: blk_ok_def)
  moreover have "st sc t = st s t" "pended (st sc t)" using rel(3) [OF ta] t(1) by simp_all
  moreover have "m \<notin> set (held sc a)" using rel(4) by simp
  ultimately show ?thesis
    unfolding s'_def e a_def [symmetric] using ta b by (simp add: wakeup_woken wakeup_held)
qed

theorem mutex_unlock_hands_over_witness:
  "owner (snd (krhino_mutex_unlock 1280 on_mutex)) 1280 = 512 \<and> st (snd (krhino_mutex_unlock 1280 on_mutex)) 512 = K_RDY"
proof -
  have "callable on_mutex" "is_mutex on_mutex 1280" "g_intrpt_nested_level on_mutex = 0" "bl on_mutex 1280 = [512]"
    "owner on_mutex 1280 = g_active_task on_mutex" "owner_nested (mutexes on_mutex 1280) = 1" "st on_mutex 512 = K_PEND"
    by (simp_all add: on_mutex_eq demo_defs callable_def is_mutex_def)
  then show ?thesis using mutex_unlock_hands_over [OF run_waiting(3), of 1280 512 "[]"] by (simp add: woken_def)
qed

text \<open>
  A task that locks a mutex it already owns and unlocks it once leaves the system as it
  was: nesting is counted, and the mutex stays with its owner.
\<close>

lemma mutex_nested_lock_unlock:
  fixes n :: tick_t
  assumes "m \<noteq> NULL" and "is_mutex s m" and "g_sys_stat s = RHINO_RUNNING" and "g_intrpt_nested_level s = 0"
    and "owner s m = g_active_task s" and "0 < owner_nested (mutexes s m)"
    and "owner_nested (mutexes s m) < mutex_nested_max (port s)"
  defines "s' \<equiv> snd (krhino_mutex_lock m n s)"
  shows "fst (krhino_mutex_lock m n s) = Returned RHINO_MUTEX_OWNER_NESTED \<and>
    owner_nested (mutexes s' m) = owner_nested (mutexes s m) + 1 \<and> krhino_mutex_unlock m s' = (RHINO_MUTEX_OWNER_NESTED, s)"
proof -
  have s': "krhino_mutex_lock m n s = (Returned RHINO_MUTEX_OWNER_NESTED, upd_mutex m (\<lambda>k. k\<lparr>owner_nested := owner_nested k + 1\<rparr>) s)"
    using assms(1-7) by (simp add: krhino_mutex_lock_def Let_def is_mutex_def upd_mutex_def RHINO_CRITICAL_ENTER_def RHINO_CRITICAL_EXIT_def)
  have "(mutexes s)(m := mutexes s m\<lparr>owner_nested := owner_nested (mutexes s m)\<rparr>) = mutexes s" by simp
  then show ?thesis
    using assms(1-6) unfolding s'_def s'
    by (simp add: krhino_mutex_unlock_def Let_def is_mutex_def upd_mutex_def RHINO_CRITICAL_ENTER_def RHINO_CRITICAL_EXIT_def cdec_def)
qed

section \<open>Suspension\<close>

text \<open>
  C23: Suspending a task and resuming it brings it back to the state it was in, ready, asleep
  or blocked, and touches no other task; in between it is suspended in a way that remembers
  what it waits for.
\<close>

theorem task_suspend_resume:
  assumes "t \<noteq> NULL" and "pr s t \<noteq> RHINO_IDLE_PRI" and "st s t = K_RDY \<or> st s t = K_SLEEP \<or> st s t = K_PEND"
    and "t = g_active_task s \<Longrightarrow> g_sched_lock s = 0"
  defines "s1 \<equiv> snd (krhino_task_suspend t s)"
  defines "s2 \<equiv> snd (krhino_task_resume t s1)"
  shows "fst (krhino_task_suspend t s) = RHINO_SUCCESS \<and> fst (krhino_task_resume t s1) = RHINO_SUCCESS \<and>
    suspended (st s1 t) \<and> pended (st s1 t) = pended (st s t) \<and> sleeping (st s1 t) = sleeping (st s t) \<and>
    st s2 t = st s t \<and> suspend_count (tasks s2 t) = 0 \<and> (\<forall>u. u \<noteq> t \<longrightarrow> tasks s2 u = tasks s u)"
proof -
  have "\<not> (t = g_active_task s \<and> 0 < g_sched_lock s)" using assms(4) by auto
  then have 1: "fst (krhino_task_suspend t s) = RHINO_SUCCESS \<and> tasks s1 = (tasks s)(t := (tasks s t)\<lparr>suspend_count := 1,
      task_state := (if st s t = K_RDY then K_SUSPENDED else if st s t = K_SLEEP then K_SLEEP_SUSPENDED else K_PEND_SUSPENDED)\<rparr>)"
    using assms(1-3) unfolding s1_def
    by (elim disjE) (simp_all add: krhino_task_suspend_def task_suspend_def Let_def)
  then have "fst (krhino_task_resume t s1) = RHINO_SUCCESS \<and> tasks s2 = (tasks s)(t := (tasks s t)\<lparr>suspend_count := 0, task_state := st s t\<rparr>)"
    using assms(1,3) unfolding s2_def
    by (elim disjE) (simp_all add: krhino_task_resume_def task_resume_def Let_def cdec_def)
  with 1 show ?thesis using assms(3) by (elim disjE) simp_all
qed

theorem task_suspend_resume_witness:
  "st (snd (krhino_task_suspend 512 on_sem)) 512 = K_PEND_SUSPENDED \<and>
   st (snd (krhino_task_resume 512 (snd (krhino_task_suspend 512 on_sem)))) 512 = K_PEND"
proof -
  have f: "pr on_sem 512 \<noteq> RHINO_IDLE_PRI" "st on_sem 512 = K_PEND" "g_active_task on_sem = 768"
    by (simp_all add: on_sem_eq low_runs_def demo_defs)
  then show ?thesis
    using task_suspend_resume [of 512 on_sem] by (cases "st (snd (krhino_task_suspend 512 on_sem)) 512") simp_all
qed

section \<open>Sleeping\<close>

text \<open>The tick list is sorted, so a tick reaches every task whose time has come.\<close>

lemma sint_pred_le:
  assumes "0 < (x :: 64 word)" and "unat x \<le> 2 ^ 63"
  shows "sint (x - 1) \<le> 0 \<longleftrightarrow> x = 1"
proof -
  have u: "unat (x - 1) = unat x - 1" using assms(1) by (simp add: unat_minus_one word_gt_0)
  then have "unat (x - 1) < 2 ^ 63" using assms by (simp add: word_less_nat_alt)
  then have "uint (x - 1) < 2 ^ 63" by (metis of_nat_less_iff of_nat_numeral of_nat_power uint_nat)
  then have "sint (x - 1) = uint (x - 1)" 
    by (simp add: sint_uint signed_take_bit_int_eq_self_iff) (rule order_trans [OF _ uint_ge_0], simp)
  then have "sint (x - 1) = int (unat x - 1)" using uint_nat [of "x - 1"] u by metis
  moreover have "x = 1 \<longleftrightarrow> unat x = 1" by (simp add: word_unat_eq_iff)
  moreover have "0 < unat x" using assms(1) by (simp add: word_less_nat_alt)
  ultimately show ?thesis by linarith
qed

lemma sorted_takeWhile:
  assumes "sorted (map f xs)" and "x \<in> set xs" and "P x" and "\<And>y. y \<in> set xs \<Longrightarrow> f y \<le> f x \<Longrightarrow> P y"
  shows "x \<in> set (takeWhile P xs)"
  using assms by (induction xs) auto

lemma expired_iff:
  assumes "tick_ok s" and "tick_pos s" and "t \<in> set (g_tick_head s)" and "unat (remain s t) \<le> 2 ^ 63"
  shows "t \<in> set (expired s) \<longleftrightarrow> remain s t = 1"
proof -
  have pos: "0 < remain s u" if "u \<in> set (g_tick_head s)" for u using assms(2) that by (simp add: tick_pos_def)
  have srt: "sorted (map (remain s) (g_tick_head s))" using assms(1) by (simp add: tick_ok_def)
  have one: "remain s y = 1" if "remain s t = 1" "y \<in> set (g_tick_head s)" "remain s y \<le> remain s t" for y
    using that pos [OF that(2)] by (metis inc_le antisym add_0)
  have "t \<in> set (expired s)" if "remain s t = 1"
    unfolding expired_def by (rule sorted_takeWhile [OF srt assms(3)]) (simp_all add: that one [OF that])
  moreover have "remain s t = 1" if "t \<in> set (expired s)"
    using that sint_pred_le [OF pos [OF assms(3)] assms(4)] by (auto simp: expired_def dest: set_takeWhileD)
  ultimately show ?thesis by blast
qed

lemma ticks_effect:
  assumes "kinv s" and "tick_pos s" and "sleeping (st s t)" and "unat (remain s t) < 2 ^ 63"
  shows "k < unat (remain s t) \<Longrightarrow> kinv ((tick_list_update 1 ^^ k) s) \<and> tick_pos ((tick_list_update 1 ^^ k) s) \<and>
      st ((tick_list_update 1 ^^ k) s) t = st s t \<and> remain ((tick_list_update 1 ^^ k) s) t = remain s t - of_nat k"
proof (induction k)
  case 0
  then show ?case using assms by simp
next
  case (Suc k)
  define s' where "s' = (tick_list_update 1 ^^ k) s"
  have i: "kinv s'" "tick_pos s'" "st s' t = st s t" "remain s' t = remain s t - of_nat k"
    using Suc by (simp_all add: s'_def)
  have k64: "unat (of_nat k :: 64 word) = k" using Suc.prems assms(4) by (simp add: unat_of_nat)
  then have u: "unat (remain s' t) = unat (remain s t) - k"
    using Suc.prems by (simp add: i(4) unat_sub word_le_nat_alt)
  have tk: "tick_ok s'" using core_okD(4) [OF kinvD(1) [OF i(1)]] .
  have h: "t \<in> set (g_tick_head s')" using tk assms(3) i(3) by (simp add: tick_ok_def)
  have "remain s' t \<noteq> 1" using u Suc.prems by auto
  then have ne: "t \<notin> set (expired s')" using expired_iff [OF tk i(2) h] u assms(4) by simp
  note e = tick_list_update_effect [OF i(1,2)]
  have "st (tick_list_update 1 s') t = st s' t" "tick_match (tasks (tick_list_update 1 s') t) = tick_match (tasks s' t)"
    using nopri_sel(1,2) [OF e(7) [OF ne]] by simp_all
  moreover have "g_tick_count (tick_list_update 1 s') = g_tick_count s' + 1" using e(3) by (simp add: env_def)
  ultimately have "st (tick_list_update 1 s') t = st s t" "remain (tick_list_update 1 s') t = remain s t - of_nat (Suc k)"
    using i(3,4) by (simp_all add: remain_def)
  then show ?case using e(1,2) by (simp add: s'_def)
qed

lemma wakes_after:
  assumes k: "kinv s" "tick_pos s" and t: "sleeping (st s t)" and n: "unat (remain s t) < 2 ^ 63"
  shows "st ((tick_list_update 1 ^^ unat (remain s t)) s) t = woken (st s t)"
proof -
  have "0 < remain s t"
    using core_okD(4) [OF kinvD(1) [OF k(1)]] k(2) t by (simp add: tick_ok_def tick_pos_def)
  then obtain m where m: "unat (remain s t) = Suc m" by (metis gr0_conv_Suc word_less_nat_alt unat_0)
  define s' where "s' = (tick_list_update 1 ^^ m) s"
  have i: "kinv s'" "tick_pos s'" "st s' t = st s t" "remain s' t = remain s t - of_nat m"
    using ticks_effect [OF k t n, of m] m by (simp_all add: s'_def)
  have tk: "tick_ok s'" using core_okD(4) [OF kinvD(1) [OF i(1)]] .
  have h: "t \<in> set (g_tick_head s')" using tk t i(3) by (simp add: tick_ok_def)
  have "remain s t = of_nat (Suc m)" using m by (metis of_nat_unat ucast_id)
  then have one: "remain s' t = 1" using i(4) by simp
  then have "t \<in> set (expired s')" using expired_iff [OF tk i(2) h] by simp
  then show ?thesis using tick_list_update_effect(6) [OF i(1,2)] i(3) by (simp add: m s'_def [symmetric])
qed

text \<open>
  C17: A task that sleeps for \<open>n\<close> ticks sleeps through fewer than \<open>n\<close> ticks and is ready after
  exactly \<open>n\<close>, for every \<open>n\<close> below \<open>2 ^ 63\<close>, also when the tick counter wraps around in between.
\<close>

theorem task_sleep_duration:
  assumes "run s" and "callable s" and "g_intrpt_nested_level s = 0" and "g_sched_lock s = 0"
    and "g_active_task s \<noteq> g_idle_task s" and n: "0 < n" "unat n < 2 ^ 63"
  defines "s' \<equiv> snd (krhino_task_sleep n s)"
  shows "fst (krhino_task_sleep n s) = Blocked \<and>
    (\<forall>k < unat n. st ((tick_list_update 1 ^^ k) s') (g_active_task s) = K_SLEEP) \<and>
    st ((tick_list_update 1 ^^ unat n) s') (g_active_task s) = K_RDY"
proof -
  define a where "a = g_active_task s"
  have i: "kinv s'" "tick_pos s'"
    using sysinvD(1,2) [OF krhino_task_sleep_sysinv [OF run_sysinv(1) [OF assms(1)] assms(2)]] assms(5) by (simp_all add: s'_def)
  have f: "fst (krhino_task_sleep n s) = Blocked" "st s' a = K_SLEEP" "tick_match (tasks s' a) = g_tick_count s + n"
    "g_tick_count s' = g_tick_count s"
    using assms(3,4) n(1) unfolding s'_def a_def
    by (simp_all add: krhino_task_sleep_def Let_def tick_list_insert_def tick_list_pri_insert_def word_gt_0)
  then have r: "remain s' a = n" by (simp add: remain_def)
  have sl: "sleeping (st s' a)" by (simp add: f)
  show ?thesis
    using f(1) ticks_effect [OF i sl] wakes_after [OF i sl] n(2) by (simp add: r f(2) a_def [symmetric] woken_def)
qed

theorem task_sleep_duration_witness:
  "st (tick_list_update 1 (snd (krhino_task_sleep 2 demo))) 512 = K_SLEEP \<and>
   st ((tick_list_update 1 ^^ 2) (snd (krhino_task_sleep 2 demo))) 512 = K_RDY"
proof -
  have f: "g_sched_lock demo = 0" "g_active_task demo = 512" "g_idle_task demo = 256" by (simp_all add: demo_defs)
  then show ?thesis
    using task_sleep_duration [OF run_demo, of 2] waiting_facts(1,2) by (auto dest: spec [of _ 1])
qed



section \<open>Queues\<close>

text \<open>
  C8: A message queue is a bounded first-in first-out queue. After its creation every sequence
  of sends and of receives without waiting returns exactly what a list of at most \<open>n\<close> messages
  would: a send appends or reports a full queue, a receive takes the oldest message or
  reports that there is none. The buffer is a ring of four-byte cells behind this.
\<close>

theorem queue_is_fifo:
  fixes s :: kernel
  assumes "q \<noteq> NULL" and "name \<noteq> NULL" and "start \<noteq> NULL" and "a \<noteq> NULL" and "0 < n" and "n * 4 < 2 ^ 32"
    and "unat a + 4 \<le> unat start \<or> unat start + n * 4 \<le> unat a"
  defines "s' \<equiv> snd (krhino_queue_create q name start n s)"
  shows "fst (krhino_queue_create q name start n s) = RHINO_SUCCESS \<and>
    fst (fifo_run (krhino_queue_back_send q) (queue_recv q a) ops s') =
    fst (fifo_run (spec_send (\<lambda>ps _. length ps < n) RHINO_QUEUE_FULL) (spec_recv RHINO_NO_PEND_WAIT) ops [])"
proof -
  have "rb_rep (ringbuf_init rb (unat start) (n * 4) RINGBUF_TYPE_FIX 4) m []" for rb m
    by (rule rb_rep_init) (use assms(5) in simp_all)
  then have "fst (krhino_queue_create q name start n s) = RHINO_SUCCESS \<and> queue_is q a (unat start) n s' []"
    using assms(1-7) unfolding s'_def
    by (simp add: krhino_queue_create_def queue_create_def Let_def queue_is_def rb_is_def)
      (simp add: ringbuf_init_def ringbuf_reset_def cap_def)
  then show ?thesis using kq.run_refines [of q a "unat start" n s' "[]" ops] by simp
qed

theorem queue_is_fifo_witness:
  "fst (fifo_run (krhino_queue_back_send 1792) (queue_recv 1792 64) [Send 7, Send 8, Send 9, Recv, Recv, Recv]
     (snd (krhino_queue_create 1792 1 4096 2 demo))) =
   [(RHINO_SUCCESS, None), (RHINO_SUCCESS, None), (RHINO_QUEUE_FULL, None), (RHINO_SUCCESS, Some 7), (RHINO_SUCCESS, Some 8),
    (RHINO_NO_PEND_WAIT, None)]"
  using queue_is_fifo [of 1792 1 4096 64 2 demo "[Send 7, Send 8, Send 9, Recv, Recv, Recv]"]
  by (simp add: spec_send_def spec_recv_def)

text \<open>
  C7: A buffer queue with messages of variable length is a first-in first-out queue bounded by
  the bytes that the messages and their length headers take: every message that is accepted
  comes out once, whole and in order, for every sequence of sends and receives.
\<close>

theorem buf_queue_is_fifo:
  fixes s :: kernel
  assumes "q \<noteq> NULL" and "name \<noteq> NULL" and "buf \<noteq> NULL" and "src \<noteq> NULL" and "dst \<noteq> NULL" and "len \<noteq> NULL"
    and "0 < c" and "0 < mx"
    and "unat src + mx \<le> unat buf \<or> unat buf + c \<le> unat src" and "unat dst + mx \<le> unat buf \<or> unat buf + c \<le> unat dst"
    and "\<forall>m \<in> sends ops. m \<noteq> [] \<and> length m \<le> mx \<and> length m \<le> 0x3fffff"
  defines "s' \<equiv> snd (krhino_buf_queue_create q name buf c mx s)"
  shows "fst (krhino_buf_queue_create q name buf c mx s) = RHINO_SUCCESS \<and>
    fst (fifo_run (bq_send q src) (bq_recv q dst len) ops s') =
    fst (fifo_run (spec_send (fifo_room c RINGBUF_TYPE_DYN) RHINO_BUF_QUEUE_FULL) (spec_recv RHINO_NO_PEND_WAIT) ops [])"
proof -
  have "rb_rep (ringbuf_init rb (unat buf) c RINGBUF_TYPE_DYN mx) m []" for rb m
    by (rule rb_rep_init) (use assms(7) in simp_all)
  then have "fst (krhino_buf_queue_create q name buf c mx s) = RHINO_SUCCESS \<and>
      buf_queue_is q src dst len (unat buf) c RINGBUF_TYPE_DYN mx s' []"
    using assms(1-10) unfolding s'_def
    by (simp add: krhino_buf_queue_create_def buf_queue_create_def Let_def buf_queue_is_def rb_is_def)
      (simp add: ringbuf_init_def ringbuf_reset_def cap_def)
  moreover have "\<forall>m \<in> sends ops. bq_fits RINGBUF_TYPE_DYN mx m" using assms(11) by (simp add: bq_fits_def fifo_fits_def)
  ultimately show ?thesis
    using bq.run_refines [of q src dst len "unat buf" c RINGBUF_TYPE_DYN mx s' "[]" ops] by simp
qed

theorem buf_queue_is_fifo_witness:
  "fst (fifo_run (bq_send 1792 64) (bq_recv 1792 96 128) [Send [1, 2, 3], Recv, Recv]
     (snd (krhino_buf_queue_create 1792 1 4096 32 8 demo))) =
   [(RHINO_SUCCESS, None), (RHINO_SUCCESS, Some [1, 2, 3]), (RHINO_NO_PEND_WAIT, None)]"
proof -
  have "\<forall>m \<in> sends [Send [1, 2, 3 :: byte], Recv, Recv]. m \<noteq> [] \<and> length m \<le> 8 \<and> length m \<le> 0x3fffff"
    by (auto simp: sends_def)
  moreover have "fifo_room 32 RINGBUF_TYPE_DYN [] [1, 2, 3]"
    using length_hdr [of "Suc (Suc (Suc 0))"] by (simp add: fifo_room_def rb_used_def rb_encode_def COMPRESS_LEN_def)
  ultimately show ?thesis
    using buf_queue_is_fifo [of 1792 1 4096 64 96 128 32 8 "[Send [1, 2, 3], Recv, Recv]" demo]
    by (simp add: spec_send_def spec_recv_def)
qed

section \<open>Calls that fail\<close>

text \<open>
  C26: An interrupt handler cannot block or delete: every such call made while interrupts are
  being handled returns the error that says so, and the whole state of the kernel is what
  it was.
\<close>

theorem interrupt_calls_refused:
  assumes "0 < g_intrpt_nested_level s" and "g_sys_stat s = RHINO_RUNNING" and "b \<noteq> NULL" and "p \<noteq> NULL" and "n \<noteq> RHINO_NO_WAIT"
    and "opt = RHINO_AND \<or> opt = RHINO_OR"
  shows "krhino_task_sleep n s = (Returned RHINO_NOT_CALLED_BY_INTRPT, s) \<and>
    krhino_sem_take b n s = (Returned RHINO_NOT_CALLED_BY_INTRPT, s) \<and>
    krhino_event_get b f opt p n s = (Returned RHINO_NOT_CALLED_BY_INTRPT, s) \<and>
    krhino_queue_recv b n p s = (Returned RHINO_NOT_CALLED_BY_INTRPT, s) \<and>
    krhino_buf_queue_recv b n p p s = (Returned RHINO_NOT_CALLED_BY_INTRPT, s) \<and>
    krhino_mutex_lock b n s = (Returned RHINO_NOT_CALLED_BY_INTRPT, s) \<and>
    krhino_mutex_unlock b s = (RHINO_NOT_CALLED_BY_INTRPT, s) \<and>
    krhino_sem_del b s = (RHINO_NOT_CALLED_BY_INTRPT, s) \<and> krhino_event_del b s = (RHINO_NOT_CALLED_BY_INTRPT, s) \<and>
    krhino_queue_del b s = (RHINO_NOT_CALLED_BY_INTRPT, s) \<and> krhino_buf_queue_del b s = (RHINO_NOT_CALLED_BY_INTRPT, s) \<and>
    krhino_mutex_del b s = (RHINO_NOT_CALLED_BY_INTRPT, s) \<and> krhino_task_del b s = (RHINO_NOT_CALLED_BY_INTRPT, s) \<and>
    krhino_task_wait_abort b s = (RHINO_NOT_CALLED_BY_INTRPT, s) \<and> krhino_sched_disable s = (RHINO_NOT_CALLED_BY_INTRPT, s)"
  using assms
  by (auto simp: krhino_task_sleep_def krhino_sem_take_def krhino_event_get_def krhino_queue_recv_def krhino_buf_queue_recv_def
      krhino_mutex_lock_def krhino_mutex_unlock_def krhino_sem_del_def krhino_event_del_def krhino_queue_del_def
      krhino_buf_queue_del_def krhino_mutex_del_def krhino_task_del_def krhino_task_wait_abort_def krhino_sched_disable_def
      Let_def critical_id)

theorem interrupt_calls_refused_witness:
  "krhino_sem_take 1024 5 (on_sem\<lparr>g_intrpt_nested_level := 1\<rparr>) =
     (Returned RHINO_NOT_CALLED_BY_INTRPT, on_sem\<lparr>g_intrpt_nested_level := 1\<rparr>)"
proof -
  have "g_sys_stat on_sem = RHINO_RUNNING" by (rule run_sysinv [OF run_waiting(1)])
  then show ?thesis
    using interrupt_calls_refused [of "on_sem\<lparr>g_intrpt_nested_level := 1\<rparr>" 1024 64 5 RHINO_OR] by simp
qed



section \<open>Scheduling\<close>





text \<open>
  C21: Changing the priority of a task sets its base priority; the priority it runs with is the
  highest of that and the priorities of the tasks waiting for its mutexes, so a change never
  takes an inherited priority away.
\<close>

theorem task_pri_change_effect:
  assumes "run s" and "callable s" and "g_intrpt_nested_level s = 0" and "t \<noteq> NULL" and "old \<noteq> NULL" and "live (st s t)"
    and "pr s t < RHINO_IDLE_PRI" and "p < RHINO_IDLE_PRI"
  defines "s' \<equiv> snd (krhino_task_pri_change t p old s)"
  shows "fst (krhino_task_pri_change t p old s) = RHINO_SUCCESS \<and> b_prio (tasks s' t) = p \<and> outs s' old = pr s t \<and>
    pr s' t = Min (insert p (pr s' ` {u. pended (st s' u) \<and> bo s' u \<in> set (held s' t)}))"
proof -
  note i = run_sysinv(1) [OF assms(1)]
  have i': "sysinv s'" unfolding s'_def using i assms(2,6) by (simp add: krhino_task_pri_change_sysinv)
  have p: "presched s" "presched (RHINO_CRITICAL_ENTER s)" using sysinv_presched [OF i assms(2)] by simp_all
  note e = pri_change_call [OF assms(4,5,3,6,7,8) p(1)]
  define sb where "sb = set_out old (pr s t) (upd_task t (\<lambda>k. k\<lparr>b_prio := p\<rparr>) (RHINO_CRITICAL_ENTER s))"
  define sc where "sc = snd (task_pri_change t (mutex_pri_limit t p (RHINO_CRITICAL_ENTER s)) sb)"
  have o: "pri_only sb sc" using pri_change_steps(2) [OF p(2), of t p old] assms(6-8) by (simp add: sb_def sc_def)
  have "b_prio (tasks sb t) = p" "st sb t = st s t" "outs sb old = pr s t" by (simp_all add: sb_def set_out_def)
  then have "b_prio (tasks s' t) = p" "st s' t = st s t" "outs s' old = pr s t"
    using pri_only_task(1,4) [OF o] env_sel(13) [OF pri_only_env(1) [OF o]]
    unfolding s'_def e sb_def [symmetric] sc_def [symmetric] by simp_all
  moreover from this have "pr s' t = Min (insert p (pr s' ` waiters s' t))"
    using kinvD(3) [OF sysinvD(1) [OF i']] assms(6) by (simp add: pi_ok_def need_is_Min)
  ultimately show ?thesis using e by (simp add: waiters_def)
qed

theorem task_pri_change_effect_witness:
  "b_prio (tasks (snd (krhino_task_pri_change 768 30 64 on_mutex)) 768) = 30"
proof -
  have "g_intrpt_nested_level on_mutex = 0" "callable on_mutex" "live (st on_mutex 768)" "pr on_mutex 768 < RHINO_IDLE_PRI"
    by (simp_all add: on_mutex_eq demo_defs callable_def)
  then show ?thesis using task_pri_change_effect [OF run_waiting(3), of 768 64 30] by simp
qed

end
