(* ===== verification/Kfifo.thy ===== *)
theory Kfifo
  imports Kernel_State
begin

text \<open>
  The byte fifo (\<^verbatim>\<open>common/k_fifo.c\<close>, \<^verbatim>\<open>k_fifo.h\<close>): a buffer whose size is a power of two, with an
  input and an output index that are never reduced but run through all 32-bit values and
  are masked on access. The theorems show that the bytes come out in the order they went
  in, also when an index wraps around.
\<close>

unbundle bit_operations_syntax

section \<open>Model\<close>

record k_fifo =
  k_in :: "32 word"
  k_out :: "32 word"
  k_mask :: "32 word"
  k_data :: ptr
  k_free_bytes :: "32 word"
  k_size :: "32 word"

definition fifo_unused :: "k_fifo \<Rightarrow> 32 word" where
  "fifo_unused fifo = (k_mask fifo + 1) - (k_in fifo - k_out fifo)"

definition is_power_of_2 :: "32 word \<Rightarrow> bool" where
  "is_power_of_2 n \<longleftrightarrow> n \<noteq> 0 \<and> n AND (n - 1) = 0"

definition fifo_init :: "k_fifo \<Rightarrow> ptr \<Rightarrow> 32 word \<Rightarrow> 8 word \<times> k_fifo" where
  "fifo_init fifo buffer sz =
     (if \<not> is_power_of_2 sz then (1, fifo)
      else
        let fifo = fifo\<lparr>k_in := 0, k_out := 0, k_data := buffer\<rparr> in
        if sz < 2 then (1, fifo\<lparr>k_mask := 0\<rparr>)
        else (0, fifo\<lparr>k_mask := sz - 1, k_free_bytes := sz, k_size := sz\<rparr>))"

text \<open>
  A \<^verbatim>\<open>memcpy\<close> between two areas of memory. As in C, the areas are disjoint wherever the
  theorems speak about the result.
\<close>

definition copy :: "memory \<Rightarrow> nat \<Rightarrow> nat \<Rightarrow> nat \<Rightarrow> memory" where
  "copy m dst src n = memcpy m dst (\<lambda>i. m (src + i)) n"

definition fifo_copy_in :: "k_fifo \<Rightarrow> ptr \<Rightarrow> 32 word \<Rightarrow> 32 word \<Rightarrow> kernel \<Rightarrow> kernel" where
  "fifo_copy_in fifo src len off s =
     (let size = k_mask fifo + 1;
          off = off AND k_mask fifo;
          l = min len (size - off);
          s = s\<lparr>mem := copy (mem s) (unat (k_data fifo) + unat off) (unat src) (unat l)\<rparr>
      in s\<lparr>mem := copy (mem s) (unat (k_data fifo)) (unat src + unat l) (unat (len - l))\<rparr>)"

definition fifo_in :: "k_fifo \<Rightarrow> ptr \<Rightarrow> 32 word \<Rightarrow> kernel \<Rightarrow> 32 word \<times> k_fifo \<times> kernel" where
  "fifo_in fifo buf len s =
     (let cpsr = irq_off s;
          s = RHINO_CRITICAL_ENTER s;
          l = fifo_unused fifo;
          len = (if len > l then l else len);
          s = fifo_copy_in fifo buf len (k_in fifo) s;
          fifo = fifo\<lparr>k_in := k_in fifo + len\<rparr>;
          fifo = fifo\<lparr>k_free_bytes := k_free_bytes fifo - len\<rparr>
      in (len, fifo, RHINO_CRITICAL_EXIT cpsr s))"

definition kfifo_copy_out :: "k_fifo \<Rightarrow> ptr \<Rightarrow> 32 word \<Rightarrow> 32 word \<Rightarrow> kernel \<Rightarrow> kernel" where
  "kfifo_copy_out fifo dst len off s =
     (let size = k_mask fifo + 1;
          off = off AND k_mask fifo;
          l = min len (size - off);
          s = s\<lparr>mem := copy (mem s) (unat dst) (unat (k_data fifo) + unat off) (unat l)\<rparr>
      in s\<lparr>mem := copy (mem s) (unat dst + unat l) (unat (k_data fifo)) (unat (len - l))\<rparr>)"

definition internal_fifo_out_peek :: "k_fifo \<Rightarrow> ptr \<Rightarrow> 32 word \<Rightarrow> kernel \<Rightarrow> 32 word \<times> kernel" where
  "internal_fifo_out_peek fifo buf len s =
     (let l = k_in fifo - k_out fifo;
          len = (if len > l then l else len)
      in (len, kfifo_copy_out fifo buf len (k_out fifo) s))"

definition fifo_out_peek :: "k_fifo \<Rightarrow> ptr \<Rightarrow> 32 word \<Rightarrow> kernel \<Rightarrow> 32 word \<times> kernel" where
  "fifo_out_peek fifo buf len s =
     (let cpsr = irq_off s;
          s = RHINO_CRITICAL_ENTER s;
          (ret_len, s) = internal_fifo_out_peek fifo buf len s
      in (ret_len, RHINO_CRITICAL_EXIT cpsr s))"

definition fifo_out :: "k_fifo \<Rightarrow> ptr \<Rightarrow> 32 word \<Rightarrow> kernel \<Rightarrow> 32 word \<times> k_fifo \<times> kernel" where
  "fifo_out fifo buf len s =
     (let cpsr = irq_off s;
          s = RHINO_CRITICAL_ENTER s;
          (len, s) = internal_fifo_out_peek fifo buf len s;
          fifo = fifo\<lparr>k_out := k_out fifo + len\<rparr>;
          fifo = fifo\<lparr>k_free_bytes := k_free_bytes fifo + len\<rparr>
      in (len, fifo, RHINO_CRITICAL_EXIT cpsr s))"

definition fifo_out_all :: "k_fifo \<Rightarrow> ptr \<Rightarrow> kernel \<Rightarrow> 32 word \<times> k_fifo \<times> kernel" where
  "fifo_out_all fifo buf s =
     (let cpsr = irq_off s;
          s = RHINO_CRITICAL_ENTER s;
          len = k_size fifo - k_free_bytes fifo
      in
      if len = 0 then (0, fifo, RHINO_CRITICAL_EXIT cpsr s)
      else
        let (len, s) = internal_fifo_out_peek fifo buf len s;
            fifo = fifo\<lparr>k_out := k_out fifo + len\<rparr>;
            fifo = fifo\<lparr>k_free_bytes := k_free_bytes fifo + len\<rparr>
        in (len, fifo, RHINO_CRITICAL_EXIT cpsr s))"

section \<open>Invariant and contents\<close>

definition fifo_ok :: "k_fifo \<Rightarrow> nat \<Rightarrow> bool" where
  "fifo_ok f k \<longleftrightarrow> 0 < k \<and> k < 32 \<and> k_mask f = 2 ^ k - 1 \<and> k_size f = 2 ^ k \<and>
     unat (k_in f - k_out f) \<le> 2 ^ k \<and> k_free_bytes f = k_size f - (k_in f - k_out f)"

definition fifo_bytes :: "k_fifo \<Rightarrow> nat \<Rightarrow> memory \<Rightarrow> byte list" where
  "fifo_bytes f k m =
     map (\<lambda>i. m (unat (k_data f) + (unat (k_out f) + i) mod 2 ^ k)) [0..<unat (k_in f - k_out f)]"

definition clear_of :: "k_fifo \<Rightarrow> nat \<Rightarrow> nat \<Rightarrow> nat \<Rightarrow> bool" where
  "clear_of f k a n \<longleftrightarrow> {a..<a + n} \<inter> {unat (k_data f)..<unat (k_data f) + 2 ^ k} = {}"

lemma masked: "unat (x AND (2 ^ k - 1)) = unat x mod 2 ^ k" for x :: "32 word"
proof -
  have "x AND (2 ^ k - 1) = take_bit k x" by (simp add: take_bit_eq_mask mask_eq_exp_minus_1)
  then have "unat (x AND (2 ^ k - 1)) = take_bit k (unat x)" by (simp only: unsigned_take_bit_eq)
  then show ?thesis by (simp only: take_bit_eq_mod)
qed

lemma unat_pow:
  assumes "k < 32"
  shows "unat (2 ^ k :: 32 word) = 2 ^ k"
proof -
  have "(2::nat) ^ k < 2 ^ 32" using assms by (simp only: power_strict_increasing_iff)
  then show ?thesis using unat_of_nat [of "2 ^ k", where 'a = 32] by simp
qed

lemma mod_wrap: "k \<le> 32 \<Longrightarrow> unat (x + y) mod 2 ^ k = (unat x + unat y) mod 2 ^ k" for x y :: "32 word"
  using mod_mod_cancel [OF le_imp_power_dvd [of k 32 2]] by (simp add: unat_word_ariths)

text \<open>The position \<open>d\<close> bytes after the index \<open>x\<close>.\<close>

lemma ring_pos:
  fixes r d N :: nat
  assumes "d < N"
  shows "(x + d) mod N = (if x mod N + d < N then x mod N + d else x mod N + d - N)"
proof -
  have r: "x mod N < N" using assms by simp
  have "(x + d) mod N = (x mod N + d) mod N" by (simp add: mod_add_left_eq)
  also have "\<dots> = (if x mod N + d < N then x mod N + d else x mod N + d - N)"
  proof (cases "x mod N + d < N")
    case False
    moreover have "x mod N + d - N < N" using r assms by linarith
    ultimately show ?thesis using mod_less [of "x mod N + d - N" N] le_mod_geq [of N "x mod N + d"] by (metis not_less)
  qed simp
  finally show ?thesis .
qed

section \<open>Copying\<close>

lemma memcpy_at: "memcpy m a f n x = (if a \<le> x \<and> x < a + n then f (x - a) else m x)"
  by (simp add: memcpy_def)

text \<open>The two copies into the ring, and out of it, in terms of the position.\<close>

lemma copy_ring_in:
  fixes N :: nat and m :: memory
  assumes "n \<le> N" and dj: "{src..<src + n} \<inter> {b..<b + N} = {}" and l: "l = min n (N - x mod N)"
  defines "m' \<equiv> copy (copy m (b + x mod N) src l) b (src + l) (n - l)"
  shows "d < N \<Longrightarrow> m' (b + (x + d) mod N) = (if d < n then m (src + d) else m (b + (x + d) mod N))"
    and "a \<notin> {b..<b + N} \<Longrightarrow> m' a = m a"
proof -
  let ?r = "x mod N"
  have src: "d < n \<Longrightarrow> src + d \<notin> {b..<b + N}" for d using dj by fastforce
  have m': "m' a = (if b \<le> a \<and> a < b + (n - l)
      then (if b + ?r \<le> src + l + (a - b) \<and> src + l + (a - b) < b + ?r + l then m (src + (src + l + (a - b) - (b + ?r)))
            else m (src + l + (a - b)))
      else if b + ?r \<le> a \<and> a < b + ?r + l then m (src + (a - (b + ?r))) else m a)" for a
    by (simp only: m'_def copy_def memcpy_at)
  have ll: "l \<le> n" "l \<le> N - ?r" using l by simp_all
  show "m' a = m a" if "a \<notin> {b..<b + N}"
  proof -
    have "\<not> (b \<le> a \<and> a < b + (n - l))" using that assms(1) by auto
    moreover have "\<not> (b + ?r \<le> a \<and> a < b + ?r + l)"
    proof
      assume "b + ?r \<le> a \<and> a < b + ?r + l"
      then have "b \<le> a" "a < b + N" using ll(2) by linarith+
      then show False using that by simp
    qed
    ultimately show ?thesis by (simp only: m' if_False)
  qed
  assume d: "d < N"
  have r: "?r < N" using d by simp
  have nl: "n - l \<le> ?r" using assms(1) r l by auto
  have nr: "\<not> (b + ?r \<le> src + l + i \<and> src + l + i < b + ?r + l)" if "i < n - l" for i
  proof
    assume a: "b + ?r \<le> src + l + i \<and> src + l + i < b + ?r + l"
    have "b \<le> src + (l + i)" "src + (l + i) < b + N" "l + i < n" using a ll(2) r that by linarith+
    then show False using src [of "l + i"] by simp
  qed
  have wrapped: "m' (b + j) = m (src + l + j)" if "j < n - l" for j
    using that nr [OF that]
    by (simp only: m' add_diff_cancel_left' le_add1 nat_add_left_cancel_less simp_thms if_True if_False)
  have first: "m' (b + (?r + i)) = m (src + i)" if "i < l" for i
  proof -
    have "\<not> b + (?r + i) < b + (n - l)" "b + ?r \<le> b + (?r + i)" "b + (?r + i) < b + ?r + l"
      "b + (?r + i) - (b + ?r) = i" using that nl by linarith+
    then show ?thesis by (simp only: m' simp_thms if_True if_False)
  qed
  have rest: "m' (b + j) = m (b + j)" if "\<not> j < n - l" "\<not> (?r \<le> j \<and> j < ?r + l)" for j
  proof -
    have "\<not> b + j < b + (n - l)" "\<not> (b + ?r \<le> b + j \<and> b + j < b + ?r + l)" using that by linarith+
    then show ?thesis by (simp only: m' simp_thms if_False)
  qed
  show "m' (b + (x + d) mod N) = (if d < n then m (src + d) else m (b + (x + d) mod N))"
  proof (cases "?r + d < N")
    case True
    then have p: "(x + d) mod N = ?r + d" using ring_pos [OF d] by simp
    show ?thesis
    proof (cases "d < l")
      case dl: True
      then have "d < n" using ll(1) by linarith
      then show ?thesis using first [OF dl] p by (simp only: if_True)
    next
      case False
      then have "\<not> d < n" using l True by (simp add: min_def split: if_splits)
      then show ?thesis using rest [of "?r + d"] False nl p by simp
    qed
  next
    case False
    then have p: "(x + d) mod N = ?r + d - N" using ring_pos [OF d] by simp
    have q: "?r + d - N < ?r" using d False by linarith
    show ?thesis
    proof (cases "d < n")
      case True
      then have lr: "l = N - ?r" using False l by simp
      then have "?r + d - N < n - l" "src + l + (?r + d - N) = src + d" using False True r by linarith+
      then show ?thesis using wrapped [of "?r + d - N"] p True by (simp only: if_True)
    next
      case n: False
      then have "\<not> ?r + d - N < n - l" using False l r by (simp add: min_def split: if_splits)
      then show ?thesis using rest [of "?r + d - N"] q n p by simp
    qed
  qed
qed

lemma copy_ring_out:
  fixes N :: nat and m :: memory
  assumes "n \<le> N" and dj: "{dst..<dst + n} \<inter> {b..<b + N} = {}" and l: "l = min n (N - x mod N)" and "0 < N"
  defines "m' \<equiv> copy (copy m dst (b + x mod N) l) (dst + l) b (n - l)"
  shows "d < n \<Longrightarrow> m' (dst + d) = m (b + (x + d) mod N)" and "a \<notin> {dst..<dst + n} \<Longrightarrow> m' a = m a"
proof -
  let ?r = "x mod N"
  have r: "?r < N" using assms(4) by simp
  have nl: "n - l \<le> ?r" using assms(1) r l by auto
  have ring: "b + i \<notin> {dst..<dst + n}" if "i < N" for i using dj that by fastforce
  have m': "m' a = (if dst + l \<le> a \<and> a < dst + l + (n - l)
      then (if dst \<le> b + (a - (dst + l)) \<and> b + (a - (dst + l)) < dst + l then m (b + ?r + (b + (a - (dst + l)) - dst))
            else m (b + (a - (dst + l))))
      else if dst \<le> a \<and> a < dst + l then m (b + ?r + (a - dst)) else m a)" for a
    by (simp only: m'_def copy_def memcpy_at)
  show "m' a = m a" if "a \<notin> {dst..<dst + n}" using that l by (auto simp: m')
  assume d: "d < n"
  have dN: "d < N" using d assms(1) by simp
  show "m' (dst + d) = m (b + (x + d) mod N)"
  proof (cases "d < l")
    case True
    then have "?r + d < N" using l by auto
    then have "(x + d) mod N = ?r + d" using ring_pos [OF dN] by simp
    then show ?thesis using True by (simp add: m' add.assoc)
  next
    case False
    then have *: "l = N - ?r" using l d by auto
    then have "(x + d) mod N = ?r + d - N" using ring_pos [OF dN] False by auto
    moreover have "d - l = ?r + d - N" using * False r by linarith
    moreover have "\<not> (dst \<le> b + (d - l) \<and> b + (d - l) < dst + l)"
    proof
      assume a: "dst \<le> b + (d - l) \<and> b + (d - l) < dst + l"
      have "dst \<le> b + (d - l)" "b + (d - l) < dst + n" "d - l < N" using a l dN by linarith+
      then show False using ring [of "d - l"] by simp
    qed
    ultimately show ?thesis using False d by (auto simp add: m')
  qed
qed

section \<open>Each operation\<close>

lemma fifo_okD:
  assumes "fifo_ok f k"
  shows "0 < k" "k < 32" "k_mask f = 2 ^ k - 1" "k_size f = 2 ^ k" "k_mask f + 1 = 2 ^ k"
    "unat (k_in f - k_out f) \<le> 2 ^ k" "k_free_bytes f = k_size f - (k_in f - k_out f)"
  using assms by (simp_all add: fifo_ok_def)

lemma fifo_split:
  fixes off len :: "32 word"
  assumes ok: "fifo_ok f k"
  defines "o' \<equiv> off AND k_mask f" and "l \<equiv> min len (k_mask f + 1 - (off AND k_mask f))"
  shows "unat o' = unat off mod 2 ^ k" "unat l = min (unat len) (2 ^ k - unat off mod 2 ^ k)"
    "unat (len - l) = unat len - unat l"
proof -
  note d = fifo_okD [OF ok]
  show o: "unat o' = unat off mod 2 ^ k" by (simp only: o'_def d(3) masked)
  have "unat o' \<le> unat (2 ^ k :: 32 word)" by (simp add: o unat_pow d(2) less_imp_le)
  then have "unat (k_mask f + 1 - o') = 2 ^ k - unat o'"
    by (simp add: d(2,5) unat_pow unat_sub word_le_nat_alt)
  then show "unat l = min (unat len) (2 ^ k - unat off mod 2 ^ k)"
    by (simp add: l_def o'_def [symmetric] o min_def word_le_nat_alt)
  have "l \<le> len" by (simp add: l_def)
  then show "unat (len - l) = unat len - unat l" by (simp add: unat_sub word_le_nat_alt)
qed

lemma length_fifo_bytes [simp]: "length (fifo_bytes f k m) = unat (k_in f - k_out f)"
  by (simp add: fifo_bytes_def)

lemma clear_ofD:
  assumes "clear_of f k a n"
  shows "m \<le> n \<Longrightarrow> {a..<a + m} \<inter> {unat (k_data f)..<unat (k_data f) + 2 ^ k} = {}"
  using assms by (auto simp: clear_of_def)

lemma fifo_copy_in_effect:
  fixes s :: kernel and off :: "32 word"
  assumes ok: "fifo_ok f k" and "unat len \<le> 2 ^ k" and c: "clear_of f k (unat src) (unat len)"
  defines "s' \<equiv> fifo_copy_in f src len off s"
  shows "d < 2 ^ k \<Longrightarrow> mem s' (unat (k_data f) + (unat off + d) mod 2 ^ k) =
      (if d < unat len then mem s (unat src + d) else mem s (unat (k_data f) + (unat off + d) mod 2 ^ k))"
    and "a \<notin> {unat (k_data f)..<unat (k_data f) + 2 ^ k} \<Longrightarrow> mem s' a = mem s a"
    and "s' = s\<lparr>mem := mem s'\<rparr>"
  using copy_ring_in [OF assms(2) clear_ofD [OF c order_refl] fifo_split(2) [OF ok, of len off], of d "mem s"]
    copy_ring_in(2) [OF assms(2) clear_ofD [OF c order_refl] fifo_split(2) [OF ok, of len off], of a "mem s"]
  by (simp_all add: s'_def fifo_copy_in_def Let_def fifo_split [OF ok])

lemma kfifo_copy_out_effect:
  fixes s :: kernel and off :: "32 word"
  assumes ok: "fifo_ok f k" and "unat len \<le> 2 ^ k" and c: "clear_of f k (unat dst) (unat len)"
  defines "s' \<equiv> kfifo_copy_out f dst len off s"
  shows "d < unat len \<Longrightarrow> mem s' (unat dst + d) = mem s (unat (k_data f) + (unat off + d) mod 2 ^ k)"
    and "a \<notin> {unat dst..<unat dst + unat len} \<Longrightarrow> mem s' a = mem s a"
    and "s' = s\<lparr>mem := mem s'\<rparr>"
  using copy_ring_out [OF assms(2) clear_ofD [OF c order_refl] fifo_split(2) [OF ok, of len off], where m = "mem s"]
  by (simp_all add: s'_def kfifo_copy_out_def Let_def fifo_split [OF ok])

lemma fifo_copy_critical:
  "(fifo_copy_in f src len off (s\<lparr>irq_off := b\<rparr>))\<lparr>irq_off := irq_off s\<rparr> = fifo_copy_in f src len off s"
  "(kfifo_copy_out f src len off (s\<lparr>irq_off := b\<rparr>))\<lparr>irq_off := irq_off s\<rparr> = kfifo_copy_out f src len off s"
  by (simp_all add: fifo_copy_in_def kfifo_copy_out_def Let_def)

lemma clear_of_le: "clear_of f k a n \<Longrightarrow> m \<le> n \<Longrightarrow> clear_of f k a m"
  by (auto simp: clear_of_def)

lemma fifo_in_effect:
  assumes ok: "fifo_ok f k" and cl: "clear_of f k (unat buf) (unat len)" and r: "fifo_in f buf len s = (n, f', s')"
  shows "unat n = min (unat len) (2 ^ k - length (fifo_bytes f k (mem s)))"
    and "fifo_ok f' k" and "k_data f' = k_data f"
    and "fifo_bytes f' k (mem s') = fifo_bytes f k (mem s) @ bytes_at (mem s) (unat buf) (unat n)"
    and "s' = s\<lparr>mem := mem s'\<rparr>"
    and "a \<notin> {unat (k_data f)..<unat (k_data f) + 2 ^ k} \<Longrightarrow> mem s' a = mem s a"
proof -
  note d = fifo_okD [OF ok]
  define c where "c = unat (k_in f - k_out f)"
  have N: "unat (2 ^ k :: 32 word) = 2 ^ k" by (rule unat_pow [OF d(2)])
  have un: "unat (fifo_unused f) = 2 ^ k - c"
    using d(6) N by (simp add: fifo_unused_def d(5) unat_sub word_le_nat_alt c_def)
  have n: "n = min len (fifo_unused f)" and f': "f' = f\<lparr>k_in := k_in f + n, k_free_bytes := k_free_bytes f - n\<rparr>"
    and s': "s' = fifo_copy_in f buf n (k_in f) s"
    using r by (auto simp: fifo_in_def Let_def RHINO_CRITICAL_ENTER_def RHINO_CRITICAL_EXIT_def min_def fifo_copy_critical)
  show un: "unat n = min (unat len) (2 ^ k - length (fifo_bytes f k (mem s)))"
    by (simp add: n min_def word_le_nat_alt un c_def)
  show "k_data f' = k_data f" by (simp add: f')
  have ko: "k_out f' = k_out f" by (simp add: f')
  have cn: "c + unat n \<le> 2 ^ k" using un d(6) by (simp add: c_def)
  have "k_in f' - k_out f' = (k_in f - k_out f) + n" by (simp add: f')
  moreover have "c + unat n < 2 ^ 32" using cn unsigned_less [of "2 ^ k :: 32 word", where 'a = nat] N by simp
  ultimately have c': "unat (k_in f' - k_out f') = c + unat n" by (simp add: unat_word_ariths c_def)
  then show "fifo_ok f' k" using ok cn by (simp add: fifo_ok_def f')
  have "unat n \<le> unat len" using un by simp
  note e = fifo_copy_in_effect [OF ok _ clear_of_le [OF cl this], where off = "k_in f" and s = s]
  have le: "unat n \<le> 2 ^ k" using cn by simp
  show "s' = s\<lparr>mem := mem s'\<rparr>" unfolding s' by (rule e(3) [OF le])
  show "a \<notin> {unat (k_data f)..<unat (k_data f) + 2 ^ k} \<Longrightarrow> mem s' a = mem s a"
    using e(2) [OF le, of a] by (simp add: s')
  have "unat (k_in f) mod 2 ^ k = (unat (k_out f) + c) mod 2 ^ k"
    using mod_wrap [of k "k_out f" "k_in f - k_out f"] d(2) by (simp add: c_def)
  then have pos: "(unat (k_in f) + d) mod 2 ^ k = (unat (k_out f) + (c + d)) mod 2 ^ k" for d
    by (metis mod_add_left_eq add.assoc)
  show "fifo_bytes f' k (mem s') = fifo_bytes f k (mem s) @ bytes_at (mem s) (unat buf) (unat n)"
  proof (rule nth_equalityI)
    fix i assume "i < length (fifo_bytes f' k (mem s'))"
    then have i: "i < c + unat n" by (simp add: c')
    then have l: "fifo_bytes f' k (mem s') ! i = mem s' (unat (k_data f) + (unat (k_out f) + i) mod 2 ^ k)"
      using \<open>k_data f' = k_data f\<close> by (simp add: fifo_bytes_def c' flip: ko)
    show "fifo_bytes f' k (mem s') ! i = (fifo_bytes f k (mem s) @ bytes_at (mem s) (unat buf) (unat n)) ! i"
    proof (cases "i < c")
      case True
      define d' where "d' = 2 ^ k - c + i"
      have d': "d' < 2 ^ k" "\<not> d' < unat n" "unat (k_out f) + (c + d') = unat (k_out f) + i + 2 ^ k"
        using cn True by (simp_all add: d'_def)
      then have "(unat (k_in f) + d') mod 2 ^ k = (unat (k_out f) + i) mod 2 ^ k" by (simp only: pos mod_add_self2)
      then show ?thesis
        using e(1) [OF le d'(1)] l True d' by (simp add: s' nth_append c_def [symmetric] fifo_bytes_def)
    next
      case False
      then obtain j where j: "i = c + j" using nat_le_iff_add not_less by blast
      then have "j < unat n" "j < 2 ^ k" using i cn by simp_all
      then show ?thesis
        using e(1) [OF le, of j] l by (simp add: j s' nth_append c_def [symmetric] pos bytes_at_def)
    qed
  qed (simp add: c' c_def bytes_at_def)
qed

lemma fifo_peek_effect:
  assumes ok: "fifo_ok f k" and cl: "clear_of f k (unat buf) (min (unat len) (2 ^ k))"
    and r: "internal_fifo_out_peek f buf len s = (n, s')"
  shows "unat n = min (unat len) (length (fifo_bytes f k (mem s)))"
    and "bytes_at (mem s') (unat buf) (unat n) = take (unat n) (fifo_bytes f k (mem s))"
    and "fifo_bytes f k (mem s') = fifo_bytes f k (mem s)" and "s' = s\<lparr>mem := mem s'\<rparr>"
proof -
  note d = fifo_okD [OF ok]
  have n: "n = min len (k_in f - k_out f)" and s': "s' = kfifo_copy_out f buf n (k_out f) s"
    using r by (auto simp: internal_fifo_out_peek_def Let_def min_def)
  show un: "unat n = min (unat len) (length (fifo_bytes f k (mem s)))"
    by (simp add: n min_def word_le_nat_alt)
  then have le: "unat n \<le> 2 ^ k" using d(6) by simp
  have c: "clear_of f k (unat buf) (unat n)" by (rule clear_of_le [OF cl]) (use un le in simp)
  note e = kfifo_copy_out_effect [OF ok le c, where off = "k_out f" and s = s, folded s']
  show "bytes_at (mem s') (unat buf) (unat n) = take (unat n) (fifo_bytes f k (mem s))"
    by (rule nth_equalityI) (use un e(1) in \<open>simp_all add: bytes_at_def fifo_bytes_def\<close>)
  have "unat (k_data f) + x mod 2 ^ k \<notin> {unat buf..<unat buf + unat n}" for x
  proof -
    have "unat (k_data f) + x mod 2 ^ k \<in> {unat (k_data f)..<unat (k_data f) + 2 ^ k}" by simp
    then show ?thesis using c unfolding clear_of_def by blast
  qed
  then show "fifo_bytes f k (mem s') = fifo_bytes f k (mem s)" unfolding fifo_bytes_def by (simp only: e(2) not_False_eq_True)
  show "s' = s\<lparr>mem := mem s'\<rparr>" by (rule e(3))
qed

lemma fifo_out_steps:
  assumes "internal_fifo_out_peek f buf len s = (n, s')"
  shows "fifo_out_peek f buf len s = (n, s')"
    and "fifo_out f buf len s = (n, f\<lparr>k_out := k_out f + n, k_free_bytes := k_free_bytes f + n\<rparr>, s')"
  using assms
  by (auto simp: fifo_out_peek_def fifo_out_def internal_fifo_out_peek_def Let_def RHINO_CRITICAL_ENTER_def
      RHINO_CRITICAL_EXIT_def fifo_copy_critical)

lemma kfifo_copy_out_none: "kfifo_copy_out f dst 0 off s = s"
proof -
  have "copy m a b 0 = m" for m a b by (rule ext) (auto simp: copy_def memcpy_at)
  then show ?thesis by (simp add: kfifo_copy_out_def min_def Let_def)
qed

text \<open>Taking everything is taking as much as there is.\<close>

lemma fifo_out_all_eq:
  assumes "fifo_ok f k"
  shows "fifo_out_all f buf s = fifo_out f buf (k_in f - k_out f) s"
proof -
  have len: "k_size f - k_free_bytes f = k_in f - k_out f" using fifo_okD(7) [OF assms] by simp
  show ?thesis
  proof (cases "k_in f = k_out f")
    case True
    then show ?thesis
      by (simp add: fifo_out_all_def fifo_out_def internal_fifo_out_peek_def kfifo_copy_out_none Let_def len)
  next
    case False
    then show ?thesis by (simp add: fifo_out_all_def fifo_out_def Let_def len case_prod_beta)
  qed
qed

lemma fifo_out_effect:
  assumes ok: "fifo_ok f k" and cl: "clear_of f k (unat buf) (min (unat len) (2 ^ k))"
    and r: "fifo_out f buf len s = (n, f', s')"
  shows "unat n = min (unat len) (length (fifo_bytes f k (mem s)))"
    and "fifo_ok f' k" and "k_data f' = k_data f"
    and "fifo_bytes f k (mem s) = bytes_at (mem s') (unat buf) (unat n) @ fifo_bytes f' k (mem s')"
proof -
  obtain m t where p: "internal_fifo_out_peek f buf len s = (m, t)" by fastforce
  have mt: "m = n" "t = s'" and f': "f' = f\<lparr>k_out := k_out f + n, k_free_bytes := k_free_bytes f + n\<rparr>"
    using fifo_out_steps(2) [OF p] r by simp_all
  note e = fifo_peek_effect [OF ok cl p, unfolded mt]
  show un: "unat n = min (unat len) (length (fifo_bytes f k (mem s)))" by (rule e(1))
  then have "n \<le> k_in f - k_out f" by (simp add: word_le_nat_alt)
  moreover have "k_in f' - k_out f' = (k_in f - k_out f) - n" by (simp add: f')
  ultimately have c': "unat (k_in f' - k_out f') = unat (k_in f - k_out f) - unat n"
    by (simp add: unat_sub word_le_nat_alt)
  then show "fifo_ok f' k" using ok by (simp add: fifo_ok_def f' le_diff_conv trans_le_add1)
  show kd: "k_data f' = k_data f" by (simp add: f')
  have ko: "unat (k_out f') mod 2 ^ k = (unat (k_out f) + unat n) mod 2 ^ k"
    using mod_wrap [of k "k_out f" n] fifo_okD(2) [OF ok] by (simp add: f')
  have "fifo_bytes f' k (mem s') = drop (unat n) (fifo_bytes f k (mem s'))"
  proof (rule nth_equalityI)
    fix i assume "i < length (fifo_bytes f' k (mem s'))"
    then have "i < unat (k_in f - k_out f) - unat n" by (simp only: length_fifo_bytes c')
    moreover from this have "unat n + i < unat (k_in f - k_out f)" by simp
    ultimately show "fifo_bytes f' k (mem s') ! i = drop (unat n) (fifo_bytes f k (mem s')) ! i"
      using mod_add_cong [OF ko refl, of i] by (simp add: fifo_bytes_def c' kd add.assoc)
  qed (simp add: c')
  then show "fifo_bytes f k (mem s) = bytes_at (mem s') (unat buf) (unat n) @ fifo_bytes f' k (mem s')"
    using e(2,3) by simp
qed

section \<open>Sizes\<close>

lemma power_of_2_nat:
  fixes a :: nat
  assumes "0 < a" and "a AND (a - 1) = 0"
  shows "\<exists>k. a = 2 ^ k"
proof -
  obtain k c where a: "a = 2 ^ k * (2 * c + 1)"
  proof -
    have "\<exists>k c. a = 2 ^ k * (2 * c + 1)" using assms(1)
    proof (induction a rule: less_induct)
      case (less a)
      show ?case
      proof (cases "even a")
        case True
        then obtain b where b: "a = 2 * b" by blast
        then obtain k c where "b = 2 ^ k * (2 * c + 1)" using less.IH [of b] less.prems by auto
        then have "a = 2 ^ Suc k * (2 * c + 1)" using b by simp
        then show ?thesis by blast
      next
        case False
        then obtain c where "a = 2 * c + 1" by (blast elim: oddE)
        then have "a = 2 ^ 0 * (2 * c + 1)" by simp
        then show ?thesis by blast
      qed
    qed
    then show thesis using that by blast
  qed
  have lt: "(2::nat) ^ k < 2 ^ Suc k" "(2::nat) ^ k - 1 < 2 ^ Suc k" by (simp_all add: less_imp_diff_less)
  have "a = c * 2 ^ Suc k + 2 ^ k" "a - 1 = c * 2 ^ Suc k + (2 ^ k - 1)"
    by (simp_all add: a algebra_simps)
  moreover have "(c * 2 ^ Suc k + r) div 2 ^ Suc k = c" if "r < 2 ^ Suc k" for r
    using that by (simp del: power_Suc)
  ultimately have "a div 2 ^ Suc k = c" "(a - 1) div 2 ^ Suc k = c" by (simp_all only: lt)
  then have "c AND c = drop_bit (Suc k) (a AND (a - 1))" unfolding drop_bit_and by (simp only: drop_bit_eq_div)
  then have "c = 0" unfolding assms(2) by simp
  then show ?thesis using a by auto
qed

lemma is_power_of_2_iff: "is_power_of_2 n \<Longrightarrow> \<exists>k<32. n = 2 ^ k"
proof -
  assume p: "is_power_of_2 n"
  then have n: "0 < unat n" by (simp add: is_power_of_2_def unat_gt_0)
  then have "unat (n - 1) = unat n - 1" using unat_sub [of 1 n] by (simp add: word_le_nat_alt)
  then have "unat n AND (unat n - 1) = 0" using p by (metis is_power_of_2_def unsigned_and_eq unsigned_0)
  then obtain k where k: "unat n = 2 ^ k" using power_of_2_nat n by blast
  have "(2::nat) ^ k < 2 ^ 32" using unsigned_less [of n, where 'a = nat] k by simp
  then have "k < 32" by (simp only: power_strict_increasing_iff)
  moreover have "n = 2 ^ k" using k unat_pow [OF \<open>k < 32\<close>] by (simp add: word_unat_eq_iff)
  ultimately show ?thesis by blast
qed

lemma fifo_init_ok:
  assumes "fifo_init f buffer sz = (0, f')"
  shows "\<exists>k. sz = 2 ^ k \<and> unat sz = 2 ^ k \<and> fifo_ok f' k \<and> k_data f' = buffer \<and> fifo_bytes f' k m = []"
proof -
  have p: "is_power_of_2 sz" "\<not> sz < 2"
    and f': "f' = f\<lparr>k_in := 0, k_out := 0, k_data := buffer, k_mask := sz - 1, k_free_bytes := sz, k_size := sz\<rparr>"
    using assms by (auto simp: fifo_init_def Let_def split: if_splits)
  obtain k where k: "k < 32" "sz = 2 ^ k" using is_power_of_2_iff [OF p(1)] by blast
  have "0 < k" using p(2) k by (cases k) auto
  then show ?thesis using k unat_pow [OF k(1)] by (intro exI [of _ k]) (simp add: fifo_ok_def f' fifo_bytes_def)
qed

section \<open>The fifo as a byte stream\<close>

text \<open>
  A sequence of calls, and of stores by the application to memory outside the buffer. The run
  records the bytes that were accepted and the bytes that were delivered.
\<close>

datatype kfifo_op = In ptr "32 word" | Out ptr "32 word" | Peek ptr "32 word" | Out_all ptr | Store nat byte

fun fifo_step :: "kfifo_op \<Rightarrow> k_fifo \<Rightarrow> kernel \<Rightarrow> byte list \<times> byte list \<times> k_fifo \<times> kernel" where
  "fifo_step (In a n) f s = (let (r, f', s') = fifo_in f a n s in (bytes_at (mem s) (unat a) (unat r), [], f', s'))"
| "fifo_step (Out a n) f s = (let (r, f', s') = fifo_out f a n s in ([], bytes_at (mem s') (unat a) (unat r), f', s'))"
| "fifo_step (Peek a n) f s = (let (r, s') = fifo_out_peek f a n s in ([], [], f, s'))"
| "fifo_step (Out_all a) f s = (let (r, f', s') = fifo_out_all f a s in ([], bytes_at (mem s') (unat a) (unat r), f', s'))"
| "fifo_step (Store a b) f s = ([], [], f, s\<lparr>mem := (mem s)(a := b)\<rparr>)"

fun fifo_ops :: "kfifo_op list \<Rightarrow> k_fifo \<Rightarrow> kernel \<Rightarrow> byte list \<times> byte list \<times> k_fifo \<times> kernel" where
  "fifo_ops [] f s = ([], [], f, s)"
| "fifo_ops (p # ps) f s =
     (let (i, d, f, s) = fifo_step p f s; (is, os, f, s) = fifo_ops ps f s in (i @ is, d @ os, f, s))"

text \<open>The memory a call reads or writes apart from the buffer.\<close>

fun area :: "nat \<Rightarrow> kfifo_op \<Rightarrow> nat set" where
  "area N (In a n) = {unat a..<unat a + unat n}"
| "area N (Out a n) = {unat a..<unat a + min (unat n) N}"
| "area N (Peek a n) = {unat a..<unat a + min (unat n) N}"
| "area N (Out_all a) = {unat a..<unat a + N}"
| "area N (Store a b) = {a}"

lemma fifo_step_stream:
  assumes ok: "fifo_ok f k" and cl: "area (2 ^ k) p \<inter> {unat (k_data f)..<unat (k_data f) + 2 ^ k} = {}"
    and r: "fifo_step p f s = (i, d, f', s')"
  shows "fifo_ok f' k \<and> k_data f' = k_data f \<and>
    fifo_bytes f k (mem s) @ i = d @ fifo_bytes f' k (mem s')"
proof (cases p)
  case (In a n)
  then obtain r where r': "fifo_in f a n s = (r, f', s')" "i = bytes_at (mem s) (unat a) (unat r)" "d = []"
    using r by (auto simp: Let_def split: prod.splits)
  have "clear_of f k (unat a) (unat n)" using cl In by (simp add: clear_of_def)
  then show ?thesis using fifo_in_effect(2-4) [OF ok _ r'(1)] r' by simp
next
  case (Out a n)
  then obtain r where r': "fifo_out f a n s = (r, f', s')" "d = bytes_at (mem s') (unat a) (unat r)" "i = []"
    using r by (auto simp: Let_def split: prod.splits)
  have "clear_of f k (unat a) (min (unat n) (2 ^ k))" using cl Out by (simp add: clear_of_def)
  then show ?thesis using fifo_out_effect(2-4) [OF ok _ r'(1)] r' by simp
next
  case (Peek a n)
  obtain m t where p: "internal_fifo_out_peek f a n s = (m, t)" by fastforce
  have "clear_of f k (unat a) (min (unat n) (2 ^ k))" using cl Peek by (simp add: clear_of_def)
  then show ?thesis
    using fifo_peek_effect(3) [OF ok _ p] fifo_out_steps(1) [OF p] r Peek ok by auto
next
  case (Out_all a)
  then obtain r where r': "fifo_out f a (k_in f - k_out f) s = (r, f', s')" "d = bytes_at (mem s') (unat a) (unat r)" "i = []"
    using r by (auto simp: Let_def fifo_out_all_eq [OF ok] split: prod.splits)
  have "clear_of f k (unat a) (min (unat (k_in f - k_out f)) (2 ^ k))" using cl Out_all by (auto simp: clear_of_def)
  then show ?thesis using fifo_out_effect(2-4) [OF ok _ r'(1)] r' by simp
next
  case (Store a b)
  have "unat (k_data f) + x mod 2 ^ k \<noteq> a" for x
    using cl Store by (metis Int_iff area.simps(5) atLeastLessThan_iff empty_iff insert_iff le_add1 mod_less_divisor
        nat_add_left_cancel_less zero_less_numeral zero_less_power)
  then show ?thesis using r ok Store by (auto simp: fifo_bytes_def)
qed

lemma fifo_ops_stream:
  assumes "fifo_ok f k" and "\<forall>p \<in> set ps. area (2 ^ k) p \<inter> {unat (k_data f)..<unat (k_data f) + 2 ^ k} = {}"
    and "fifo_ops ps f s = (is, os, f', s')"
  shows "fifo_ok f' k \<and> fifo_bytes f k (mem s) @ is = os @ fifo_bytes f' k (mem s')"
  using assms
proof (induction ps arbitrary: f s "is" os)
  case (Cons p ps)
  obtain i d f1 s1 where p: "fifo_step p f s = (i, d, f1, s1)" by (cases "fifo_step p f s") auto
  obtain is1 os1 where q: "fifo_ops ps f1 s1 = (is1, os1, f', s')" and e: "is = i @ is1" "os = d @ os1"
    using Cons.prems(3) p by (auto simp: Let_def split: prod.splits)
  have 1: "fifo_ok f1 k" "k_data f1 = k_data f" "fifo_bytes f k (mem s) @ i = d @ fifo_bytes f1 k (mem s1)"
    using fifo_step_stream [OF Cons.prems(1) _ p] Cons.prems(2) by simp_all
  then show ?case using Cons.IH [OF 1(1) _ q] Cons.prems(2) e by (metis append.assoc list.set_intros(2))
qed simp

lemma fifo_amounts:
  assumes "fifo_ok f k"
  shows "unat (fst (fifo_in f a n s)) = min (unat n) (unat (k_free_bytes f))"
    and "unat (fst (fifo_out f a n s)) = min (unat n) (unat (k_in f - k_out f))"
    and "unat (k_in f - k_out f) + unat (k_free_bytes f) = 2 ^ k"
proof -
  note d = fifo_okD [OF assms]
  have "fifo_unused f = k_free_bytes f" using d by (simp add: fifo_unused_def)
  then show "unat (fst (fifo_in f a n s)) = min (unat n) (unat (k_free_bytes f))"
    by (simp add: fifo_in_def Let_def min_def word_le_nat_alt word_less_nat_alt)
  show "unat (fst (fifo_out f a n s)) = min (unat n) (unat (k_in f - k_out f))"
    by (simp add: fifo_out_def internal_fifo_out_peek_def Let_def min_def word_le_nat_alt word_less_nat_alt)
  show "unat (k_in f - k_out f) + unat (k_free_bytes f) = 2 ^ k"
    using d by (simp add: unat_sub word_le_nat_alt unat_pow)
qed

section \<open>Property\<close>

text \<open>
  C33: The byte fifo is a bounded stream. After its creation, for every sequence of calls and of
  stores outside the buffer, the bytes delivered are a prefix of the bytes accepted, the rest
  is in the buffer, and buffered and free bytes add up to the size; a call accepts as many bytes
  as are free and delivers as many as are there. The indices may wrap around at any time.
\<close>

theorem fifo_byte_stream:
  assumes "fifo_init f0 buffer sz = (0, f)"
    and "\<forall>p \<in> set ps. area (unat sz) p \<inter> {unat buffer..<unat buffer + unat sz} = {}"
    and "fifo_ops ps f s = (is, os, f', s')"
  shows "\<exists>rest. is = os @ rest \<and> length rest + unat (k_free_bytes f') = unat sz \<and>
    (\<forall>a n. unat (fst (fifo_in f' a n s')) = min (unat n) (unat (k_free_bytes f')) \<and>
           unat (fst (fifo_out f' a n s')) = min (unat n) (length rest))"
proof -
  obtain k where k: "unat sz = 2 ^ k" "fifo_ok f k" "k_data f = buffer" "fifo_bytes f k (mem s) = []"
    using fifo_init_ok [OF assms(1), of "mem s"] by blast
  have r: "fifo_ok f' k" "is = os @ fifo_bytes f' k (mem s')"
    using fifo_ops_stream [OF k(2) _ assms(3)] assms(2) k by simp_all
  note am = fifo_amounts [OF r(1)]
  have "length (fifo_bytes f' k (mem s')) + unat (k_free_bytes f') = unat sz" using am(3) k(1) by simp
  then show ?thesis using r(2) am(1,2) by (intro exI [of _ "fifo_bytes f' k (mem s')"]) simp
qed

theorem fifo_byte_stream_witness:
  "\<forall>s f0. case fifo_ops [Store 8192 7, Store 8193 9, In 8192 2, Out 12288 1] (snd (fifo_init f0 4096 4)) s of
     (is, os, f, s') \<Rightarrow> \<exists>rest. is = os @ rest \<and> length rest + unat (k_free_bytes f) = 4"
proof (intro allI)
  fix s :: kernel and f0
  define ps where "ps = [Store 8192 7, Store 8193 9, In 8192 2, Out 12288 1]"
  obtain f where f: "fifo_init f0 4096 4 = (0, f)" by (simp add: fifo_init_def is_power_of_2_def Let_def)
  obtain i d f' s' where r: "fifo_ops ps f s = (i, d, f', s')" by (metis prod_cases4)
  have "\<forall>p \<in> set ps. area (unat (4 :: 32 word)) p \<inter> {unat (4096 :: ptr)..<unat (4096 :: ptr) + unat (4 :: 32 word)} = {}"
    by (simp add: ps_def)
  from fifo_byte_stream [OF f this r] show "case fifo_ops [Store 8192 7, Store 8193 9, In 8192 2, Out 12288 1] (snd (fifo_init f0 4096 4)) s of
     (is, os, f, s') \<Rightarrow> \<exists>rest. is = os @ rest \<and> length rest + unat (k_free_bytes f) = 4"
    using r unfolding f ps_def by auto
qed

end
