(* ===== verification/Mblk.thy ===== *)
theory Mblk
  imports Queue_Fifo
begin

text \<open>
  Pools of memory blocks of one size (\<^verbatim>\<open>k_mm_blk.c\<close>, \<^verbatim>\<open>k_mm_blk.h\<close>). The free blocks form a list
  that is stored in the blocks themselves: the first four bytes of a free block are the
  address of the next one. The theorems show that the blocks handed out never overlap each
  other or the list, that exactly the blocks of the pool are handed out, and that creating
  a pool ends unless the size of a block is zero.
\<close>

unbundle bit_operations_syntax

section \<open>Model\<close>

record mblk_pool_t =
  pool_name :: ptr
  mblk_size :: size_t
  blk_avail :: size_t
  blk_whole :: size_t
  avail_list :: ptr

text \<open>The pools, and the list of the pools kept for statistics.\<close>

record mblk_state =
  pools :: "ptr \<Rightarrow> mblk_pool_t"
  mblkpool_head :: "ptr list"

definition upd_pool :: "ptr \<Rightarrow> (mblk_pool_t \<Rightarrow> mblk_pool_t) \<Rightarrow> mblk_state \<Rightarrow> mblk_state" where
  "upd_pool p f ms = ms\<lparr>pools := (pools ms)(p := f (pools ms p))\<rparr>"

text \<open>
  The loop of \<^verbatim>\<open>krhino_mblk_pool_init\<close> that links the blocks. The result \<open>None\<close> means that it
  does not end.
\<close>

partial_function (option) mblk_link ::
  "size_t \<Rightarrow> ptr \<Rightarrow> 32 word \<Rightarrow> ptr \<Rightarrow> ptr \<Rightarrow> memory \<Rightarrow> (32 word \<times> ptr \<times> ptr \<times> memory) option" where
  "mblk_link bsize pool_end n blk_cur blk_next m =
     (if blk_next < pool_end
      then mblk_link bsize pool_end (n + 1) blk_next (blk_next + bsize) (store_ptr m (unat blk_cur) blk_next)
      else Some (n, blk_cur, blk_next, m))"

definition krhino_mblk_pool_init ::
  "ptr \<Rightarrow> ptr \<Rightarrow> ptr \<Rightarrow> size_t \<Rightarrow> size_t \<Rightarrow> mblk_state \<times> kernel \<Rightarrow> (kstat_t \<times> mblk_state \<times> kernel) option" where
  "krhino_mblk_pool_init pool name pool_start bsize pool_size = (\<lambda>(ms, s).
     if pool = NULL then Some (RHINO_NULL_PTR, ms, s)
     else if name = NULL then Some (RHINO_NULL_PTR, ms, s)
     else if pool_start = NULL then Some (RHINO_NULL_PTR, ms, s)
     else if pool_size < push_bit 1 bsize then Some (RHINO_BLK_POOL_SIZE_ERR, ms, s)
     else
       let addr_align_mask = 3 in
       if pool_start AND addr_align_mask > 0 then Some (RHINO_INV_ALIGN, ms, s)
       else if bsize AND addr_align_mask > 0 then Some (RHINO_INV_ALIGN, ms, s)
       else if pool_size AND addr_align_mask > 0 then Some (RHINO_INV_ALIGN, ms, s)
       else
         let pool_end = pool_start + pool_size in
         case mblk_link bsize pool_end 0 pool_start (pool_start + bsize) (mem s) of
           None \<Rightarrow> None
         | Some (n, blk_cur, blk_next, m) \<Rightarrow>
             let n = (if blk_next = pool_end then n + 1 else n);
                 s = s\<lparr>mem := store_ptr m (unat blk_cur) NULL\<rparr>;
                 ms = upd_pool pool (\<lambda>_. \<lparr>pool_name = name, mblk_size = bsize, blk_avail = n,
                        blk_whole = n, avail_list = pool_start\<rparr>) ms;
                 cpsr = irq_off s;
                 s = RHINO_CRITICAL_ENTER s;
                 ms = ms\<lparr>mblkpool_head := mblkpool_head ms @ [pool]\<rparr>
             in Some (RHINO_SUCCESS, ms, RHINO_CRITICAL_EXIT cpsr s))"

definition krhino_mblk_alloc :: "ptr \<Rightarrow> ptr \<Rightarrow> mblk_state \<times> kernel \<Rightarrow> kstat_t \<times> mblk_state \<times> kernel" where
  "krhino_mblk_alloc pool blk = (\<lambda>(ms, s).
     if pool = NULL then (RHINO_NULL_PTR, ms, s)
     else if blk = NULL then (RHINO_NULL_PTR, ms, s)
     else
       let cpsr = irq_off s;
           s = RHINO_CRITICAL_ENTER s in
       if blk_avail (pools ms pool) > 0 then
         let avail_blk = avail_list (pools ms pool);
             s = s\<lparr>mem := store_ptr (mem s) (unat blk) avail_blk\<rparr>;
             ms = upd_pool pool (\<lambda>p. p\<lparr>avail_list := load_ptr (mem s) (unat avail_blk)\<rparr>) ms;
             ms = upd_pool pool (\<lambda>p. p\<lparr>blk_avail := blk_avail p - 1\<rparr>) ms
         in (RHINO_SUCCESS, ms, RHINO_CRITICAL_EXIT cpsr s)
       else
         let s = s\<lparr>mem := store_ptr (mem s) (unat blk) NULL\<rparr>
         in (RHINO_NO_MEM, ms, RHINO_CRITICAL_EXIT cpsr s))"

definition krhino_mblk_free :: "ptr \<Rightarrow> ptr \<Rightarrow> mblk_state \<times> kernel \<Rightarrow> kstat_t \<times> mblk_state \<times> kernel" where
  "krhino_mblk_free pool blk = (\<lambda>(ms, s).
     if pool = NULL then (RHINO_NULL_PTR, ms, s)
     else if blk = NULL then (RHINO_NULL_PTR, ms, s)
     else
       let cpsr = irq_off s;
           s = RHINO_CRITICAL_ENTER s;
           s = s\<lparr>mem := store_ptr (mem s) (unat blk) (avail_list (pools ms pool))\<rparr>;
           ms = upd_pool pool (\<lambda>p. p\<lparr>avail_list := blk\<rparr>) ms;
           ms = upd_pool pool (\<lambda>p. p\<lparr>blk_avail := blk_avail p + 1\<rparr>) ms
       in (RHINO_SUCCESS, ms, RHINO_CRITICAL_EXIT cpsr s))"

section \<open>Pointers in memory\<close>

lemma load_store [simp]: "load_ptr (store_ptr m a p) a = p"
  by (rule load_ptr_bytes) (simp add: store_ptr_def memcpy_def)

lemma load_cong: "(\<And>i. i < 4 \<Longrightarrow> m' (a + i) = m (a + i)) \<Longrightarrow> load_ptr m' a = load_ptr m a"
proof -
  assume c: "\<And>i. i < 4 \<Longrightarrow> m' (a + i) = m (a + i)"
  show ?thesis using c [of 0] c [of 1] c [of 2] c [of 3] by (simp add: load_ptr_def)
qed

lemma store_outside: "x < a \<or> a + 4 \<le> x \<Longrightarrow> store_ptr m a p x = m x"
  by (auto simp: store_ptr_def memcpy_def)

lemma load_store_other: "b + 4 \<le> a \<or> a + 4 \<le> b \<Longrightarrow> load_ptr (store_ptr m a p) b = load_ptr m b"
  by (rule load_cong) (auto intro: store_outside)

text \<open>The list of free blocks, as far as the count says; what follows the last one does not matter.\<close>

fun fpath :: "memory \<Rightarrow> ptr \<Rightarrow> ptr list \<Rightarrow> bool" where
  "fpath m p [] \<longleftrightarrow> True"
| "fpath m p (x # xs) \<longleftrightarrow> p = x \<and> fpath m (load_ptr m (unat x)) xs"

lemma fpath_cong:
  "(\<And>x. x \<in> set xs \<Longrightarrow> load_ptr m' (unat x) = load_ptr m (unat x)) \<Longrightarrow> fpath m' p xs = fpath m p xs"
  by (induction xs arbitrary: p) auto

section \<open>The contract of a pool\<close>

datatype pool_op = Alloc | Free nat | Fill nat nat byte

text \<open>
  The application allocates, frees one of the blocks it has, or writes to one of them. The blocks
  it has are the list the run threads through.
\<close>

fun pool_step ::
  "('s \<Rightarrow> 'b option \<times> 's) \<Rightarrow> ('b \<Rightarrow> 's \<Rightarrow> 's) \<Rightarrow> ('b \<Rightarrow> nat \<Rightarrow> byte \<Rightarrow> 's \<Rightarrow> 's) \<Rightarrow> pool_op \<Rightarrow>
   's \<times> 'b list \<Rightarrow> 's \<times> 'b list" where
  "pool_step alloc free fill Alloc (s, us) = (case alloc s of (None, s) \<Rightarrow> (s, us) | (Some x, s) \<Rightarrow> (s, x # us))"
| "pool_step alloc free fill (Free i) (s, us) =
     (if i < length us then (free (us ! i) s, remove1 (us ! i) us) else (s, us))"
| "pool_step alloc free fill (Fill i d b) (s, us) =
     (if i < length us then (fill (us ! i) d b s, us) else (s, us))"

fun pool_run where
  "pool_run alloc free fill [] q = q"
| "pool_run alloc free fill (p # ps) q = pool_run alloc free fill ps (pool_step alloc free fill p q)"

locale block_pool =
  fixes inv :: "'s \<Rightarrow> 'b list \<Rightarrow> 'b list \<Rightarrow> bool" and blocks :: "'b set"
    and alloc :: "'s \<Rightarrow> 'b option \<times> 's" and free :: "'b \<Rightarrow> 's \<Rightarrow> 's" and fill :: "'b \<Rightarrow> nat \<Rightarrow> byte \<Rightarrow> 's \<Rightarrow> 's"
  assumes inv_blocks: "inv s xs us \<Longrightarrow> distinct (xs @ us) \<and> set (xs @ us) = blocks"
    and alloc_some: "inv s (x # xs) us \<Longrightarrow> fst (alloc s) = Some x \<and> inv (snd (alloc s)) xs (x # us)"
    and alloc_none: "inv s [] us \<Longrightarrow> fst (alloc s) = None \<and> inv (snd (alloc s)) [] us"
    and free_back: "inv s xs us \<Longrightarrow> x \<in> set us \<Longrightarrow> inv (free x s) (x # xs) (remove1 x us)"
    and fill_own: "inv s xs us \<Longrightarrow> x \<in> set us \<Longrightarrow> inv (fill x d b s) xs us"
begin

lemma step_inv:
  assumes "inv s xs us"
  shows "\<exists>xs'. inv (fst (pool_step alloc free fill p (s, us))) xs' (snd (pool_step alloc free fill p (s, us)))"
proof (cases p)
  case Alloc
  show ?thesis
  proof (cases xs)
    case Nil
    then show ?thesis using alloc_none assms Alloc by (cases "alloc s") fastforce
  next
    case (Cons x xs')
    then show ?thesis using alloc_some assms Alloc by (cases "alloc s") fastforce
  qed
next
  case (Free i)
  then show ?thesis using free_back [OF assms, of "us ! i"] assms by auto
next
  case (Fill i d b)
  then show ?thesis using fill_own [OF assms, of "us ! i" d b] assms by (cases "i < length us") auto
qed

lemma run_inv:
  "inv s xs us \<Longrightarrow> \<exists>xs'. inv (fst (pool_run alloc free fill ps (s, us))) xs' (snd (pool_run alloc free fill ps (s, us)))"
proof (induction ps arbitrary: s xs us)
  case (Cons p ps)
  obtain s1 us1 where p: "pool_step alloc free fill p (s, us) = (s1, us1)" by fastforce
  then obtain xs1 where "inv s1 xs1 us1" using step_inv [OF Cons.prems, of p] by auto
  from Cons.IH [OF this] show ?case by (simp add: p)
qed auto

text \<open>
  At every moment the blocks handed out are distinct blocks of the pool, and the next request gets
  a block that is not handed out, as long as there is one.
\<close>

lemma run_safe:
  assumes "inv s xs []" and "pool_run alloc free fill ps (s, []) = (s', us)"
  shows "distinct us \<and> set us \<subseteq> blocks \<and>
    (case fst (alloc s') of Some x \<Rightarrow> x \<in> blocks \<and> x \<notin> set us | None \<Rightarrow> set us = blocks)"
proof -
  obtain xs' where i: "inv s' xs' us" using run_inv [OF assms(1), of ps] assms(2) by auto
  note b = inv_blocks [OF i]
  show ?thesis
  proof (cases xs')
    case Nil
    then show ?thesis using b alloc_none i by auto
  next
    case (Cons x ys)
    then show ?thesis using b alloc_some i by fastforce
  qed
qed

end

section \<open>The kernel's pools fulfil it\<close>

text \<open>The blocks of a pool: \<open>n\<close> blocks of \<open>B\<close> bytes from the address \<open>A\<close> on.\<close>

definition block :: "nat \<Rightarrow> nat \<Rightarrow> nat \<Rightarrow> ptr" where
  "block A B i = of_nat (A + i * B)"

definition pool_is :: "ptr \<Rightarrow> ptr \<Rightarrow> nat \<Rightarrow> nat \<Rightarrow> nat \<Rightarrow> mblk_state \<times> kernel \<Rightarrow> ptr list \<Rightarrow> ptr list \<Rightarrow> bool" where
  "pool_is pool c A B n = (\<lambda>(ms, s) xs us.
     pool \<noteq> NULL \<and> c \<noteq> NULL \<and> 0 < A \<and> 4 \<le> B \<and> A + n * B \<le> 2 ^ 32 \<and> (unat c + 4 \<le> A \<or> A + n * B \<le> unat c) \<and>
     unat (blk_avail (pools ms pool)) = length xs \<and> fpath (mem s) (avail_list (pools ms pool)) xs \<and>
     distinct (xs @ us) \<and> set (xs @ us) = block A B ` {..<n})"

definition mblk_alloc :: "ptr \<Rightarrow> ptr \<Rightarrow> mblk_state \<times> kernel \<Rightarrow> ptr option \<times> mblk_state \<times> kernel" where
  "mblk_alloc pool c q = (let (e, ms, s) = krhino_mblk_alloc pool c q in
     (if e = RHINO_SUCCESS then Some (load_ptr (mem s) (unat c)) else None, ms, s))"

definition mblk_free :: "ptr \<Rightarrow> ptr \<Rightarrow> mblk_state \<times> kernel \<Rightarrow> mblk_state \<times> kernel" where
  "mblk_free pool x q = snd (krhino_mblk_free pool x q)"

definition mblk_fill :: "nat \<Rightarrow> ptr \<Rightarrow> nat \<Rightarrow> byte \<Rightarrow> mblk_state \<times> kernel \<Rightarrow> mblk_state \<times> kernel" where
  "mblk_fill B x d b = (\<lambda>(ms, s). (ms, if d < B then s\<lparr>mem := (mem s)(unat x + d := b)\<rparr> else s))"

lemma unat_block:
  assumes "4 \<le> B" and "A + n * B \<le> 2 ^ 32" and "i < n"
  shows "unat (block A B i) = A + i * B" and "A + i * B + B \<le> A + n * B"
proof -
  show le: "A + i * B + B \<le> A + n * B" using mult_le_mono1 [of "Suc i" n B] assms(3) by simp
  then have "A + i * B < 2 ^ 32" using assms(1,2) by simp
  then show "unat (block A B i) = A + i * B"
    unfolding block_def by (simp only: unat_of_nat) simp
qed

lemma inj_block:
  assumes "4 \<le> B" and "A + n * B \<le> 2 ^ 32"
  shows "inj_on (block A B) {..<n}"
proof (rule inj_onI)
  fix i j assume "i \<in> {..<n}" "j \<in> {..<n}" "block A B i = block A B j"
  then have "A + i * B = A + j * B" using unat_block(1) [OF assms] by (metis lessThan_iff)
  then show "i = j" using assms(1) by simp
qed

text \<open>Different blocks do not overlap.\<close>

lemma blocks_apart:
  assumes "4 \<le> B" and "A + n * B \<le> 2 ^ 32" and "x \<in> block A B ` {..<n}" "y \<in> block A B ` {..<n}" "x \<noteq> y"
  shows "unat x + B \<le> unat y \<or> unat y + B \<le> unat x"
proof -
  obtain i j where ij: "i < n" "j < n" "x = block A B i" "y = block A B j" using assms(3,4) by auto
  then have "i \<noteq> j" using assms(5) by auto
  then consider "Suc i \<le> j" | "Suc j \<le> i" by linarith
  then show ?thesis
    using mult_le_mono1 [of "Suc i" j B] mult_le_mono1 [of "Suc j" i B] ij unat_block(1) [OF assms(1,2)] by cases simp_all
qed

lemma block_in:
  assumes "4 \<le> B" and "A + n * B \<le> 2 ^ 32" and "x \<in> block A B ` {..<n}"
  shows "A \<le> unat x" "unat x + B \<le> A + n * B"
  using assms(3) unat_block [OF assms(1,2)] by auto

lemma pool_isD:
  assumes "pool_is pool c A B n (ms, s) xs us"
  shows "pool \<noteq> NULL" "c \<noteq> NULL" "0 < A" "4 \<le> B" "A + n * B \<le> 2 ^ 32" "unat c + 4 \<le> A \<or> A + n * B \<le> unat c"
    "unat (blk_avail (pools ms pool)) = length xs" "fpath (mem s) (avail_list (pools ms pool)) xs"
    "distinct (xs @ us)" "set (xs @ us) = block A B ` {..<n}"
  using assms by (simp_all add: pool_is_def)

text \<open>Writes to the variable of the caller and to other blocks leave the list of free blocks alone.\<close>

lemma fpath_write:
  assumes "pool_is pool c A B n (ms, s) xs us"
    and "\<And>y i. y \<in> set xs \<Longrightarrow> i < 4 \<Longrightarrow> m' (unat y + i) = mem s (unat y + i)"
  shows "fpath m' p xs = fpath (mem s) p xs"
  by (rule fpath_cong, rule load_cong) (rule assms(2))

lemma cell_clear:
  assumes "pool_is pool c A B n (ms, s) xs us" and "y \<in> set (xs @ us)"
  shows "unat y + 4 \<le> unat c \<or> unat c + 4 \<le> unat y"
  using pool_isD [OF assms(1)] assms(2) block_in [of B A n y] by fastforce

lemma pools_upd_pool [simp]: "pools (upd_pool p f ms) p = f (pools ms p)"
  by (simp add: upd_pool_def)

lemma pool_alloc_some:
  assumes r: "pool_is pool c A B n q (x # xs) us"
  shows "fst (mblk_alloc pool c q) = Some x \<and> pool_is pool c A B n (snd (mblk_alloc pool c q)) xs (x # us)"
proof -
  obtain ms s where q: "q = (ms, s)" by fastforce
  note d = pool_isD [OF r [unfolded q]]
  have pos: "0 < blk_avail (pools ms pool)" and dec: "unat (blk_avail (pools ms pool) - 1) = length xs"
    using d(7) unat_sub [of 1 "blk_avail (pools ms pool)"] by (simp_all add: word_less_nat_alt word_le_nat_alt)
  have x: "avail_list (pools ms pool) = x" "fpath (mem s) (load_ptr (mem s) (unat x)) xs" using d(8) by simp_all
  define m where "m = store_ptr (mem s) (unat c) x"
  have "load_ptr m (unat y) = load_ptr (mem s) (unat y)" if "y \<in> set (x # xs)" for y
    unfolding m_def using load_store_other cell_clear [OF r [unfolded q], of y] that by auto
  then have "fpath m (load_ptr m (unat x)) xs" using x(2) fpath_cong [of xs m "mem s"] by auto
  moreover have "load_ptr m (unat c) = x" by (simp add: m_def)
  ultimately show ?thesis
    using d dec pos x(1)
    by (simp add: q mblk_alloc_def krhino_mblk_alloc_def Let_def pool_is_def m_def RHINO_CRITICAL_ENTER_def
        RHINO_CRITICAL_EXIT_def)
qed

lemma pool_alloc_none:
  assumes r: "pool_is pool c A B n q [] us"
  shows "fst (mblk_alloc pool c q) = None \<and> pool_is pool c A B n (snd (mblk_alloc pool c q)) [] us"
proof -
  obtain ms s where q: "q = (ms, s)" by fastforce
  note d = pool_isD [OF r [unfolded q]]
  have "blk_avail (pools ms pool) = 0" using d(7) by (simp add: unat_eq_zero)
  then show ?thesis
    using d by (simp add: q mblk_alloc_def krhino_mblk_alloc_def Let_def pool_is_def RHINO_CRITICAL_ENTER_def
        RHINO_CRITICAL_EXIT_def)
qed

lemma pool_free_back:
  assumes r: "pool_is pool c A B n q xs us" and u: "x \<in> set us"
  shows "pool_is pool c A B n (mblk_free pool x q) (x # xs) (remove1 x us)"
proof -
  obtain ms s where q: "q = (ms, s)" by fastforce
  note d = pool_isD [OF r [unfolded q]]
  have x: "x \<in> block A B ` {..<n}" using d(10) u by auto
  then have nz: "x \<noteq> NULL" using block_in(1) [OF d(4,5)] d(3) by fastforce
  have "Suc (length xs) \<le> length (xs @ us)" using u by (cases us) auto
  also have "length (xs @ us) \<le> n" using d(9,10) by (metis card_image_le card_lessThan distinct_card finite_lessThan)
  also have "n < 2 ^ 32"
  proof -
    have "n * 1 \<le> n * B" using d(4) by (intro mult_le_mono2) simp
    then show ?thesis using d(3,5) by linarith
  qed
  finally have inc: "unat (blk_avail (pools ms pool) + 1) = length (x # xs)" using d(7) by (simp add: unat_word_ariths)
  define m where "m = store_ptr (mem s) (unat x) (avail_list (pools ms pool))"
  have "load_ptr m (unat y) = load_ptr (mem s) (unat y)" if "y \<in> set xs" for y
  proof -
    have "y \<in> block A B ` {..<n}" "y \<noteq> x" using d(9,10) u that by auto
    then have "unat y + B \<le> unat x \<or> unat x + B \<le> unat y" using blocks_apart [OF d(4,5)] x by blast
    then show ?thesis unfolding m_def using d(4) by (intro load_store_other) linarith
  qed
  then have "fpath m (avail_list (pools ms pool)) xs" using d(8) fpath_cong [of xs m "mem s"] by blast
  moreover have "distinct (x # xs @ remove1 x us)" "set (x # xs @ remove1 x us) = block A B ` {..<n}"
    using d(9,10) u x by (auto simp: set_remove1_eq)
  ultimately show ?thesis
    using d inc nz by (simp add: q mblk_free_def krhino_mblk_free_def Let_def pool_is_def m_def RHINO_CRITICAL_ENTER_def
        RHINO_CRITICAL_EXIT_def)
qed

lemma pool_fill_own:
  assumes r: "pool_is pool c A B n q xs us" and u: "x \<in> set us"
  shows "pool_is pool c A B n (mblk_fill B x k b q) xs us"
proof -
  obtain ms s where q: "q = (ms, s)" by fastforce
  note d = pool_isD [OF r [unfolded q]]
  have "fpath ((mem s)(unat x + k := b)) p xs = fpath (mem s) p xs" if "k < B" for p
  proof (rule fpath_write [OF r [unfolded q]])
    fix y i assume y: "y \<in> set xs" and "i < (4::nat)"
    have "unat y + B \<le> unat x \<or> unat x + B \<le> unat y"
      by (rule blocks_apart [OF d(4,5)]) (use d(9,10) u y in auto)
    then have "unat y + i \<noteq> unat x + k" using that d(4) \<open>i < 4\<close> by linarith
    then show "((mem s)(unat x + k := b)) (unat y + i) = mem s (unat y + i)" by simp
  qed
  then show ?thesis using r by (auto simp: q mblk_fill_def pool_is_def)
qed

interpretation mb: block_pool "pool_is pool c A B n" "block A B ` {..<n}" "mblk_alloc pool c" "mblk_free pool" "mblk_fill B"
  for pool c A B n
proof unfold_locales
  fix q xs us x k b
  show "pool_is pool c A B n q xs us \<Longrightarrow> distinct (xs @ us) \<and> set (xs @ us) = block A B ` {..<n}"
    by (cases q) (simp add: pool_is_def)
qed (rule pool_alloc_some pool_alloc_none pool_free_back pool_fill_own, assumption+)+

section \<open>Creating a pool\<close>

lemma unat_block_small: "A + i * B < 2 ^ 32 \<Longrightarrow> unat (block A B i) = A + i * B"
  unfolding block_def by (simp only: unat_of_nat) simp

lemma block_Suc: "block A B (Suc i) = block A B i + of_nat B"
  by (simp add: block_def algebra_simps)

text \<open>
  The loop links the blocks up to the last one that starts inside the pool, and writes nowhere
  else: \<open>j\<close> is the number of that block.
\<close>

lemma mblk_link_run:
  assumes "4 \<le> B" and fit: "A + P + B \<le> 2 ^ 32" and j: "j * B < P" "P \<le> Suc j * B" and "i \<le> j"
  shows "\<exists>m'. mblk_link (of_nat B) (of_nat (A + P)) (of_nat i) (block A B i) (block A B (Suc i)) m =
      Some (of_nat j, block A B j, block A B (Suc j), m') \<and>
    (\<forall>k. i \<le> k \<and> k < j \<longrightarrow> load_ptr m' (A + k * B) = block A B (Suc k)) \<and>
    (\<forall>x. x < A + i * B \<or> A + P \<le> x \<longrightarrow> m' x = m x)"
  using \<open>i \<le> j\<close>
proof (induction "j - i" arbitrary: i m)
  have e: "unat (of_nat (A + P) :: ptr) = A + P" using fit assms(1) by (simp only: unat_of_nat) simp
  have nx: "unat (block A B (Suc i)) = A + Suc i * B" if "i \<le> j" for i
  proof (rule unat_block_small)
    have "Suc i * B \<le> Suc j * B" using that by (intro mult_le_mono1) simp
    moreover have "Suc j * B = j * B + B" by simp
    ultimately show "A + Suc i * B < 2 ^ 32" using fit j(1) by linarith
  qed
  {
    case 0
    then have "i = j" by simp
    have "\<not> block A B (Suc j) < of_nat (A + P)" using j(2) by (simp only: word_less_nat_alt e nx)
    then show ?case using \<open>i = j\<close> by (subst mblk_link.simps) auto
  next
    case (Suc n)
    then have ij: "Suc i \<le> j" and n: "n = j - Suc i" by simp_all
    have le: "Suc i * B \<le> j * B" using ij by (rule mult_le_mono1)
    then have lt: "block A B (Suc i) < of_nat (A + P)"
      using j(1) nx [of i] ij by (simp only: word_less_nat_alt e)
    define m1 where "m1 = store_ptr m (A + i * B) (block A B (Suc i))"
    have cur: "unat (block A B i) = A + i * B"
      using le fit j(1) by (intro unat_block_small) simp
    obtain m' where m': "mblk_link (of_nat B) (of_nat (A + P)) (of_nat (Suc i)) (block A B (Suc i)) (block A B (Suc (Suc i))) m1 =
        Some (of_nat j, block A B j, block A B (Suc j), m')"
      "\<forall>k. Suc i \<le> k \<and> k < j \<longrightarrow> load_ptr m' (A + k * B) = block A B (Suc k)"
      "\<forall>x. x < A + Suc i * B \<or> A + P \<le> x \<longrightarrow> m' x = m1 x"
      using Suc.hyps(1) [OF n ij, of m1] by blast
    have "load_ptr m' (A + i * B) = block A B (Suc i)"
    proof -
      have "load_ptr m' (A + i * B) = load_ptr m1 (A + i * B)" by (rule load_cong) (use m'(3) assms(1) in simp)
      then show ?thesis by (simp add: m1_def)
    qed
    then have "\<forall>k. i \<le> k \<and> k < j \<longrightarrow> load_ptr m' (A + k * B) = block A B (Suc k)"
      using m'(2) by (metis Suc_leI le_neq_implies_less)
    moreover have "m' x = m x" if "x < A + i * B \<or> A + P \<le> x" for x
    proof -
      have "m' x = m1 x" using m'(3) that by auto
      also have "\<dots> = m x" unfolding m1_def using that le j(1) assms(1) by (intro store_outside) auto
      finally show ?thesis .
    qed
    ultimately show ?case using m'(1) lt cur
      by (intro exI [of _ m']) (simp add: mblk_link.simps [of _ _ "of_nat i"] m1_def block_Suc add.commute)
  }
qed

text \<open>With blocks of size zero the loop does not end.\<close>

lemma mblk_link_zero:
  assumes "mblk_link b e n c x m = Some r"
  shows "b = 0 \<longrightarrow> \<not> x < e"
proof (rule mblk_link.raw_induct [where P = "\<lambda>b e n c x m r. b = 0 \<longrightarrow> \<not> x < e", OF _ assms])
  fix f b e n c x m r
  assume i: "\<And>b e n c x m r. f b e n c x m = Some r \<Longrightarrow> b = 0 \<longrightarrow> \<not> x < e"
    and r: "(if x < e then f b e (n + 1) x (x + b) (store_ptr m (unat c) x) else Some (n, c, x, m)) = Some r"
  show "b = 0 \<longrightarrow> \<not> x < e"
  proof (intro impI notI)
    assume b: "b = 0" and x: "x < e"
    then have "f b e (n + 1) x (x + b) (store_ptr m (unat c) x) = Some r" using r by simp
    from i [OF this] b x show False by simp
  qed
qed

lemma aligned_iff: "w AND 3 = 0 \<longleftrightarrow> 4 dvd unat w" for w :: "32 word"
proof -
  have "w AND 3 = take_bit 2 w" by (simp add: take_bit_eq_mask mask_numeral)
  moreover have "unat (take_bit 2 w) = unat w mod 4" by (simp only: unsigned_take_bit_eq) (simp add: take_bit_eq_mod)
  ultimately show ?thesis by (metis unat_eq_zero dvd_eq_mod_eq_0)
qed

lemma fpath_blocks:
  assumes "\<And>k. Suc k < n \<Longrightarrow> load_ptr m (unat (block A B k)) = block A B (Suc k)"
  shows "fpath m (block A B i) (map (block A B) [i..<n])"
proof (induction "n - i" arbitrary: i)
  case (Suc d)
  then have i: "i < n" and d: "d = n - Suc i" by simp_all
  have "fpath m (load_ptr m (unat (block A B i))) (map (block A B) [Suc i..<n])"
  proof (cases "Suc i < n")
    case True
    then show ?thesis using Suc.hyps(1) [OF d] assms [of i] by simp
  qed simp
  then show ?case using i by (simp add: upt_conv_Cons)
qed simp

text \<open>What the loop and the code after it leave behind, for a pool of \<open>P\<close> bytes.\<close>

lemma mblk_link_pool:
  assumes B: "4 \<le> B" "4 dvd B" and P: "0 < P" "4 dvd P" and fit: "A + P + B \<le> 2 ^ 32"
  obtains n c x m' where
    "mblk_link (of_nat B) (of_nat (A + P)) 0 (of_nat A) (of_nat A + of_nat B) m = Some (n, c, x, m')"
    "(if x = of_nat (A + P) then n + 1 else n) = of_nat (P div B)"
    "fpath (store_ptr m' (unat c) NULL) (of_nat A) (map (block A B) [0..<P div B])"
    "\<And>a. a < A \<or> A + P \<le> a \<Longrightarrow> store_ptr m' (unat c) NULL a = m a"
proof -
  define j where "j = (P - 1) div B"
  have "j * B + (P - 1) mod B = P - 1" "(P - 1) mod B < B" "Suc j * B = j * B + B"
    using B(1) by (simp_all add: j_def)
  then have j: "j * B < P" "P \<le> Suc j * B" using P(1) by linarith+
  obtain m' where l: "mblk_link (of_nat B) (of_nat (A + P)) 0 (of_nat A) (of_nat A + of_nat B) m =
      Some (of_nat j, block A B j, block A B (Suc j), m')"
    and next_: "\<And>k. k < j \<Longrightarrow> load_ptr m' (A + k * B) = block A B (Suc k)"
    and out: "\<And>a. a < A \<or> A + P \<le> a \<Longrightarrow> m' a = m a"
    using mblk_link_run [OF B(1) fit j le0, of m] by (auto simp: block_def)
  have sj: "Suc j * B = j * B + B" by simp
  have c: "unat (block A B j) = A + j * B" "unat (block A B (Suc j)) = A + Suc j * B"
    by (rule unat_block_small, use fit j(1) B(1) sj in linarith)+
  have e: "unat (of_nat (A + P) :: ptr) = A + P" using fit B(1) by (simp only: unat_of_nat) simp
  show thesis
  proof (rule that [OF l])
    show "(if block A B (Suc j) = of_nat (A + P) then of_nat j + 1 else of_nat j) = (of_nat (P div B) :: 32 word)"
    proof (cases "P = Suc j * B")
      case True
      then have "P div B = Suc j" using B(1) by simp
      moreover have "block A B (Suc j) = of_nat (A + P)" by (simp only: block_def True)
      ultimately show ?thesis by simp
    next
      case False
      then have "P div B = j" using j by (intro div_nat_eqI) (simp_all add: mult.commute)
      moreover have "block A B (Suc j) \<noteq> of_nat (A + P)" using c(2) e False by auto
      ultimately show ?thesis by simp
    qed
    have "P div B \<le> Suc j" using j(2) B(1) by (metis div_le_mono div_mult_self_is_m le_zero_eq not_gr_zero rel_simps(28) mult.commute)
    have "load_ptr (store_ptr m' (A + j * B) NULL) (unat (block A B k)) = block A B (Suc k)" if "k < j" for k
    proof -
      have "Suc k * B \<le> j * B" using that by (intro mult_le_mono1) simp
      then have k: "A + k * B + 4 \<le> A + j * B" using B(1) by simp
      then have "unat (block A B k) = A + k * B" using fit j(1) by (intro unat_block_small) linarith
      then show ?thesis using next_ [OF that] k by (simp add: load_store_other)
    qed
    then show "fpath (store_ptr m' (unat (block A B j)) NULL) (of_nat A) (map (block A B) [0..<P div B])"
      using fpath_blocks [of "P div B" "store_ptr m' (A + j * B) NULL" A B 0] \<open>P div B \<le> Suc j\<close>
      by (simp add: c(1) block_def [of A B 0])
    fix a assume a: "a < A \<or> A + P \<le> a"
    have "4 dvd P - j * B" using B(2) P(2) by (simp add: dvd_diff_nat)
    then have "j * B + 4 \<le> P" using j(1) by (metis dvd_imp_le le_diff_conv2 less_imp_le zero_less_diff add.commute)
    then show "store_ptr m' (unat (block A B j)) NULL a = m a"
      using a out [OF a] by (subst store_outside) (auto simp: c(1))
  qed
qed

definition good_pool :: "ptr \<Rightarrow> ptr \<Rightarrow> ptr \<Rightarrow> size_t \<Rightarrow> size_t \<Rightarrow> bool" where
  "good_pool pool name start bs ps \<longleftrightarrow> pool \<noteq> NULL \<and> name \<noteq> NULL \<and> start \<noteq> NULL \<and>
     4 dvd unat start \<and> 4 dvd unat bs \<and> 4 dvd unat ps \<and> 2 * unat bs \<le> unat ps \<and> 0 < ps \<and>
     unat start + unat ps + unat bs < 2 ^ 32"

lemma good_pool_init:
  assumes g: "good_pool pool name start bs ps"
  shows "krhino_mblk_pool_init pool name start bs ps (ms, s) =
    (case mblk_link bs (start + ps) 0 start (start + bs) (mem s) of None \<Rightarrow> None
     | Some (n, c, x, m) \<Rightarrow>
         Some (RHINO_SUCCESS,
           (upd_pool pool (\<lambda>_. \<lparr>pool_name = name, mblk_size = bs, blk_avail = if x = start + ps then n + 1 else n,
              blk_whole = if x = start + ps then n + 1 else n, avail_list = start\<rparr>) ms)
             \<lparr>mblkpool_head := mblkpool_head ms @ [pool]\<rparr>,
           s\<lparr>mem := store_ptr m (unat c) NULL\<rparr>))"
proof -
  note g = g [unfolded good_pool_def]
  have "unat (push_bit 1 bs) = 2 * unat bs"
    using g unsigned_less [of ps, where 'a = nat] by (simp add: push_bit_eq_mult unat_word_ariths mult.commute)
  then have "\<not> ps < push_bit 1 bs" using g by (simp add: word_less_nat_alt)
  then show ?thesis
    using g by (auto simp: krhino_mblk_pool_init_def Let_def aligned_iff [symmetric] RHINO_CRITICAL_ENTER_def
        RHINO_CRITICAL_EXIT_def upd_pool_def split: option.splits)
qed

lemma good_pool_result:
  assumes g: "good_pool pool name start bs ps" and b: "0 < bs"
  obtains ms' s' where "krhino_mblk_pool_init pool name start bs ps (ms, s) = Some (RHINO_SUCCESS, ms', s')"
    "unat (blk_whole (pools ms' pool)) = unat ps div unat bs"
    "\<And>a. a < unat start \<or> unat start + unat ps \<le> a \<Longrightarrow> mem s' a = mem s a"
    "\<And>c. c \<noteq> NULL \<Longrightarrow> unat c + 4 \<le> unat start \<or> unat start + unat ps \<le> unat c \<Longrightarrow>
       \<exists>xs. pool_is pool c (unat start) (unat bs) (unat ps div unat bs) (ms', s') xs []"
proof -
  note G = g [unfolded good_pool_def]
  have B: "4 \<le> unat bs" "4 dvd unat bs" using G b by (auto simp: word_less_nat_alt dvd_imp_le)
  have P: "0 < unat ps" "4 dvd unat ps" using G by (simp_all add: word_less_nat_alt)
  have fit: "unat start + unat ps + unat bs \<le> 2 ^ 32" using G by simp
  obtain n c x m' where l: "mblk_link bs (start + ps) 0 start (start + bs) (mem s) = Some (n, c, x, m')"
    "(if x = start + ps then n + 1 else n) = of_nat (unat ps div unat bs)"
    "fpath (store_ptr m' (unat c) NULL) start (map (block (unat start) (unat bs)) [0..<unat ps div unat bs])"
    "\<And>a. a < unat start \<or> unat start + unat ps \<le> a \<Longrightarrow> store_ptr m' (unat c) NULL a = mem s a"
    by (rule mblk_link_pool [OF B P fit, of "mem s"]) simp
  have "unat ps div unat bs < 2 ^ 32"
    using unsigned_less [of ps, where 'a = nat] by (intro le_less_trans [OF div_le_dividend [of "unat ps" "unat bs"]]) simp
  then have u: "unat (of_nat (unat ps div unat bs) :: 32 word) = unat ps div unat bs"
    by (simp only: unat_of_nat) simp
  note r = good_pool_init [OF g, of ms s, unfolded l(1) option.case prod.case, unfolded l(2)]
  show thesis
  proof (rule that [OF r])
    fix v assume v: "v \<noteq> NULL" "unat v + 4 \<le> unat start \<or> unat start + unat ps \<le> unat v"
    have le: "unat ps div unat bs * unat bs \<le> unat ps" by simp
    have "inj_on (block (unat start) (unat bs)) {..<unat ps div unat bs}"
      by (rule inj_block [OF B(1)]) (use fit le in linarith)
    then have "distinct (map (block (unat start) (unat bs)) [0..<unat ps div unat bs])"
      by (simp add: distinct_map lessThan_atLeast0)
    moreover have "unat start + unat ps div unat bs * unat bs \<le> 2 ^ 32" using fit le by linarith
    moreover have "unat v + 4 \<le> unat start \<or> unat start + unat ps div unat bs * unat bs \<le> unat v" using v(2) le by linarith
    ultimately show "\<exists>xs. pool_is pool v (unat start) (unat bs) (unat ps div unat bs)
        ((upd_pool pool (\<lambda>_. \<lparr>pool_name = name, mblk_size = bs, blk_avail = of_nat (unat ps div unat bs),
              blk_whole = of_nat (unat ps div unat bs), avail_list = start\<rparr>) ms)
             \<lparr>mblkpool_head := mblkpool_head ms @ [pool]\<rparr>,
           s\<lparr>mem := store_ptr m' (unat c) NULL\<rparr>) xs []"
      using G B(1) v(1) l(3) u
      by (intro exI [of _ "map (block (unat start) (unat bs)) [0..<unat ps div unat bs]"])
        (auto simp: pool_is_def upd_pool_def lessThan_atLeast0 unat_gt_0)
  qed (simp_all add: upd_pool_def u l(4))
qed

section \<open>Properties\<close>

text \<open>
  C31: Blocks are handed out safely. After a pool is created, for every sequence of requests, of
  returns of blocks the application has, and of writes to such blocks, the blocks it has are
  blocks of the pool, different and without overlap; a request gets a block the application
  does not have, and fails only when it has all of them. The sizes are such that no address
  of the pool wraps around.
\<close>

theorem mblk_pool_safe:
  assumes "good_pool pool name start bs ps" and "0 < bs"
    and "krhino_mblk_pool_init pool name start bs ps q = Some (RHINO_SUCCESS, q')"
    and "c \<noteq> NULL" and "unat c + 4 \<le> unat start \<or> unat start + unat ps \<le> unat c"
    and "pool_run (mblk_alloc pool c) (mblk_free pool) (mblk_fill (unat bs)) ops (q', []) = (q'', us)"
  defines "blocks \<equiv> block (unat start) (unat bs) ` {..<unat ps div unat bs}"
  shows "distinct us \<and> set us \<subseteq> blocks \<and>
    (\<forall>x y. x \<in> set us \<and> y \<in> set us \<and> x \<noteq> y \<longrightarrow> unat x + unat bs \<le> unat y \<or> unat y + unat bs \<le> unat x) \<and>
    (case fst (mblk_alloc pool c q'') of Some x \<Rightarrow> x \<in> blocks \<and> x \<notin> set us | None \<Rightarrow> set us = blocks)"
proof -
  obtain ms s where q: "q = (ms, s)" by fastforce
  obtain xs where i: "pool_is pool c (unat start) (unat bs) (unat ps div unat bs) q' xs []"
    by (rule good_pool_result [OF assms(1,2), of ms s]) (use assms(3-5) q in auto)
  note r = mb.run_safe [OF i assms(6)]
  have "4 \<le> unat bs" "unat start + unat ps div unat bs * unat bs \<le> 2 ^ 32"
    using i by (cases q'; simp add: pool_is_def)+
  from blocks_apart [OF this] r show ?thesis unfolding blocks_def by blast
qed

theorem mblk_pool_safe_witness:
  "\<forall>ms s. \<exists>q'. krhino_mblk_pool_init 256 512 4096 8 32 (ms, s) = Some (RHINO_SUCCESS, q') \<and>
     (case pool_run (mblk_alloc 256 1024) (mblk_free 256) (mblk_fill 8) [Alloc, Fill 0 3 7, Alloc, Free 1] (q', []) of
        (q'', us) \<Rightarrow> distinct us \<and> set us \<subseteq> block 4096 8 ` {..<4})"
proof (intro allI)
  fix ms s
  have g: "good_pool 256 512 4096 8 32" by (simp add: good_pool_def)
  have b: "(0 :: size_t) < 8" by simp
  obtain q' where i: "krhino_mblk_pool_init 256 512 4096 8 32 (ms, s) = Some (RHINO_SUCCESS, q')"
    by (rule good_pool_result [OF g b, of ms s]) blast
  obtain q'' us where r: "pool_run (mblk_alloc 256 1024) (mblk_free 256) (mblk_fill (unat (8 :: size_t)))
      [Alloc, Fill 0 3 7, Alloc, Free 1] (q', []) = (q'', us)"
    by fastforce
  from mblk_pool_safe [OF g b i _ _ r] i r
  show "\<exists>q'. krhino_mblk_pool_init 256 512 4096 8 32 (ms, s) = Some (RHINO_SUCCESS, q') \<and>
     (case pool_run (mblk_alloc 256 1024) (mblk_free 256) (mblk_fill 8) [Alloc, Fill 0 3 7, Alloc, Free 1] (q', []) of
        (q'', us) \<Rightarrow> distinct us \<and> set us \<subseteq> block 4096 8 ` {..<4})"
    by simp
qed

text \<open>
  C32: Creating a pool with proper arguments returns exactly when the size of a block is not
  zero. It then makes as many blocks as fit and writes nowhere outside the memory of the pool.
  A block size of zero passes all checks and the call does not return.
\<close>

theorem mblk_pool_init_returns:
  assumes "good_pool pool name start bs ps"
  shows "if bs = 0 then krhino_mblk_pool_init pool name start bs ps (ms, s) = None
    else \<exists>ms' s'. krhino_mblk_pool_init pool name start bs ps (ms, s) = Some (RHINO_SUCCESS, ms', s') \<and>
      unat (blk_whole (pools ms' pool)) = unat ps div unat bs \<and>
      (\<forall>a. a < unat start \<or> unat start + unat ps \<le> a \<longrightarrow> mem s' a = mem s a)"
proof (cases "bs = 0")
  case True
  note g = assms [unfolded good_pool_def]
  then have "start < start + ps" using g by (simp add: word_less_nat_alt unat_word_ariths)
  then have "mblk_link bs (start + ps) 0 start (start + bs) (mem s) = None"
    using mblk_link_zero [of bs "start + ps" 0 start "start + bs" "mem s"] True by (cases "mblk_link bs (start + ps) 0 start (start + bs) (mem s)") auto
  then show ?thesis using True good_pool_init [OF assms, of ms s] by simp
next
  case False
  then have "0 < bs" by (simp add: word_neq_0_conv)
  from good_pool_result [OF assms this, of ms s] False show ?thesis by metis
qed

theorem mblk_pool_init_returns_witness:
  "\<forall>ms s. krhino_mblk_pool_init 256 512 4096 0 32 (ms, s) = None \<and>
     (\<exists>ms' s'. krhino_mblk_pool_init 256 512 4096 12 32 (ms, s) = Some (RHINO_SUCCESS, ms', s') \<and>
        unat (blk_whole (pools ms' 256)) = 2)"
proof (intro allI conjI)
  fix ms s
  show "krhino_mblk_pool_init 256 512 4096 0 32 (ms, s) = None"
    using mblk_pool_init_returns [of 256 512 4096 0 32 ms s] by (simp add: good_pool_def)
  show "\<exists>ms' s'. krhino_mblk_pool_init 256 512 4096 12 32 (ms, s) = Some (RHINO_SUCCESS, ms', s') \<and>
        unat (blk_whole (pools ms' 256)) = 2"
    using mblk_pool_init_returns [of 256 512 4096 12 32 ms s] by (auto simp: good_pool_def)
qed

end
