(* ===== verification/Ringbuf_Api.thy ===== *)
theory Ringbuf_Api
  imports Queue_Fifo
begin

text \<open>
  The calls that offer the ring buffer to applications (\<^verbatim>\<open>k_ringbuf.c\<close>, from
  \<^verbatim>\<open>krhino_ringbuf_reset\<close> on): they check their arguments and run the internal operation in a
  critical section. The state is the ring buffers by address and the kernel, whose memory
  holds the buffers and the messages of the callers.
\<close>

section \<open>Model\<close>

type_synonym rb_state = "(ptr \<Rightarrow> k_ringbuf_t) \<times> kernel"

definition krhino_ringbuf_reset :: "ptr \<Rightarrow> rb_state \<Rightarrow> kstat_t \<times> rb_state" where
  "krhino_ringbuf_reset p_ringbuf = (\<lambda>(h, s).
     if p_ringbuf = NULL then (RHINO_NULL_PTR, h, s)
     else
       let cpsr = irq_off s;
           s = RHINO_CRITICAL_ENTER s;
           h = h(p_ringbuf := ringbuf_reset (h p_ringbuf))
       in (RHINO_SUCCESS, h, RHINO_CRITICAL_EXIT cpsr s))"

text \<open>The type is the number the caller passes, 0 for fixed blocks and 1 for messages.\<close>

definition krhino_ringbuf_init :: "ptr \<Rightarrow> ptr \<Rightarrow> nat \<Rightarrow> nat \<Rightarrow> nat \<Rightarrow> rb_state \<Rightarrow> kstat_t \<times> rb_state" where
  "krhino_ringbuf_init p_ringbuf buf len ty block_size = (\<lambda>(h, s).
     if p_ringbuf = NULL then (RHINO_NULL_PTR, h, s)
     else if buf = NULL then (RHINO_NULL_PTR, h, s)
     else if len = 0 \<or> (ty \<noteq> 1 \<and> ty \<noteq> 0) then (RHINO_INV_PARAM, h, s)
     else if ty = 0 \<and> (len = 0 \<or> block_size = 0 \<or> len mod block_size \<noteq> 0) then (RHINO_INV_PARAM, h, s)
     else
       let cpsr = irq_off s;
           s = RHINO_CRITICAL_ENTER s;
           h = h(p_ringbuf := ringbuf_init (h p_ringbuf) (unat buf) len
                   (if ty = 0 then RINGBUF_TYPE_FIX else RINGBUF_TYPE_DYN) block_size)
       in (RHINO_SUCCESS, h, RHINO_CRITICAL_EXIT cpsr s))"

definition krhino_ringbuf_push :: "ptr \<Rightarrow> ptr \<Rightarrow> nat \<Rightarrow> rb_state \<Rightarrow> kstat_t \<times> rb_state" where
  "krhino_ringbuf_push p_ringbuf data len = (\<lambda>(h, s).
     if p_ringbuf = NULL then (RHINO_NULL_PTR, h, s)
     else if data = NULL then (RHINO_NULL_PTR, h, s)
     else if len = 0 \<or> len > 0x3fffff \<or> (rb_type (h p_ringbuf) = RINGBUF_TYPE_FIX \<and> len \<noteq> blk_size (h p_ringbuf))
     then (RHINO_INV_PARAM, h, s)
     else
       let cpsr = irq_off s;
           s = RHINO_CRITICAL_ENTER s;
           (err, rb, m) = ringbuf_push (h p_ringbuf) (mem s) (\<lambda>i. mem s (unat data + i)) len
       in (err, h(p_ringbuf := rb), RHINO_CRITICAL_EXIT cpsr (s\<lparr>mem := m\<rparr>)))"

definition krhino_ringbuf_pop :: "ptr \<Rightarrow> ptr \<Rightarrow> ptr \<Rightarrow> rb_state \<Rightarrow> kstat_t \<times> rb_state" where
  "krhino_ringbuf_pop p_ringbuf pdata plen = (\<lambda>(h, s).
     if p_ringbuf = NULL then (RHINO_NULL_PTR, h, s)
     else if pdata = NULL then (RHINO_NULL_PTR, h, s)
     else if rb_type (h p_ringbuf) = RINGBUF_TYPE_DYN \<and> plen = NULL then (RHINO_INV_PARAM, h, s)
     else
       let cpsr = irq_off s;
           s = RHINO_CRITICAL_ENTER s;
           (err, rb, bs) = ringbuf_pop (h p_ringbuf) (mem s);
           s = (if err = RHINO_SUCCESS then s\<lparr>mem := memcpy (mem s) (unat pdata) (nth bs) (length bs)\<rparr> else s);
           s = (if err = RHINO_SUCCESS \<and> plen \<noteq> NULL then set_out plen (length bs) s else s)
       in (err, h(p_ringbuf := rb), RHINO_CRITICAL_EXIT cpsr s))"

text \<open>The answers are bytes; a null pointer is answered with the number of the error.\<close>

definition krhino_ringbuf_is_empty :: "ptr \<Rightarrow> rb_state \<Rightarrow> byte \<times> rb_state" where
  "krhino_ringbuf_is_empty p_ringbuf = (\<lambda>(h, s).
     if p_ringbuf = NULL then (6, h, s)
     else
       let cpsr = irq_off s;
           s = RHINO_CRITICAL_ENTER s;
           e = (if ringbuf_is_empty (h p_ringbuf) then 1 else 0)
       in (e, h, RHINO_CRITICAL_EXIT cpsr s))"

definition krhino_ringbuf_is_full :: "ptr \<Rightarrow> rb_state \<Rightarrow> byte \<times> rb_state" where
  "krhino_ringbuf_is_full p_ringbuf = (\<lambda>(h, s).
     if p_ringbuf = NULL then (6, h, s)
     else
       let cpsr = irq_off s;
           s = RHINO_CRITICAL_ENTER s;
           f = (if ringbuf_is_full (h p_ringbuf) then 1 else 0)
       in (f, h, RHINO_CRITICAL_EXIT cpsr s))"

section \<open>The calls implement the queue\<close>

text \<open>
  The application has a buffer for messages to send and one for messages received, both of
  \<open>mx\<close> bytes and apart from the ring buffer.
\<close>

definition api_is :: "ptr \<Rightarrow> ptr \<Rightarrow> ptr \<Rightarrow> ptr \<Rightarrow> nat \<Rightarrow> nat \<Rightarrow> nat \<Rightarrow> ringbuf_type \<Rightarrow> nat \<Rightarrow> rb_state \<Rightarrow> byte list list \<Rightarrow> bool" where
  "api_is p src dst plen mx base c ty b = (\<lambda>(h, s) ms.
     p \<noteq> NULL \<and> src \<noteq> NULL \<and> dst \<noteq> NULL \<and> plen \<noteq> NULL \<and>
     (unat src + mx \<le> base \<or> base + c \<le> unat src) \<and> (unat dst + mx \<le> base \<or> base + c \<le> unat dst) \<and>
     list_all (\<lambda>m. length m \<le> mx) ms \<and> rb_is base c ty b (h p, mem s) ms)"

definition api_send :: "ptr \<Rightarrow> ptr \<Rightarrow> byte list \<Rightarrow> rb_state \<Rightarrow> kstat_t \<times> rb_state" where
  "api_send p src m = (\<lambda>(h, s).
     krhino_ringbuf_push p src (length m) (h, s\<lparr>mem := memcpy (mem s) (unat src) (nth m) (length m)\<rparr>))"

definition api_recv :: "ptr \<Rightarrow> ptr \<Rightarrow> ptr \<Rightarrow> rb_state \<Rightarrow> kstat_t \<times> byte list option \<times> rb_state" where
  "api_recv p dst plen q =
     (let (e, h, s) = krhino_ringbuf_pop p dst plen q
      in (e, if e = RHINO_SUCCESS then Some (bytes_at (mem s) (unat dst) (outs s plen)) else None, h, s))"

definition api_fits :: "nat \<Rightarrow> ringbuf_type \<Rightarrow> nat \<Rightarrow> byte list \<Rightarrow> bool" where
  "api_fits mx ty b m \<longleftrightarrow> m \<noteq> [] \<and> length m \<le> mx \<and> length m \<le> 0x3fffff \<and> fifo_fits ty b m"

lemma critical_fields [simp]:
  "mem (RHINO_CRITICAL_ENTER s) = mem s" "mem (RHINO_CRITICAL_EXIT c s) = mem s"
  "outs (RHINO_CRITICAL_ENTER s) = outs s" "outs (RHINO_CRITICAL_EXIT c s) = outs s"
  by (simp_all add: RHINO_CRITICAL_ENTER_def RHINO_CRITICAL_EXIT_def)

lemma api_send_step:
  assumes r: "api_is p src dst plen mx base c ty b q ms" and f: "api_fits mx ty b m"
  shows "fst (api_send p src m q) = fst (spec_send (fifo_room c ty) RHINO_RINGBUF_FULL m ms) \<and>
    api_is p src dst plen mx base c ty b (snd (api_send p src m q)) (snd (spec_send (fifo_room c ty) RHINO_RINGBUF_FULL m ms))"
proof -
  obtain h s where q: "q = (h, s)" by fastforce
  define ma where "ma = memcpy (mem s) (unat src) (nth m) (length m)"
  have d: "unat src + mx \<le> base \<or> base + c \<le> unat src"
    and k: "rb_rep (h p) (mem s) ms" "rb_buf (h p) = base" "cap (h p) = c" "rb_type (h p) = ty" "blk_size (h p) = b"
    using r by (simp_all add: api_is_def rb_is_def q)
  have e: "rb_end (h p) = base + c" using rb_bounds [of "h p"] k by (simp add: rb_rep_def)
  have "rb_rep (h p) ma ms"
    using d f by (intro rb_rep_mem [OF k(1)]) (auto simp: memcpy_def k(2) e ma_def api_fits_def)
  then have ri: "rb_is base c ty b (h p, ma) ms" using k by (simp add: rb_is_def)
  define data where "data = (\<lambda>i. ma (unat src + i))"
  have dm: "map data [0..<length m] = m" unfolding data_def ma_def by (rule map_memcpy)
  have ff: "fifo_fits ty b (map data [0..<length m])" using f by (simp add: dm api_fits_def)
  note p = push_step [OF ri ff, unfolded dm]
  have l: "length m \<noteq> 0" "\<not> length m > 0x3fffff" "ty = RINGBUF_TYPE_FIX \<Longrightarrow> length m = b" "length m \<le> mx"
    using f by (auto simp: api_fits_def fifo_fits_def)
  obtain err rb' m' where pu: "ringbuf_push (h p) ma data (length m) = (err, rb', m')" using prod_cases3 by blast
  show ?thesis
    using p l r k
    by (cases "fifo_room c ty ms m") (simp_all add: q api_send_def krhino_ringbuf_push_def Let_def ma_def [symmetric]
        data_def [symmetric] pu api_is_def spec_send_def)
qed

lemma api_recv_step:
  assumes r: "api_is p src dst plen mx base c ty b q ms"
  shows "fst (api_recv p dst plen q) = fst (spec_recv RHINO_RINGBUF_EMPTY ms) \<and>
    fst (snd (api_recv p dst plen q)) = fst (snd (spec_recv RHINO_RINGBUF_EMPTY ms)) \<and>
    api_is p src dst plen mx base c ty b (snd (snd (api_recv p dst plen q))) (snd (snd (spec_recv RHINO_RINGBUF_EMPTY ms)))"
proof -
  obtain h s where q: "q = (h, s)" by fastforce
  have d: "unat dst + mx \<le> base \<or> base + c \<le> unat dst" and n: "p \<noteq> NULL" "dst \<noteq> NULL" "plen \<noteq> NULL"
    and k: "rb_rep (h p) (mem s) ms" "rb_buf (h p) = base" "cap (h p) = c" "rb_type (h p) = ty" "blk_size (h p) = b"
    using r by (simp_all add: api_is_def rb_is_def q)
  have e: "rb_end (h p) = base + c" using rb_bounds [of "h p"] k by (simp add: rb_rep_def)
  show ?thesis
  proof (cases ms)
    case Nil
    then show ?thesis
      using r n rb_rep_empty [OF k(1)]
      by (simp add: q api_recv_def krhino_ringbuf_pop_def ringbuf_pop_def Let_def spec_recv_def api_is_def)
  next
    case (Cons m ms')
    obtain rb' where p: "ringbuf_pop (h p) (mem s) = (RHINO_SUCCESS, rb', m)" "rb_rep rb' (mem s) ms'" "same_frame (h p) rb'"
      using pop_rep [of "h p" "mem s" m ms'] k(1) Cons by auto
    have lm: "length m \<le> mx" using r Cons by (simp add: api_is_def q)
    have "rb_rep rb' (memcpy (mem s) (unat dst) (nth m) (length m)) ms'"
      using d p(3) lm by (intro rb_rep_mem [OF p(2)]) (auto simp: memcpy_def k(2) e same_frame_def)
    then show ?thesis
      using Cons r n k p
      by (simp add: q api_recv_def krhino_ringbuf_pop_def Let_def spec_recv_def api_is_def rb_is_def same_frame_def cap_def
          bytes_memcpy)
  qed
qed

interpretation ra: bounded_fifo "api_is p src dst plen mx base c ty b" "api_send p src" "api_recv p dst plen" "api_fits mx ty b"
    "fifo_room c ty" RHINO_RINGBUF_FULL RHINO_RINGBUF_EMPTY for p src dst plen mx base c ty b
  by unfold_locales (erule (1) api_send_step, erule api_recv_step, simp)

section \<open>Property\<close>

text \<open>
  C34: A ring buffer used through its calls is a first-in first-out queue, with fixed blocks as
  well as with messages of variable length. After a successful initialisation every sequence
  of sends and receives returns what a list bounded by the bytes used would return, and at
  any time a message of length zero, longer than 22 bits can say, or of another length than the
  blocks is refused without any change.
\<close>

theorem ringbuf_api_fifo:
  fixes q :: rb_state and ty :: nat
  defines "TY \<equiv> if ty = 0 then RINGBUF_TYPE_FIX else RINGBUF_TYPE_DYN"
  assumes "krhino_ringbuf_init p buf c ty b q = (RHINO_SUCCESS, q')"
    and "src \<noteq> NULL" and "dst \<noteq> NULL" and "plen \<noteq> NULL"
    and "unat src + mx \<le> unat buf \<or> unat buf + c \<le> unat src" and "unat dst + mx \<le> unat buf \<or> unat buf + c \<le> unat dst"
    and "\<forall>m \<in> sends ops. m \<noteq> [] \<and> length m \<le> mx \<and> length m \<le> 0x3fffff \<and> (ty = 0 \<longrightarrow> length m = b)"
    and "fifo_run (api_send p src) (api_recv p dst plen) ops q' = (rs, q'')"
  shows "rs = fst (fifo_run (spec_send (fifo_room c TY) RHINO_RINGBUF_FULL) (spec_recv RHINO_RINGBUF_EMPTY) ops []) \<and>
    (\<forall>n. n = 0 \<or> n > 0x3fffff \<or> (ty = 0 \<and> n \<noteq> b) \<longrightarrow> krhino_ringbuf_push p src n q'' = (RHINO_INV_PARAM, q''))"
proof -
  obtain h s where q: "q = (h, s)" by fastforce
  have v: "p \<noteq> NULL" "buf \<noteq> NULL" "0 < c" "TY = RINGBUF_TYPE_FIX \<Longrightarrow> 0 < b \<and> b dvd c"
    and q': "fst q' p = ringbuf_init (h p) (unat buf) c TY b"
    using assms(2) by (auto simp: q TY_def krhino_ringbuf_init_def Let_def split: if_splits)
  have i: "api_is p src dst plen mx (unat buf) c TY b q' []"
    using rb_rep_init [OF v(3,4)] assms(3-7) v(1) q'
    by (cases q') (simp add: api_is_def rb_is_def ringbuf_init_def ringbuf_reset_def cap_def)
  have f: "\<forall>m \<in> sends ops. api_fits mx TY b m" using assms(8) by (auto simp: api_fits_def fifo_fits_def TY_def)
  note r = ra.run_refines [OF i f, unfolded assms(9)]
  obtain h' s' where q'': "q'' = (h', s')" by fastforce
  have "rb_type (h' p) = TY" "blk_size (h' p) = b"
    using r by (simp_all add: api_is_def rb_is_def q'')
  then have "krhino_ringbuf_push p src n q'' = (RHINO_INV_PARAM, q'')" if "n = 0 \<or> n > 0x3fffff \<or> (ty = 0 \<and> n \<noteq> b)" for n
    using that v(1) assms(3) by (auto simp: krhino_ringbuf_push_def q'' TY_def)
  then show ?thesis using r by simp
qed

theorem ringbuf_api_fifo_witness:
  "\<forall>h s. case krhino_ringbuf_init 256 4096 4 0 2 (h, s) of (e, q) \<Rightarrow> e = RHINO_SUCCESS \<and>
     fst (fifo_run (api_send 256 64) (api_recv 256 96 128) [Send [1, 2], Send [3, 4], Send [5, 6], Recv] q) =
     [(RHINO_SUCCESS, None), (RHINO_SUCCESS, None), (RHINO_RINGBUF_FULL, None), (RHINO_SUCCESS, Some [1, 2])]"
proof (intro allI)
  fix h s
  obtain q where i: "krhino_ringbuf_init 256 4096 4 0 2 (h, s) = (RHINO_SUCCESS, q)"
    by (simp add: krhino_ringbuf_init_def Let_def)
  define ops :: "byte list fifo_op list" where "ops = [Send [1, 2], Send [3, 4], Send [5, 6], Recv]"
  obtain rs q' where r: "fifo_run (api_send 256 64) (api_recv 256 96 128) ops q = (rs, q')" by (metis surj_pair)
  have "\<forall>m \<in> sends ops. m \<noteq> [] \<and> length m \<le> 2 \<and> length m \<le> 0x3fffff \<and> ((0::nat) = 0 \<longrightarrow> length m = 2)"
    by (auto simp: ops_def sends_def)
  from ringbuf_api_fifo [OF i _ _ _ _ _ this r]
  have "rs = fst (fifo_run (spec_send (fifo_room 4 RINGBUF_TYPE_FIX) RHINO_RINGBUF_FULL) (spec_recv RHINO_RINGBUF_EMPTY) ops [])"
    by simp
  also have "\<dots> = [(RHINO_SUCCESS, None), (RHINO_SUCCESS, None), (RHINO_RINGBUF_FULL, None), (RHINO_SUCCESS, Some [1, 2])]"
    by (simp add: ops_def spec_send_def spec_recv_def fifo_room_def rb_used_def rb_encode_def)
  finally show "case krhino_ringbuf_init 256 4096 4 0 2 (h, s) of (e, q) \<Rightarrow> e = RHINO_SUCCESS \<and>
     fst (fifo_run (api_send 256 64) (api_recv 256 96 128) [Send [1, 2], Send [3, 4], Send [5, 6], Recv] q) =
     [(RHINO_SUCCESS, None), (RHINO_SUCCESS, None), (RHINO_RINGBUF_FULL, None), (RHINO_SUCCESS, Some [1, 2])]"
    using i r by (simp add: ops_def)
qed

end
