(* ===== verification/Timer.thy ===== *)
theory Timer
  imports Queue_Fifo "HOL-Library.Monad_Syntax"
begin

text \<open>
  Software timers (\<^verbatim>\<open>k_timer.c\<close>). A call of the interface sends a command through the buffer queue
  \<^verbatim>\<open>g_timer_queue\<close>; the timer task takes the commands and keeps the list \<^verbatim>\<open>g_timer_head\<close> of running
  timers, sorted by what remains of their time; it waits for a command no longer than until the first
  of them is due, and calls the functions of the timers that are.
\<close>

section \<open>Model\<close>

type_synonym sys_time_t = "64 word"

datatype k_timer_state_t = TIMER_DEACTIVE | TIMER_ACTIVE

text \<open>The field \<^verbatim>\<open>to_head\<close> is a null pointer or points to \<^verbatim>\<open>g_timer_head\<close>.\<close>

record ktimer_t =
  to_head :: bool
  timer_name :: ptr
  timer_cb :: ptr
  timer_cb_arg :: ptr
  match :: sys_time_t
  remain :: sys_time_t
  init_count :: sys_time_t
  round_ticks :: sys_time_t
  timer_obj_type :: kobj_type_t
  timer_state :: k_timer_state_t
  timer_alloc_flag :: alloc_flag_t

abbreviation (input) TIMER_CMD_START :: byte where "TIMER_CMD_START \<equiv> 1"
abbreviation (input) TIMER_CMD_STOP :: byte where "TIMER_CMD_STOP \<equiv> 2"
abbreviation (input) TIMER_CMD_CHG :: byte where "TIMER_CMD_CHG \<equiv> 3"
abbreviation (input) TIMER_ARG_CHG :: byte where "TIMER_ARG_CHG \<equiv> 4"
abbreviation (input) TIMER_ARG_CHG_AUTO :: byte where "TIMER_ARG_CHG_AUTO \<equiv> 5"
abbreviation (input) TIMER_CMD_DEL :: byte where "TIMER_CMD_DEL \<equiv> 6"
abbreviation (input) MAX_TIMER_TICKS :: tick_t where "MAX_TIMER_TICKS \<equiv> 0x7FFFFFFFFFFFFFFF"
abbreviation (input) RHINO_CONFIG_TIMER_MSG_NUM :: nat where "RHINO_CONFIG_TIMER_MSG_NUM \<equiv> 20"

text \<open>The union of a command is its eight bytes; the argument is in the lower four.\<close>

record k_timer_queue_cb =
  cb_timer :: ptr
  cb_num :: byte
  cb_first :: sys_time_t
  cb_u :: "64 word"

text \<open>
  The timers and the globals of the timer task. What the called functions do is not part of the
  kernel: \<open>called\<close> is the sequence of the calls, each with the timer, the argument, the time the timer was
  set to, and the time at the call.
\<close>

record timer_sys =
  timers :: "ptr \<Rightarrow> ktimer_t"
  g_timer_head :: "ptr list"
  g_timer_count :: sys_time_t
  timer_errs :: "kstat_t list"
  called :: "(ptr \<times> ptr \<times> sys_time_t \<times> sys_time_t) list"

definition upd_timer :: "ptr \<Rightarrow> (ktimer_t \<Rightarrow> ktimer_t) \<Rightarrow> timer_sys \<Rightarrow> timer_sys" where
  "upd_timer timer f ts = ts\<lparr>timers := (timers ts)(timer := f (timers ts timer))\<rparr>"

definition timer_list_pri_insert :: "ptr \<Rightarrow> timer_sys \<Rightarrow> timer_sys" where
  "timer_list_pri_insert timer ts =
     (let val = remain (timers ts timer)
      in ts\<lparr>g_timer_head := insert_before (\<lambda>q. match (timers ts q) - g_timer_count ts > val) timer (g_timer_head ts)\<rparr>)"

definition timer_list_rm :: "ptr \<Rightarrow> timer_sys \<Rightarrow> timer_sys" where
  "timer_list_rm timer ts =
     (if to_head (timers ts timer)
      then upd_timer timer (\<lambda>k. k\<lparr>to_head := False\<rparr>) (ts\<lparr>g_timer_head := remove1 timer (g_timer_head ts)\<rparr>)
      else ts)"

subsection \<open>The interface\<close>

text \<open>Where the linker puts the globals.\<close>

record timer_globals =
  g_timer_queue :: ptr
  timer_queue_cb :: ptr
  g_timer_task :: ptr
  g_timer_task_stack :: ptr
  timer_task_entry :: ptr
  timer_queue_name :: ptr
  timer_task_name :: ptr



text \<open>
  The local variable \<^verbatim>\<open>cb\<close> of the calls is on the stack, here at the address \<open>cb\<close>. Its members are at the
  offsets 0, 4, 8 and 16; a call leaves those it does not set as they are.
\<close>

definition set_cb :: "ptr \<Rightarrow> ptr \<Rightarrow> byte \<Rightarrow> kernel \<Rightarrow> kernel" where
  "set_cb cb timer num s = s\<lparr>mem := (store_ptr (mem s) (unat cb) timer)(unat cb + 4 := num)\<rparr>"





definition krhino_timer_start :: "timer_globals \<Rightarrow> ptr \<Rightarrow> ptr \<Rightarrow> kernel \<Rightarrow> kstat_t \<times> kernel" where
  "krhino_timer_start G cb timer s =
     (if timer = NULL then (RHINO_NULL_PTR, s)
      else krhino_buf_queue_send (g_timer_queue G) cb 24 (set_cb cb timer TIMER_CMD_START s))"






definition timer_create ::
  "timer_globals \<Rightarrow> ptr \<Rightarrow> ptr \<Rightarrow> ptr \<Rightarrow> ptr \<Rightarrow> sys_time_t \<Rightarrow> sys_time_t \<Rightarrow> ptr \<Rightarrow> bool \<Rightarrow> alloc_flag_t \<Rightarrow>
   kernel \<Rightarrow> timer_sys \<Rightarrow> kstat_t \<times> kernel \<times> timer_sys" where
  "timer_create G lcb timer name cb first rounds arg auto_run flag s ts =
     (if timer = NULL then (RHINO_NULL_PTR, s, ts)
      else if name = NULL then (RHINO_NULL_PTR, s, ts)
      else if cb = NULL then (RHINO_NULL_PTR, s, ts)
      else if first = 0 then (RHINO_INV_PARAM, s, ts)
      else if first \<ge> MAX_TIMER_TICKS then (RHINO_INV_PARAM, s, ts)
      else if rounds \<ge> MAX_TIMER_TICKS then (RHINO_INV_PARAM, s, ts)
      else
        let ts = upd_timer timer (\<lambda>k. k\<lparr>timer_name := name, timer_cb := cb, init_count := first, round_ticks := rounds,
              remain := 0, match := 0, timer_state := TIMER_DEACTIVE, to_head := False,
              timer_alloc_flag := flag, timer_cb_arg := arg, timer_obj_type := RHINO_TIMER_OBJ_TYPE\<rparr>) ts in
        if auto_run then
          let (err, s) = krhino_timer_start G lcb timer s in (err, s, ts)
        else (RHINO_SUCCESS, s, ts))"

definition krhino_timer_create ::
  "timer_globals \<Rightarrow> ptr \<Rightarrow> ptr \<Rightarrow> ptr \<Rightarrow> ptr \<Rightarrow> sys_time_t \<Rightarrow> sys_time_t \<Rightarrow> ptr \<Rightarrow> bool \<Rightarrow>
   kernel \<Rightarrow> timer_sys \<Rightarrow> kstat_t \<times> kernel \<times> timer_sys" where
  "krhino_timer_create G lcb timer name cb first rounds arg auto_run s ts =
     timer_create G lcb timer name cb first rounds arg auto_run K_OBJ_STATIC_ALLOC s ts"

definition ktimer_init :: "timer_globals \<Rightarrow> kernel \<Rightarrow> timer_sys \<Rightarrow> kernel \<times> timer_sys" where
  "ktimer_init G s ts =
     (let ts = ts\<lparr>g_timer_head := []\<rparr>;
          (_, s) = krhino_fix_buf_queue_create (g_timer_queue G) (timer_queue_name G) (timer_queue_cb G) 24
            RHINO_CONFIG_TIMER_MSG_NUM s;
          (_, s) = krhino_task_create (g_timer_task G) (timer_task_name G) NULL 5 0 (g_timer_task_stack G) 200
            (timer_task_entry G) True s
      in (s, ts))"

subsection \<open>The timer task\<close>

definition timer_err :: "kstat_t \<Rightarrow> timer_sys \<Rightarrow> timer_sys" where
  "timer_err e ts = ts\<lparr>timer_errs := timer_errs ts @ [e]\<rparr>"

definition cmd_proc :: "k_timer_queue_cb \<Rightarrow> byte \<Rightarrow> timer_sys \<Rightarrow> timer_sys" where
  "cmd_proc cb cmd ts =
     (let timer = cb_timer cb;
          k = timers ts timer in
      if cmd = TIMER_CMD_START then
        if timer_obj_type k \<noteq> RHINO_TIMER_OBJ_TYPE then ts
        else if timer_state k = TIMER_ACTIVE then ts
        else
          let ts = upd_timer timer (\<lambda>k. k\<lparr>match := g_timer_count ts + init_count k\<rparr>) ts;
              ts = upd_timer timer (\<lambda>k. k\<lparr>remain := init_count k\<rparr>) ts;
              ts = upd_timer timer (\<lambda>k. k\<lparr>to_head := True\<rparr>) ts;
              ts = timer_list_pri_insert timer ts
          in upd_timer timer (\<lambda>k. k\<lparr>timer_state := TIMER_ACTIVE\<rparr>) ts
      else if cmd = TIMER_CMD_STOP then
        if timer_obj_type k \<noteq> RHINO_TIMER_OBJ_TYPE then ts
        else if timer_state k = TIMER_DEACTIVE then ts
        else
          let ts = timer_list_rm timer ts
          in upd_timer timer (\<lambda>k. k\<lparr>timer_state := TIMER_DEACTIVE\<rparr>) ts
      else if cmd = TIMER_CMD_CHG then
        if cb_first cb = 0 then ts
        else if timer_obj_type k \<noteq> RHINO_TIMER_OBJ_TYPE then ts
        else if timer_state k \<noteq> TIMER_DEACTIVE then ts
        else upd_timer timer (\<lambda>k. k\<lparr>init_count := cb_first cb, round_ticks := cb_u cb\<rparr>) ts
      else if cmd = TIMER_ARG_CHG then
        if timer_obj_type k \<noteq> RHINO_TIMER_OBJ_TYPE then ts
        else if timer_state k \<noteq> TIMER_DEACTIVE then ts
        else upd_timer timer (\<lambda>k. k\<lparr>timer_cb_arg := ucast (cb_u cb)\<rparr>) ts
      else if cmd = TIMER_CMD_DEL then
        if timer_obj_type k \<noteq> RHINO_TIMER_OBJ_TYPE then ts
        else if timer_state k \<noteq> TIMER_DEACTIVE then ts
        else if timer_alloc_flag k \<noteq> K_OBJ_STATIC_ALLOC then ts
        else upd_timer timer (\<lambda>k. k\<lparr>timer_obj_type := RHINO_OBJ_TYPE_NONE\<rparr>) ts
      else timer_err RHINO_SYS_FATAL_ERR ts)"

definition timer_cmd_proc :: "k_timer_queue_cb \<Rightarrow> timer_sys \<Rightarrow> timer_sys" where
  "timer_cmd_proc cb ts =
     (if cb_num cb = TIMER_ARG_CHG_AUTO then
        let ts = cmd_proc cb TIMER_CMD_STOP ts;
            ts = cmd_proc cb TIMER_ARG_CHG ts
        in cmd_proc cb TIMER_CMD_START ts
      else cmd_proc cb (cb_num cb) ts)"

text \<open>
  The loop over the list goes on from the element at hand to its successor. An element that was put
  back has the successor of its new place; one that was only taken off keeps its old successor, since
  \<^verbatim>\<open>klist_rm\<close> does not touch the links of the element. Differences of times are signed and wrap around.
\<close>

definition succ_in :: "ptr \<Rightarrow> ptr list \<Rightarrow> ptr option" where
  "succ_in x xs = (case dropWhile (\<lambda>y. y \<noteq> x) xs of _ # y # _ \<Rightarrow> Some y | _ \<Rightarrow> None)"

definition timer_cb_one :: "ptr \<Rightarrow> timer_sys \<Rightarrow> timer_sys \<times> ptr option" where
  "timer_cb_one timer ts =
     (let ts = ts\<lparr>called := called ts @ [(timer, timer_cb_arg (timers ts timer), match (timers ts timer), g_timer_count ts)]\<rparr>;
          nxt = succ_in timer (g_timer_head ts);
          ts = timer_list_rm timer ts in
      if round_ticks (timers ts timer) > 0 then
        let ts = upd_timer timer (\<lambda>k. k\<lparr>remain := round_ticks k\<rparr>) ts;
            ts = upd_timer timer (\<lambda>k. k\<lparr>match := g_timer_count ts + remain k\<rparr>) ts;
            ts = upd_timer timer (\<lambda>k. k\<lparr>to_head := True\<rparr>) ts;
            ts = timer_list_pri_insert timer ts
        in (ts, succ_in timer (g_timer_head ts))
      else (upd_timer timer (\<lambda>k. k\<lparr>timer_state := TIMER_DEACTIVE\<rparr>) ts, nxt))"

partial_function (option) timer_cb_walk :: "ptr option \<Rightarrow> timer_sys \<Rightarrow> timer_sys option" where
  "timer_cb_walk q ts =
     (case q of
        None \<Rightarrow> Some ts
      | Some timer \<Rightarrow>
          if sint (match (timers ts timer) - g_timer_count ts) \<le> 0 then
            let (ts, nxt) = timer_cb_one timer ts in timer_cb_walk nxt ts
          else Some ts)"

definition timer_cb_proc :: "timer_sys \<Rightarrow> timer_sys option" where
  "timer_cb_proc ts = timer_cb_walk (case g_timer_head ts of [] \<Rightarrow> None | q # _ \<Rightarrow> Some q) ts"

text \<open>
  The timer task from one wait to the next. \<open>timer_task_poll\<close> is the inner loop up to the call that
  waits: its result is the time to wait, or \<open>None\<close> when no timer runs and the outer loop waits for ever.
  \<open>timer_task_resume\<close> is what happens when a wait ends, in the outer loop (where the wait had no limit) or
  in the inner one, with the result of the call, the command received and the time.
\<close>

partial_function (option) timer_task_poll :: "sys_time_t \<Rightarrow> timer_sys \<Rightarrow> (sys_time_t option \<times> timer_sys) option" where
  "timer_task_poll tick_start ts =
     (case g_timer_head ts of
        [] \<Rightarrow> Some (None, ts)
      | timer # _ \<Rightarrow>
          let delta = match (timers ts timer) - tick_start in
          if sint delta > 0 then Some (Some delta, ts)
          else do {
            ts \<leftarrow> timer_cb_proc (ts\<lparr>g_timer_count := tick_start\<rparr>);
            timer_task_poll tick_start ts
          })"

definition timer_task_resume ::
  "bool \<Rightarrow> kstat_t \<Rightarrow> k_timer_queue_cb \<Rightarrow> sys_time_t \<Rightarrow> timer_sys \<Rightarrow> (sys_time_t option \<times> timer_sys) option" where
  "timer_task_resume inner err cb_msg tick_end ts =
     (if inner then do {
        let ts = (if err = RHINO_BLK_TIMEOUT then ts\<lparr>g_timer_count := tick_end\<rparr>
                  else if err = RHINO_SUCCESS then timer_cmd_proc cb_msg (ts\<lparr>g_timer_count := tick_end\<rparr>)
                  else timer_err RHINO_SYS_FATAL_ERR ts);
        ts \<leftarrow> timer_cb_proc ts;
        timer_task_poll tick_end ts
      }
      else
        let ts = (if err = RHINO_SUCCESS then ts\<lparr>g_timer_count := tick_end\<rparr> else timer_err RHINO_SYS_FATAL_ERR ts)
        in timer_task_poll tick_end (timer_cmd_proc cb_msg ts))"

section \<open>Calling the timers that are due\<close>

lemma sint_unat: "sint w = (if unat w < 9223372036854775808 then int (unat w) else int (unat w) - 18446744073709551616)" for w :: "64 word"
proof -
  have u: "uint w = int (unat w)" by simp
  have b: "int (unat w) < 18446744073709551616" using unsigned_less [of w, where 'a = int] by simp
  have s: "sint w = (int (unat w) + 9223372036854775808) mod 18446744073709551616 - 9223372036854775808"
    by (simp add: sint_uint signed_take_bit_eq_take_bit_shift take_bit_eq_mod u del: of_nat_unat)
  show ?thesis
  proof (cases "unat w < 9223372036854775808")
    case True
    then have "(int (unat w) + 9223372036854775808) mod 18446744073709551616 = int (unat w) + 9223372036854775808" by (intro mod_pos_pos_trivial) linarith+
    then show ?thesis using s True by simp
  next
    case False
    have "(int (unat w) + 9223372036854775808) mod 18446744073709551616 = (int (unat w) - 9223372036854775808 + 18446744073709551616) mod 18446744073709551616" by (simp add: algebra_simps)
    also have "\<dots> = int (unat w) - 9223372036854775808" using False b by (simp only: mod_add_self2) (intro mod_pos_pos_trivial; linarith)
    finally show ?thesis using s False by simp
  qed
qed

lemma sint_pos_iff: "0 < sint w \<longleftrightarrow> w \<noteq> 0 \<and> unat w < 9223372036854775808" for w :: "64 word"
  using unsigned_less [of w, where 'a = nat] by (auto simp: sint_unat unat_gt_0 simp del: of_nat_unat)

text \<open>
  The list holds exactly the timers that are active, each once, and the times of every timer are below
  half the range.
\<close>

definition one_ok :: "ktimer_t \<Rightarrow> bool \<Rightarrow> bool" where
  "one_ok k listed \<longleftrightarrow>
     (if timer_obj_type k = RHINO_TIMER_OBJ_TYPE
      then (timer_state k = TIMER_ACTIVE \<longleftrightarrow> listed) \<and> (to_head k \<longleftrightarrow> listed) \<and>
        0 < init_count k \<and> init_count k < MAX_TIMER_TICKS \<and> round_ticks k < MAX_TIMER_TICKS
      else \<not> listed)"

definition timer_ok :: "timer_sys \<Rightarrow> bool" where
  "timer_ok ts \<longleftrightarrow> distinct (g_timer_head ts) \<and> (\<forall>t. one_ok (timers ts t) (t \<in> set (g_timer_head ts)))"

lemma timer_okD:
  assumes "timer_ok ts"
  shows "distinct (g_timer_head ts)" and "one_ok (timers ts t) (t \<in> set (g_timer_head ts))"
  using assms by (simp_all add: timer_ok_def)

lemma one_okD:
  assumes "one_ok k True"
  shows "timer_obj_type k = RHINO_TIMER_OBJ_TYPE" "timer_state k = TIMER_ACTIVE" "to_head k" "round_ticks k < MAX_TIMER_TICKS"
  using assms by (auto simp: one_ok_def split: if_splits)

lemma timer_ok_log [simp]: "timer_ok (ts\<lparr>called := c\<rparr>) = timer_ok ts" "timer_ok (ts\<lparr>g_timer_count := n\<rparr>) = timer_ok ts"
  "timer_ok (timer_err err ts) = timer_ok ts"
  by (simp_all add: timer_ok_def timer_err_def)

lemma timer_ok_upd:
  assumes "timer_ok ts" and "distinct h" and "set h - {t} = set (g_timer_head ts) - {t}" and "one_ok k (t \<in> set h)"
  shows "timer_ok (ts\<lparr>timers := (timers ts)(t := k), g_timer_head := h\<rparr>)"
proof -
  have "x \<in> set h \<longleftrightarrow> x \<in> set (g_timer_head ts)" if "x \<noteq> t" for x using assms(3) that by blast
  then show ?thesis using assms(1,2,4) by (simp add: timer_ok_def)
qed

definition due :: "sys_time_t \<Rightarrow> timer_sys \<Rightarrow> ptr set" where
  "due n ts = {t \<in> set (g_timer_head ts). sint (match (timers ts t) - n) \<le> 0}"

text \<open>Sorted by the time that remains, and no timer late.\<close>

definition timely :: "sys_time_t \<Rightarrow> timer_sys \<Rightarrow> bool" where
  "timely n ts \<longleftrightarrow> sorted (map (\<lambda>t. unat (match (timers ts t) - n)) (g_timer_head ts)) \<and>
     (\<forall>t \<in> set (g_timer_head ts). unat (match (timers ts t) - n) < 9223372036854775808)"

definition after_call :: "sys_time_t \<Rightarrow> ktimer_t \<Rightarrow> ktimer_t" where
  "after_call n k = (if round_ticks k > 0 then k\<lparr>remain := round_ticks k, match := n + round_ticks k\<rparr>
     else k\<lparr>to_head := False, timer_state := TIMER_DEACTIVE\<rparr>)"

text \<open>From one state to another, exactly the timers of a list are called, at a certain time.\<close>

definition fires :: "sys_time_t \<Rightarrow> ptr list \<Rightarrow> timer_sys \<Rightarrow> timer_sys \<Rightarrow> bool" where
  "fires n new ts ts' \<longleftrightarrow>
     called ts' = called ts @ map (\<lambda>t. (t, timer_cb_arg (timers ts t), match (timers ts t), n)) new \<and>
     distinct new \<and> set new \<subseteq> due n ts \<and>
     timers ts' = (\<lambda>t. if t \<in> set new then after_call n (timers ts t) else timers ts t) \<and>
     set (g_timer_head ts') = set (g_timer_head ts) - {t \<in> set new. round_ticks (timers ts t) = 0} \<and>
     timer_ok ts' \<and> g_timer_count ts' = g_timer_count ts \<and> timer_errs ts' = timer_errs ts"

lemma one_ok_after_call: "one_ok k True \<Longrightarrow> one_ok (after_call n k) (round_ticks k > 0)"
  by (auto simp: one_ok_def after_call_def split: if_splits)

lemma fires_none: "timer_ok ts \<Longrightarrow> fires n [] ts ts"
  by (simp add: fires_def)

lemma called_not_due:
  assumes "r < MAX_TIMER_TICKS" and "0 < r"
  shows "\<not> sint (n + r - n) \<le> 0"
  using assms by (simp add: not_le sint_pos_iff word_less_nat_alt) auto

lemma fires_due:
  assumes "timer_ok ts" and "fires n new ts ts'"
  shows "due n ts' = due n ts - set new"
proof -
  have "sint (match (after_call n (timers ts t)) - n) > 0" if "t \<in> set new" "round_ticks (timers ts t) \<noteq> 0" for t
  proof -
    have "one_ok (timers ts t) True" using that(1) assms timer_okD(2) [of ts t] by (auto simp: fires_def due_def)
    then show ?thesis
      using that(2) called_not_due [of "round_ticks (timers ts t)" n] one_okD(4)
      by (auto simp: after_call_def word_neq_0_conv)
  qed
  note late = this
  have t: "timers ts' t = (if t \<in> set new then after_call n (timers ts t) else timers ts t)"
    and h: "t \<in> set (g_timer_head ts') \<longleftrightarrow> t \<in> set (g_timer_head ts) \<and> \<not> (t \<in> set new \<and> round_ticks (timers ts t) = 0)" for t
    using assms(2) by (auto simp: fires_def)
  show ?thesis
  proof (rule set_eqI)
    fix t
    show "t \<in> due n ts' \<longleftrightarrow> t \<in> due n ts - set new"
      using late [of t] t [of t] h [of t] by (cases "t \<in> set new") (auto simp: due_def)
  qed
qed

lemma fires_trans:
  assumes "timer_ok ts" and "fires n a ts ts1" and "fires n b ts1 ts2"
  shows "fires n (a @ b) ts ts2"
proof -
  have d: "set b \<subseteq> due n ts - set a" using assms(3) fires_due [OF assms(1,2)] by (simp add: fires_def)
  then have e: "timers ts1 t = timers ts t" if "t \<in> set b" for t
    using that assms(2) by (auto simp: fires_def)
  have "timers ts2 = (\<lambda>t. if t \<in> set (a @ b) then after_call n (timers ts t) else timers ts t)"
    using assms(2,3) d by (fastforce simp: fires_def)
  moreover have "called ts2 = called ts @ map (\<lambda>t. (t, timer_cb_arg (timers ts t), match (timers ts t), n)) (a @ b)"
    using assms(2,3) e by (simp add: fires_def)
  moreover have "set (g_timer_head ts2) = set (g_timer_head ts) - {t \<in> set (a @ b). round_ticks (timers ts t) = 0}"
  proof -
    have "{t \<in> set b. round_ticks (timers ts1 t) = 0} = {t \<in> set b. round_ticks (timers ts t) = 0}" using e by auto
    then show ?thesis using assms(2,3) by (auto simp: fires_def)
  qed
  ultimately show ?thesis
    using assms(2,3) d by (auto simp: fires_def)
qed

lemma succ_in_set: "succ_in x xs = Some y \<Longrightarrow> y \<in> set xs \<and> (distinct xs \<longrightarrow> y \<noteq> x)"
proof -
  assume "succ_in x xs = Some y"
  then obtain z zs where d: "dropWhile (\<lambda>y. y \<noteq> x) xs = z # y # zs"
    by (auto simp: succ_in_def split: list.splits)
  have e: "xs = takeWhile (\<lambda>y. y \<noteq> x) xs @ z # y # zs" using takeWhile_dropWhile_id [of "\<lambda>y. y \<noteq> x" xs] d by simp
  have "z = x" using hd_dropWhile [of "\<lambda>y. y \<noteq> x" xs] d by auto
  then show ?thesis using e by (metis distinct_append distinct_length_2_or_more in_set_conv_decomp list.set_intros(1,2) Un_iff set_append)
qed

lemma insert_before_cong:
  "(\<And>q. q \<in> set xs \<Longrightarrow> P q \<longleftrightarrow> Q q) \<Longrightarrow> insert_before P t xs = insert_before Q t xs"
  by (induction xs) auto

lemma timer_cb_one_eq:
  assumes "timer_ok ts" and "g_timer_count ts = n" and "t \<in> set (g_timer_head ts)"
  defines "k \<equiv> timers ts t" and "rest \<equiv> remove1 t (g_timer_head ts)"
  shows "fst (timer_cb_one t ts) =
    ts\<lparr>called := called ts @ [(t, timer_cb_arg k, match k, n)], timers := (timers ts)(t := after_call n k),
      g_timer_head := (if round_ticks k > 0 then insert_before (\<lambda>q. match (timers ts q) - n > round_ticks k) t rest else rest)\<rparr>"
proof -
  have th: "to_head k" using one_okD(3) timer_okD(2) [OF assms(1), of t] assms(3) by (simp add: k_def)
  then have kt: "k\<lparr>remain := a, match := b, to_head := True\<rparr> = k\<lparr>remain := a, match := b\<rparr>" for a b by (cases k) simp
  have nt: "t \<notin> set rest" using assms(1) by (simp add: timer_ok_def rest_def)
  show ?thesis
  proof (cases "round_ticks k > 0")
    case True
    then show ?thesis
      using th assms(2)
      by (simp add: timer_cb_one_def Let_def timer_list_rm_def upd_timer_def timer_list_pri_insert_def k_def [symmetric]
          rest_def [symmetric] after_call_def kt)
        (rule arg_cong [of _ _ "\<lambda>h. _\<lparr>g_timer_head := h\<rparr>"], rule insert_before_cong, use nt in auto)
  next
    case False
    then show ?thesis
      using th assms(2)
      by (simp add: timer_cb_one_def Let_def timer_list_rm_def upd_timer_def k_def [symmetric] rest_def [symmetric] after_call_def)
  qed
qed

lemma timely_log [simp]: "timely n (ts\<lparr>g_timer_count := c\<rparr>) = timely n ts" "timely n (ts\<lparr>called := l\<rparr>) = timely n ts"
  by (simp_all add: timely_def)

lemma timely_unlisted:
  assumes "timely n ts" and "t \<notin> set (g_timer_head ts)"
  shows "timely n (ts\<lparr>timers := (timers ts)(t := k), g_timer_head := g_timer_head ts\<rparr>)"
proof -
  have "map (\<lambda>q. unat (match (((timers ts)(t := k)) q) - n)) (g_timer_head ts) = map (\<lambda>q. unat (match (timers ts q) - n)) (g_timer_head ts)"
    using assms(2) by (intro map_cong refl) auto
  then have "sorted (map (\<lambda>q. unat (match (((timers ts)(t := k)) q) - n)) (g_timer_head ts))"
    using assms(1) by (simp only: timely_def)
  then show ?thesis using assms by (auto simp: timely_def)
qed

lemma timely_remove:
  assumes "timely n ts" and "distinct (g_timer_head ts)"
  shows "timely n (ts\<lparr>timers := (timers ts)(t := k), g_timer_head := remove1 t (g_timer_head ts)\<rparr>)"
proof -
  have "timely n (ts\<lparr>g_timer_head := remove1 t (g_timer_head ts)\<rparr>)"
    using assms sorted_map_remove1 by (auto simp: timely_def dest: notin_set_remove1)
  from timely_unlisted [OF this, of t k] show ?thesis using assms(2) by simp
qed

lemma timely_insert:
  assumes "timely n ts" and "t \<notin> set (g_timer_head ts)" and "match k = n + r" and "r < MAX_TIMER_TICKS"
  shows "timely n (ts\<lparr>timers := (timers ts)(t := k),
    g_timer_head := insert_before (\<lambda>q. match (timers ts q) - n > r) t (g_timer_head ts)\<rparr>)"
proof -
  let ?key = "\<lambda>q. unat (match (((timers ts)(t := k)) q) - n)"
  have key: "?key q = unat (match (timers ts q) - n)" if "q \<in> set (g_timer_head ts)" for q using that assms(2) by auto
  have kt: "?key t = unat r" using assms(3) by simp
  have "sorted (map ?key (g_timer_head ts))" using timely_unlisted [OF assms(1,2), of k] by (simp add: timely_def)
  then have "sorted (map ?key (insert_before (\<lambda>q. match (timers ts q) - n > r) t (g_timer_head ts)))"
    by (rule sorted_insert_before) (use key kt in \<open>simp add: word_less_nat_alt\<close>)
  moreover have "unat r < 9223372036854775808" using assms(4) by (simp add: word_less_nat_alt)
  ultimately show ?thesis using assms(1) kt key by (auto simp: timely_def)
qed

lemma timer_cb_one_fires:
  assumes ok: "timer_ok ts" and n: "g_timer_count ts = n" and t: "t \<in> due n ts"
  shows "fires n [t] ts (fst (timer_cb_one t ts))"
    and "snd (timer_cb_one t ts) = Some q \<Longrightarrow> q \<in> set (g_timer_head (fst (timer_cb_one t ts)))"
proof -
  define k where "k = timers ts t"
  define rest where "rest = remove1 t (g_timer_head ts)"
  have th: "t \<in> set (g_timer_head ts)" using t by (simp add: due_def)
  note e = timer_cb_one_eq [OF ok n th, folded k_def rest_def]
  have d: "distinct (g_timer_head ts)" using ok by (simp add: timer_ok_def)
  then have rest: "set rest = set (g_timer_head ts) - {t}" "distinct rest" by (simp_all add: rest_def)
  have ok1: "one_ok k True" using timer_okD(2) [OF ok, of t] th by (simp add: k_def)
  note k = one_okD(3) [OF ok1]
  let ?h = "if round_ticks k > 0 then insert_before (\<lambda>q. match (timers ts q) - n > round_ticks k) t rest else rest"
  have "timer_ok (fst (timer_cb_one t ts))" unfolding e
  proof (rule timer_ok_upd [of "ts\<lparr>called := c\<rparr>" for c, simplified])
    show "timer_ok ts" by (rule ok)
    show "distinct ?h" using rest by simp
    show "set ?h - {t} = set (g_timer_head ts) - {t}" using rest(1) by auto
    show "one_ok (after_call n k) (t \<in> set ?h)" using one_ok_after_call [OF ok1, of n] rest(1) by (cases "round_ticks k > 0") simp_all
  qed
  moreover have "set ?h = set (g_timer_head ts) - {x \<in> set [t]. round_ticks (timers ts x) = 0}"
  proof (cases "round_ticks k = 0")
    case True
    then have "{x \<in> set [t]. round_ticks (timers ts x) = 0} = {t}" by (auto simp: k_def)
    then show ?thesis using True rest(1) by simp
  next
    case False
    then have "{x \<in> set [t]. round_ticks (timers ts x) = 0} = {}" by (auto simp: k_def)
    moreover have "round_ticks k > 0" using False by (simp only: word_neq_0_conv)
    moreover have "insert t (set (g_timer_head ts) - {t}) = set (g_timer_head ts)" using th by blast
    ultimately show ?thesis using rest(1) by (simp only: if_True set_insert_before Diff_empty)
  qed
  moreover have "(timers ts)(t := after_call n k) = (\<lambda>x. if x \<in> set [t] then after_call n (timers ts x) else timers ts x)"
    by (auto simp: k_def)
  ultimately show "fires n [t] ts (fst (timer_cb_one t ts))"
    using t unfolding fires_def e by (simp add: k_def [symmetric])
  show "q \<in> set (g_timer_head (fst (timer_cb_one t ts)))" if "snd (timer_cb_one t ts) = Some q"
  proof (cases "round_ticks k > 0")
    case True
    then have "snd (timer_cb_one t ts) = succ_in t (g_timer_head (fst (timer_cb_one t ts)))"
      using k by (simp add: timer_cb_one_def Let_def timer_list_rm_def upd_timer_def k_def)
    then show ?thesis using that succ_in_set by auto
  next
    case False
    then have "snd (timer_cb_one t ts) = succ_in t (g_timer_head ts)"
      using k by (simp add: timer_cb_one_def Let_def timer_list_rm_def upd_timer_def k_def)
    then show ?thesis using that succ_in_set [of t "g_timer_head ts" q] d False rest by (simp add: e)
  qed
qed

lemma timer_cb_one_timely:
  assumes ok: "timer_ok ts" and n: "g_timer_count ts = n" and t: "t \<in> due n ts" and "timely n ts"
  shows "timely n (fst (timer_cb_one t ts))"
proof -
  define k where "k = timers ts t"
  define ts0 where "ts0 = ts\<lparr>called := called ts @ [(t, timer_cb_arg k, match k, n)]\<rparr>"
  define ts1 where "ts1 = ts0\<lparr>timers := timers ts, g_timer_head := remove1 t (g_timer_head ts)\<rparr>"
  have th: "t \<in> set (g_timer_head ts)" using t by (simp add: due_def)
  have d: "distinct (g_timer_head ts)" by (rule timer_okD(1) [OF ok])
  note e = timer_cb_one_eq [OF ok n th, folded k_def ts0_def]
  have "timely n ts0" using assms(4) by (simp add: ts0_def)
  note r = timely_remove [OF this, of t]
  have ts1: "timely n ts1" "t \<notin> set (g_timer_head ts1)" using r [of k] d by (simp_all add: ts1_def ts0_def k_def)
  have "one_ok k True" using timer_okD(2) [OF ok, of t] th by (simp add: k_def)
  then have "round_ticks k < MAX_TIMER_TICKS" by (rule one_okD(4))
  from timely_insert [OF ts1, of "after_call n k" "round_ticks k"] this r [of "after_call n k"] d
  show ?thesis unfolding e by (cases "round_ticks k > 0") (simp_all add: after_call_def ts1_def ts0_def)
qed

lemma finite_due [simp]: "finite (due n ts)"
  by (simp add: due_def)

text \<open>The loop ends: a timer that was called is not due again.\<close>

lemma timer_cb_walk_fires:
  assumes "timer_ok ts" and "g_timer_count ts = n" and "\<And>t. q = Some t \<Longrightarrow> t \<in> set (g_timer_head ts)"
  shows "\<exists>new ts'. timer_cb_walk q ts = Some ts' \<and> fires n new ts ts' \<and>
    (\<forall>t. q = Some t \<longrightarrow> t \<in> due n ts \<longrightarrow> t \<in> set new) \<and> (timely n ts \<longrightarrow> timely n ts')"
  using assms
proof (induction "card (due n ts)" arbitrary: q ts rule: less_induct)
  case less
  show ?case
  proof (cases "\<exists>t. q = Some t \<and> t \<in> due n ts")
    case False
    then have "timer_cb_walk q ts = Some ts"
      using less.prems by (auto simp: timer_cb_walk.simps [of q] due_def split: option.splits)
    then show ?thesis using False fires_none [OF less.prems(1), of n] by (intro exI [of _ "[]"] exI [of _ ts]) auto
  next
    case True
    then obtain t where q: "q = Some t" and t: "t \<in> due n ts" by blast
    obtain ts1 nxt where o: "timer_cb_one t ts = (ts1, nxt)" by (cases "timer_cb_one t ts")
    note f = timer_cb_one_fires [OF less.prems(1,2) t, unfolded o fst_conv snd_conv]
    note f3 = timer_cb_one_timely [OF less.prems(1,2) t, unfolded o fst_conv]
    have w: "timer_cb_walk q ts = timer_cb_walk nxt ts1"
      using t less.prems(2) by (simp add: q timer_cb_walk.simps [of "Some t"] due_def o)
    have ok: "timer_ok ts1" "g_timer_count ts1 = n" using f(1) less.prems(2) by (simp_all add: fires_def)
    have "due n ts1 = due n ts - {t}" using fires_due [OF less.prems(1) f(1)] by simp
    then have "card (due n ts1) < card (due n ts)" using t by (metis card_Diff1_less finite_due)
    from less.hyps [OF this ok f(2)] obtain new ts' where
      "timer_cb_walk nxt ts1 = Some ts'" "fires n new ts1 ts'" "timely n ts1 \<longrightarrow> timely n ts'" by blast
    then show ?thesis
      using w fires_trans [OF less.prems(1) f(1)] f3 q by (intro exI [of _ "[t] @ new"] exI [of _ ts']) simp
  qed
qed

lemma timer_cb_proc_fires:
  assumes "timer_ok ts" and "g_timer_count ts = n"
  shows "\<exists>new ts'. timer_cb_proc ts = Some ts' \<and> fires n new ts ts' \<and>
    (g_timer_head ts \<noteq> [] \<longrightarrow> hd (g_timer_head ts) \<in> due n ts \<longrightarrow> hd (g_timer_head ts) \<in> set new) \<and> (timely n ts \<longrightarrow> timely n ts')"
  using timer_cb_walk_fires [OF assms, of "case g_timer_head ts of [] \<Rightarrow> None | q # _ \<Rightarrow> Some q"]
  by (cases "g_timer_head ts") (auto simp: timer_cb_proc_def)

text \<open>So does the inner loop of the task, at the first timer that is not due.\<close>

lemma timer_task_poll_fires:
  assumes "timer_ok ts" and "g_timer_count ts = n"
  shows "\<exists>w new ts'. timer_task_poll n ts = Some (w, ts') \<and> fires n new ts ts' \<and> (timely n ts \<longrightarrow> timely n ts') \<and>
    (case g_timer_head ts' of [] \<Rightarrow> w = None | t # _ \<Rightarrow> w = Some (match (timers ts' t) - n) \<and> t \<notin> due n ts')"
  using assms
proof (induction "card (due n ts)" arbitrary: ts rule: less_induct)
  case less
  show ?case
  proof (cases "g_timer_head ts = [] \<or> hd (g_timer_head ts) \<notin> due n ts")
    case True
    then show ?thesis
      using fires_none [OF less.prems(1), of n]
      by (intro exI [of _ "case g_timer_head ts of [] \<Rightarrow> None | t # _ \<Rightarrow> Some (match (timers ts t) - n)"] exI [of _ "[]"] exI [of _ ts])
        (auto simp: timer_task_poll.simps [of n ts] due_def Let_def split: list.splits)
  next
    case False
    then obtain t h where h: "g_timer_head ts = t # h" and t: "t \<in> due n ts" by (cases "g_timer_head ts") auto
    have n: "ts\<lparr>g_timer_count := n\<rparr> = ts" using less.prems(2) by (cases ts) simp
    obtain new ts1 where c: "timer_cb_proc ts = Some ts1" "fires n new ts ts1" "t \<in> set new" "timely n ts \<longrightarrow> timely n ts1"
      using timer_cb_proc_fires [OF less.prems] h t by auto
    have p: "timer_task_poll n ts = timer_task_poll n ts1"
      using t by (simp add: timer_task_poll.simps [of n ts] h due_def n c(1))
    have ok: "timer_ok ts1" "g_timer_count ts1 = n" using c(2) less.prems(2) by (simp_all add: fires_def)
    have "due n ts1 \<subset> due n ts" using fires_due [OF less.prems(1) c(2)] c(3) t by blast
    then have "card (due n ts1) < card (due n ts)" by (simp add: psubset_card_mono)
    from less.hyps [OF this ok] obtain w b ts' where "timer_task_poll n ts1 = Some (w, ts')" "fires n b ts1 ts'"
      "timely n ts1 \<longrightarrow> timely n ts'"
      "case g_timer_head ts' of [] \<Rightarrow> w = None | t # _ \<Rightarrow> w = Some (match (timers ts' t) - n) \<and> t \<notin> due n ts'" by blast
    then show ?thesis
      using p fires_trans [OF less.prems(1) c(2)] c(4) by (intro exI [of _ w] exI [of _ "new @ b"] exI [of _ ts']) simp
  qed
qed

section \<open>Commands\<close>

text \<open>What every command does: it changes one timer and its place in the list, and nothing else.\<close>

definition touches :: "ptr \<Rightarrow> timer_sys \<Rightarrow> timer_sys \<Rightarrow> bool" where
  "touches t ts ts' \<longleftrightarrow> timer_ok ts' \<and> g_timer_count ts' = g_timer_count ts \<and> timer_errs ts' = timer_errs ts \<and> called ts' = called ts \<and>
     (\<forall>x. x \<noteq> t \<longrightarrow> timers ts' x = timers ts x \<and> (x \<in> set (g_timer_head ts') \<longleftrightarrow> x \<in> set (g_timer_head ts))) \<and>
     (timely (g_timer_count ts) ts \<longrightarrow> timely (g_timer_count ts) ts')"

lemma touches_refl: "timer_ok ts \<Longrightarrow> touches t ts ts"
  by (simp add: touches_def)

lemma touches_trans: "touches t a b \<Longrightarrow> touches t b c \<Longrightarrow> touches t a c"
  by (simp add: touches_def)

lemma touches_upd:
  assumes "timer_ok ts" and "one_ok k (t \<in> set h)" and "distinct h" and "set h - {t} = set (g_timer_head ts) - {t}"
    and "timely (g_timer_count ts) ts \<Longrightarrow> timely (g_timer_count ts) (ts\<lparr>timers := (timers ts)(t := k), g_timer_head := h\<rparr>)"
  shows "touches t ts (ts\<lparr>timers := (timers ts)(t := k), g_timer_head := h\<rparr>)"
proof -
  have "x \<in> set h \<longleftrightarrow> x \<in> set (g_timer_head ts)" if "x \<noteq> t" for x using assms(4) that by blast
  then show ?thesis using timer_ok_upd [OF assms(1,3,4,2)] assms(5) by (simp add: touches_def)
qed

lemma one_ok_states:
  assumes "one_ok k b" and "timer_obj_type k = RHINO_TIMER_OBJ_TYPE"
  shows "timer_state k = TIMER_ACTIVE \<longleftrightarrow> b" "timer_state k = TIMER_DEACTIVE \<longleftrightarrow> \<not> b" "to_head k \<longleftrightarrow> b"
    "0 < init_count k" "init_count k < MAX_TIMER_TICKS" "round_ticks k < MAX_TIMER_TICKS"
  using assms by (cases "timer_state k"; simp add: one_ok_def)+

lemma cmd_start_eq:
  fixes ts :: timer_sys and t :: ptr
  defines "k \<equiv> timers ts t"
  assumes "timer_ok ts" and "cb_timer cb = t" and "timer_obj_type k = RHINO_TIMER_OBJ_TYPE" and "t \<notin> set (g_timer_head ts)"
  shows "cmd_proc cb TIMER_CMD_START ts = ts\<lparr>timers := (timers ts)(t := k\<lparr>match := g_timer_count ts + init_count k,
      remain := init_count k, to_head := True, timer_state := TIMER_ACTIVE\<rparr>),
    g_timer_head := insert_before (\<lambda>q. match (timers ts q) - g_timer_count ts > init_count k) t (g_timer_head ts)\<rparr>"
proof -
  have "timer_state k \<noteq> TIMER_ACTIVE" using timer_okD(2) [OF assms(2), of t] assms(4,5) by (simp add: one_ok_states k_def)
  then show ?thesis
    using assms(4)
    by (simp add: cmd_proc_def assms(3) k_def [symmetric] upd_timer_def timer_list_pri_insert_def)
      (rule timer_sys.equality, simp_all, rule insert_before_cong, use assms(5) in auto)
qed

lemma cmd_start:
  assumes "timer_ok ts" and "cb_timer cb = t"
  shows "touches t ts (cmd_proc cb TIMER_CMD_START ts)"
proof -
  define k where "k = timers ts t"
  note i = timer_okD(2) [OF assms(1), of t, folded k_def]
  show ?thesis
  proof (cases "timer_obj_type k = RHINO_TIMER_OBJ_TYPE \<and> t \<notin> set (g_timer_head ts)")
    case True
    note s = one_ok_states(4,5,6) [OF i]
    note e = cmd_start_eq [OF assms, folded k_def]
    show ?thesis
      using True s timer_okD(1) [OF assms(1)]
      by (subst e) (auto simp: one_ok_def intro!: timely_insert touches_upd [OF assms(1)])
  next
    case False
    then have "cmd_proc cb TIMER_CMD_START ts = ts"
      using one_ok_states(1) [OF i] by (auto simp: cmd_proc_def assms(2) k_def [symmetric])
    then show ?thesis using touches_refl [OF assms(1)] by simp
  qed
qed

lemma cmd_stop:
  assumes "timer_ok ts" and "cb_timer cb = t"
  shows "touches t ts (cmd_proc cb TIMER_CMD_STOP ts)" and "t \<notin> set (g_timer_head (cmd_proc cb TIMER_CMD_STOP ts))"
proof -
  define k where "k = timers ts t"
  define k' where "k' = k\<lparr>to_head := False, timer_state := TIMER_DEACTIVE\<rparr>"
  note i = timer_okD(2) [OF assms(1), of t, folded k_def]
  have "touches t ts (cmd_proc cb TIMER_CMD_STOP ts) \<and> t \<notin> set (g_timer_head (cmd_proc cb TIMER_CMD_STOP ts))"
  proof (cases "t \<in> set (g_timer_head ts)")
    case True
    then have k: "one_ok k True" using i by simp
    have "cmd_proc cb TIMER_CMD_STOP ts = ts\<lparr>timers := (timers ts)(t := k'), g_timer_head := remove1 t (g_timer_head ts)\<rparr>"
      using one_okD [OF k]
      by (simp add: cmd_proc_def assms(2) k_def [symmetric] upd_timer_def timer_list_rm_def k'_def)
    moreover have "one_ok k' False" using k by (auto simp: one_ok_def k'_def split: if_splits)
    then have "touches t ts (ts\<lparr>timers := (timers ts)(t := k'), g_timer_head := remove1 t (g_timer_head ts)\<rparr>)"
      using timer_okD(1) [OF assms(1)] by (intro touches_upd [OF assms(1)]) (auto intro: timely_remove)
    ultimately show ?thesis using timer_okD(1) [OF assms(1)] by simp
  next
    case False
    then have "cmd_proc cb TIMER_CMD_STOP ts = ts"
      using one_ok_states(2) [OF i] by (auto simp: cmd_proc_def assms(2) k_def [symmetric])
    then show ?thesis using False touches_refl [OF assms(1)] by simp
  qed
  then show "touches t ts (cmd_proc cb TIMER_CMD_STOP ts)" "t \<notin> set (g_timer_head (cmd_proc cb TIMER_CMD_STOP ts))" by simp_all
qed

lemma touches_unlisted:
  assumes "timer_ok ts" and "t \<notin> set (g_timer_head ts)" and "one_ok (f (timers ts t)) False"
  shows "touches t ts (upd_timer t f ts)"
proof -
  have "upd_timer t f ts = ts\<lparr>timers := (timers ts)(t := f (timers ts t)), g_timer_head := g_timer_head ts\<rparr>"
    by (simp add: upd_timer_def)
  moreover have "touches t ts (ts\<lparr>timers := (timers ts)(t := f (timers ts t)), g_timer_head := g_timer_head ts\<rparr>)"
    using assms timer_okD(1) [OF assms(1)] timely_unlisted by (intro touches_upd) auto
  ultimately show ?thesis by simp
qed

lemma cmd_others:
  assumes "timer_ok ts" and "cmd \<in> {TIMER_CMD_CHG, TIMER_ARG_CHG, TIMER_CMD_DEL}"
    and "cmd = TIMER_CMD_CHG \<Longrightarrow> cb_first cb < MAX_TIMER_TICKS \<and> cb_u cb < MAX_TIMER_TICKS"
  shows "touches (cb_timer cb) ts (cmd_proc cb cmd ts)"
proof -
  define k where "k = timers ts (cb_timer cb)"
  note i = timer_okD(2) [OF assms(1), of "cb_timer cb", folded k_def]
  show ?thesis
  proof (cases "timer_obj_type k = RHINO_TIMER_OBJ_TYPE \<and> timer_state k = TIMER_DEACTIVE")
    case True
    then have nl: "cb_timer cb \<notin> set (g_timer_head ts)" using one_ok_states(2) [OF i] by simp
    then have "one_ok k False" using i by simp
    then have "one_ok (k\<lparr>timer_cb_arg := a\<rparr>) False" "one_ok (k\<lparr>timer_obj_type := RHINO_OBJ_TYPE_NONE\<rparr>) False"
      "0 < f \<Longrightarrow> f < MAX_TIMER_TICKS \<Longrightarrow> r < MAX_TIMER_TICKS \<Longrightarrow> one_ok (k\<lparr>init_count := f, round_ticks := r\<rparr>) False" for a f r
      by (auto simp: one_ok_def split: if_splits)
    then show ?thesis
      using True assms touches_unlisted [OF assms(1) nl, folded k_def] touches_refl [OF assms(1)]
      by (auto simp: cmd_proc_def k_def [symmetric] word_neq_0_conv)
  next
    case False
    then have "cmd_proc cb cmd ts = ts" using assms(2) by (auto simp: cmd_proc_def k_def [symmetric])
    then show ?thesis using touches_refl [OF assms(1)] by simp
  qed
qed

text \<open>The commands that the interface sends.\<close>

definition cmd_ok :: "k_timer_queue_cb \<Rightarrow> bool" where
  "cmd_ok cb \<longleftrightarrow> cb_num cb \<in> {TIMER_CMD_START, TIMER_CMD_STOP, TIMER_CMD_CHG, TIMER_ARG_CHG, TIMER_ARG_CHG_AUTO, TIMER_CMD_DEL} \<and>
     (cb_num cb = TIMER_CMD_CHG \<longrightarrow> cb_first cb < MAX_TIMER_TICKS \<and> cb_u cb < MAX_TIMER_TICKS)"

lemma touches_ok: "touches t ts ts' \<Longrightarrow> timer_ok ts'"
  by (simp add: touches_def)

lemma timer_cmd_proc_touches:
  assumes "timer_ok ts" and "cmd_ok cb"
  shows "touches (cb_timer cb) ts (timer_cmd_proc cb ts)"
proof (cases "cb_num cb = TIMER_ARG_CHG_AUTO")
  case True
  note a = cmd_stop(1) [OF assms(1) refl, of cb]
  note b = cmd_others [OF touches_ok [OF a], of TIMER_ARG_CHG cb]
  have b: "touches (cb_timer cb) (cmd_proc cb TIMER_CMD_STOP ts) (cmd_proc cb TIMER_ARG_CHG (cmd_proc cb TIMER_CMD_STOP ts))"
    by (rule b) simp_all
  note c = cmd_start [OF touches_ok [OF b] refl]
  show ?thesis using touches_trans [OF touches_trans [OF a b] c] True by (simp add: timer_cmd_proc_def)
next
  case False
  consider "cb_num cb = TIMER_CMD_START" | "cb_num cb = TIMER_CMD_STOP" | "cb_num cb \<in> {TIMER_CMD_CHG, TIMER_ARG_CHG, TIMER_CMD_DEL}"
    using assms(2) False by (auto simp: cmd_ok_def)
  then show ?thesis
  proof cases
    case 3
    from cmd_others [OF assms(1) this, of cb] show ?thesis using False assms(2) by (simp add: timer_cmd_proc_def cmd_ok_def)
  qed (simp_all add: timer_cmd_proc_def cmd_start [OF assms(1)] cmd_stop(1) [OF assms(1)])
qed

section \<open>The life of the timer task\<close>

lemma timer_task_resume_fires:
  assumes "timer_ok ts" and "err = RHINO_SUCCESS \<and> cmd_ok c \<or> err = RHINO_BLK_TIMEOUT \<and> inner"
  shows "\<exists>w new ts1 ts'. timer_task_resume inner err c n ts = Some (w, ts') \<and>
    (if err = RHINO_SUCCESS then touches (cb_timer c) (ts\<lparr>g_timer_count := n\<rparr>) ts1 else ts1 = ts\<lparr>g_timer_count := n\<rparr>) \<and>
    fires n new ts1 ts' \<and> (timely n ts \<longrightarrow> timely n ts') \<and>
    (case g_timer_head ts' of [] \<Rightarrow> w = None | t # _ \<Rightarrow> w = Some (match (timers ts' t) - n) \<and> t \<notin> due n ts')"
proof -
  define ts1 where "ts1 = (if err = RHINO_SUCCESS then timer_cmd_proc c (ts\<lparr>g_timer_count := n\<rparr>) else ts\<lparr>g_timer_count := n\<rparr>)"
  have t1: "if err = RHINO_SUCCESS then touches (cb_timer c) (ts\<lparr>g_timer_count := n\<rparr>) ts1 else ts1 = ts\<lparr>g_timer_count := n\<rparr>"
    using assms timer_cmd_proc_touches [of "ts\<lparr>g_timer_count := n\<rparr>" c] by (auto simp: ts1_def)
  then have ok: "timer_ok ts1" "g_timer_count ts1 = n" "timely n ts \<longrightarrow> timely n ts1"
    using assms(1) by (auto simp: touches_def split: if_splits)
  obtain a ts2 where c: "timer_cb_proc ts1 = Some ts2" "fires n a ts1 ts2" "timely n ts1 \<longrightarrow> timely n ts2"
    using timer_cb_proc_fires [OF ok(1,2)] by blast
  define ts3 where "ts3 = (if inner then ts2 else ts1)"
  define b where "b = (if inner then a else [])"
  have f3: "fires n b ts1 ts3" "timely n ts \<longrightarrow> timely n ts3"
    using c fires_none [OF ok(1)] ok(3) by (auto simp: ts3_def b_def)
  then have "timer_ok ts3" "g_timer_count ts3 = n" using ok(2) by (simp_all add: fires_def)
  from timer_task_poll_fires [OF this] obtain d ts' w where p: "timer_task_poll n ts3 = Some (w, ts')" "fires n d ts3 ts'"
    "timely n ts3 \<longrightarrow> timely n ts'"
    "case g_timer_head ts' of [] \<Rightarrow> w = None | t # _ \<Rightarrow> w = Some (match (timers ts' t) - n) \<and> t \<notin> due n ts'" by blast
  have "timer_task_resume inner err c n ts = Some (w, ts')"
    using p(1) c(1) assms(2) by (auto simp: timer_task_resume_def ts1_def ts3_def Let_def split: if_splits)
  then show ?thesis using t1 fires_trans [OF ok(1) f3(1) p(2)] f3(2) p(3,4) by blast
qed

text \<open>
  The task with its surroundings: the time, the commands in the queue, and until when the task
  waits. Other tasks create timers and send commands, at most as many as the queue holds; a wait with a
  limit ends when this many ticks have passed. Between two waits the task runs in one step. If it
  is never late, time passes only while it waits; if it may be late, time passes at any moment.
\<close>

record timer_run =
  now :: sys_time_t
  cmds :: "k_timer_queue_cb list"
  deadline :: "sys_time_t option"
  tsys :: timer_sys

definition waiting :: "timer_run \<Rightarrow> bool" where
  "waiting r \<longleftrightarrow> cmds r = [] \<and> deadline r \<noteq> Some (now r)"

inductive timer_step :: "bool \<Rightarrow> timer_run \<Rightarrow> timer_run \<Rightarrow> bool" for late where
  create: "timer_create G lcb t name cb first rounds arg False K_OBJ_STATIC_ALLOC s (tsys r) = (RHINO_SUCCESS, s', ts) \<Longrightarrow>
    t \<notin> set (g_timer_head (tsys r)) \<Longrightarrow> timer_step late r (r\<lparr>tsys := ts\<rparr>)"
| send: "cmd_ok c \<Longrightarrow> length (cmds r) < RHINO_CONFIG_TIMER_MSG_NUM \<Longrightarrow> timer_step late r (r\<lparr>cmds := cmds r @ [c]\<rparr>)"
| tick: "late \<or> waiting r \<Longrightarrow> timer_step late r (r\<lparr>now := now r + 1\<rparr>)"
| recv: "cmds r = c # cs \<Longrightarrow>
    timer_task_resume (deadline r \<noteq> None) RHINO_SUCCESS c (now r) (tsys r) = Some (w, ts) \<Longrightarrow>
    timer_step late r (r\<lparr>cmds := cs, deadline := map_option ((+) (now r)) w, tsys := ts\<rparr>)"
| timeout: "deadline r = Some d \<Longrightarrow> sint (now r - d) \<ge> 0 \<Longrightarrow>
    timer_task_resume True RHINO_BLK_TIMEOUT c (now r) (tsys r) = Some (w, ts) \<Longrightarrow>
    timer_step late r (r\<lparr>deadline := map_option ((+) (now r)) w, tsys := ts\<rparr>)"

definition timer_begin :: "timer_run \<Rightarrow> bool" where
  "timer_begin r \<longleftrightarrow> cmds r = [] \<and> deadline r = None \<and> g_timer_head (tsys r) = [] \<and> called (tsys r) = [] \<and> timer_errs (tsys r) = [] \<and>
     (\<forall>t. timer_obj_type (timers (tsys r) t) = RHINO_OBJ_TYPE_NONE)"

inductive timer_reach :: "bool \<Rightarrow> timer_run \<Rightarrow> bool" for late where
  start: "timer_begin r \<Longrightarrow> timer_reach late r"
| step: "timer_reach late r \<Longrightarrow> timer_step late r r' \<Longrightarrow> timer_reach late r'"

text \<open>In any run, late or not.\<close>

definition run_ok :: "timer_run \<Rightarrow> bool" where
  "run_ok r \<longleftrightarrow> timer_ok (tsys r) \<and> list_all cmd_ok (cmds r) \<and> length (cmds r) \<le> RHINO_CONFIG_TIMER_MSG_NUM \<and> timer_errs (tsys r) = []"

lemma timer_create_ok:
  assumes "timer_ok ts" and "t \<notin> set (g_timer_head ts)"
    and "timer_create G lcb t name cb first rounds arg False flag s ts = (RHINO_SUCCESS, s', ts')"
  shows "touches t ts ts'"
proof -
  have e: "ts' = upd_timer t (\<lambda>k. k\<lparr>timer_name := name, timer_cb := cb, init_count := first, round_ticks := rounds,
              remain := 0, match := 0, timer_state := TIMER_DEACTIVE, to_head := False,
              timer_alloc_flag := flag, timer_cb_arg := arg, timer_obj_type := RHINO_TIMER_OBJ_TYPE\<rparr>) ts"
    and c: "first \<noteq> 0" "first < MAX_TIMER_TICKS" "rounds < MAX_TIMER_TICKS"
    using assms(3) by (auto simp: timer_create_def Let_def not_le split: if_splits)
  show ?thesis unfolding e
    by (rule touches_unlisted [OF assms(1,2)]) (use c in \<open>simp add: one_ok_def word_neq_0_conv\<close>)
qed

lemma timer_step_ok:
  assumes "run_ok r" and "timer_step late r r'"
  shows "run_ok r'"
  using assms(2)
proof cases
  case (create G lcb t name cb first rounds arg s s' ts)
  then show ?thesis using assms(1) timer_create_ok [of "tsys r" t] by (auto simp: run_ok_def touches_def)
next
  case (recv c cs w ts)
  then show ?thesis
    using assms(1) timer_task_resume_fires [of "tsys r" RHINO_SUCCESS c "deadline r \<noteq> None" "now r"]
    by (auto simp: run_ok_def touches_def fires_def)
next
  case (timeout d c w ts)
  then show ?thesis
    using assms(1) timer_task_resume_fires [of "tsys r" RHINO_BLK_TIMEOUT c True "now r"]
    by (auto simp: run_ok_def touches_def fires_def)
qed (use assms(1) in \<open>auto simp: run_ok_def\<close>)

lemma timer_reach_ok: "timer_reach late r \<Longrightarrow> run_ok r"
proof (induction rule: timer_reach.induct)
  case (start r)
  then show ?case by (simp add: timer_begin_def run_ok_def timer_ok_def one_ok_def)
next
  case (step r r')
  then show ?case by (blast intro: timer_step_ok)
qed

subsection \<open>Runs in which the task is never late\<close>

definition first_match :: "timer_sys \<Rightarrow> sys_time_t option" where
  "first_match ts = (case g_timer_head ts of [] \<Rightarrow> None | t # _ \<Rightarrow> Some (match (timers ts t)))"

definition on_time :: "timer_run \<Rightarrow> bool" where
  "on_time r \<longleftrightarrow> timely (now r) (tsys r) \<and> (\<forall>e \<in> set (called (tsys r)). fst (snd (snd e)) = snd (snd (snd e))) \<and>
     deadline r = first_match (tsys r)"

lemma timely_due: "timely n ts \<Longrightarrow> t \<in> due n ts \<Longrightarrow> match (timers ts t) = n"
proof -
  assume "timely n ts" "t \<in> due n ts"
  then have "unat (match (timers ts t) - n) < 9223372036854775808" "\<not> 0 < sint (match (timers ts t) - n)"
    by (auto simp: timely_def due_def)
  then have "match (timers ts t) - n = 0" using sint_pos_iff [of "match (timers ts t) - n"] by blast
  then show ?thesis by simp
qed

lemma timely_tick:
  assumes "timely n ts" and "g_timer_head ts \<noteq> [] \<Longrightarrow> match (timers ts (hd (g_timer_head ts))) \<noteq> n"
  shows "timely (n + 1) ts"
proof -
  let ?key = "\<lambda>t. unat (match (timers ts t) - n)"
  have k: "unat (match (timers ts t) - (n + 1)) = ?key t - 1" if "t \<in> set (g_timer_head ts)" for t
  proof -
    have "?key (hd (g_timer_head ts)) \<noteq> 0" using that assms(2) by (cases "g_timer_head ts") (auto simp: unat_eq_0)
    then have "?key t \<noteq> 0" using assms(1) that sorted_hd_min [of ?key "g_timer_head ts" t] by (simp add: timely_def)
    then have "unat (match (timers ts t) - n - 1) = ?key t - 1" by (intro unat_minus_one) auto
    then show ?thesis by (simp add: algebra_simps)
  qed
  have "sorted (map (\<lambda>t. ?key t - 1) (g_timer_head ts))"
    using assms(1) by (auto simp: timely_def sorted_map intro: sorted_wrt_mono_rel [rotated])
  then have "sorted (map (\<lambda>t. unat (match (timers ts t) - (n + 1))) (g_timer_head ts))"
    using k by (simp cong: map_cong)
  moreover have "unat (match (timers ts t) - (n + 1)) < 9223372036854775808" if "t \<in> set (g_timer_head ts)" for t
    using assms(1) that k [OF that] by (simp add: timely_def less_imp_diff_less)
  ultimately show ?thesis by (simp add: timely_def)
qed

text \<open>One activity of the task, in a state that is on time.\<close>

definition kept_or_called :: "sys_time_t \<Rightarrow> ptr \<Rightarrow> timer_sys \<Rightarrow> timer_sys \<Rightarrow> bool" where
  "kept_or_called n t ts ts' \<longleftrightarrow>
     timers ts' t = timers ts t \<and> t \<in> set (g_timer_head ts') \<or>
     match (timers ts t) = n \<and> (t, timer_cb_arg (timers ts t), n, n) \<in> set (drop (length (called ts)) (called ts')) \<and>
     timers ts' t = after_call n (timers ts t) \<and> (t \<in> set (g_timer_head ts') \<longleftrightarrow> round_ticks (timers ts t) \<noteq> 0)"

lemma resume_on_time:
  assumes "timer_ok (tsys r)" and "on_time r" and "err = RHINO_SUCCESS \<and> cmd_ok c \<or> err = RHINO_BLK_TIMEOUT \<and> inner"
    and "timer_task_resume inner err c (now r) (tsys r) = Some (w, ts)"
  shows "on_time (r\<lparr>cmds := cs, deadline := map_option ((+) (now r)) w, tsys := ts\<rparr>)"
    and "t \<in> set (g_timer_head (tsys r)) \<Longrightarrow> \<not> (err = RHINO_SUCCESS \<and> cb_timer c = t) \<Longrightarrow> kept_or_called (now r) t (tsys r) ts"
proof -
  obtain new ts1 where h:
    "if err = RHINO_SUCCESS then touches (cb_timer c) ((tsys r)\<lparr>g_timer_count := now r\<rparr>) ts1 else ts1 = (tsys r)\<lparr>g_timer_count := now r\<rparr>"
    "fires (now r) new ts1 ts" "timely (now r) (tsys r) \<longrightarrow> timely (now r) ts"
    "case g_timer_head ts of [] \<Rightarrow> w = None | t # _ \<Rightarrow> w = Some (match (timers ts t) - now r) \<and> t \<notin> due (now r) ts"
    using timer_task_resume_fires [OF assms(1,3), of "now r"] assms(4) by auto
  have t1: "timely (now r) ts1" "called ts1 = called (tsys r)"
    using h(1) assms(2) by (auto simp: touches_def on_time_def split: if_splits)
  have m: "match (timers ts1 x) = now r" if "x \<in> set new" for x
    using timely_due [OF t1(1)] that h(2) by (auto simp: fires_def)
  have cl: "called ts = called (tsys r) @ map (\<lambda>x. (x, timer_cb_arg (timers ts1 x), now r, now r)) new"
    using h(2) m t1(2) by (simp add: fires_def)
  have "map_option ((+) (now r)) w = first_match ts"
    using h(4) by (auto simp: first_match_def split: list.splits)
  then show "on_time (r\<lparr>cmds := cs, deadline := map_option ((+) (now r)) w, tsys := ts\<rparr>)"
    using assms(2) h(3) cl by (auto simp: on_time_def)
  assume t: "t \<in> set (g_timer_head (tsys r))" "\<not> (err = RHINO_SUCCESS \<and> cb_timer c = t)"
  have same: "timers ts1 t = timers (tsys r) t" "t \<in> set (g_timer_head ts1)"
    using h(1) t by (auto simp: touches_def split: if_splits)
  show "kept_or_called (now r) t (tsys r) ts"
  proof (cases "t \<in> set new")
    case True
    then show ?thesis using h(2) m [OF True] same cl by (auto simp: kept_or_called_def fires_def)
  next
    case False
    then show ?thesis using h(2) same by (simp add: kept_or_called_def fires_def)
  qed
qed

lemma timer_step_on_time:
  assumes "run_ok r" and "on_time r" and "timer_step False r r'"
  shows "on_time r'"
  using assms(3)
proof cases
  case (create G lcb t name cb first rounds arg s s' ts)
  have ok: "timer_ok (tsys r)" using assms(1) by (simp add: run_ok_def)
  have e: "g_timer_head ts = g_timer_head (tsys r)" "called ts = called (tsys r)" "\<And>x. x \<noteq> t \<Longrightarrow> timers ts x = timers (tsys r) x"
    using create(2) by (auto simp: timer_create_def upd_timer_def Let_def split: if_splits)
  have "timers ts = (timers (tsys r))(t := timers ts t)" using e(3) by auto
  then have "timely (now r) ts \<longleftrightarrow> timely (now r) ((tsys r)\<lparr>timers := (timers (tsys r))(t := timers ts t), g_timer_head := g_timer_head (tsys r)\<rparr>)"
    using e(1) unfolding timely_def by simp
  then have "timely (now r) ts"
    using timely_unlisted [of "now r" "tsys r" t "timers ts t"] assms(2) create(3) unfolding on_time_def by blast
  then show ?thesis
    using assms(2) create e by (auto simp: on_time_def first_match_def split: list.splits)
next
  case tick
  then have "g_timer_head (tsys r) \<noteq> [] \<Longrightarrow> match (timers (tsys r) (hd (g_timer_head (tsys r)))) \<noteq> now r"
    using assms(2) by (auto simp: on_time_def waiting_def first_match_def split: list.splits)
  from timely_tick [OF _ this] show ?thesis using assms(2) tick by (simp add: on_time_def)
next
  case (recv c cs w ts)
  then show ?thesis
    using resume_on_time(1) [of r RHINO_SUCCESS c "deadline r \<noteq> None" w ts cs] assms(1,2) by (simp add: run_ok_def)
next
  case (timeout d c w ts)
  then show ?thesis
    using resume_on_time(1) [of r RHINO_BLK_TIMEOUT c True w ts "cmds r"] assms(1,2) by (simp add: run_ok_def)
qed (use assms(2) in \<open>simp add: on_time_def\<close>)

lemma timer_reach_on_time: "timer_reach False r \<Longrightarrow> on_time r"
proof (induction rule: timer_reach.induct)
  case (start r)
  then show ?case by (simp add: timer_begin_def on_time_def timely_def first_match_def)
next
  case (step r r')
  then show ?case using timer_step_on_time timer_reach_ok by blast
qed

section \<open>The interface sends the commands\<close>













section \<open>An example\<close>

text \<open>A timer of two ticks at address 64 is created and started.\<close>

definition ex_timer :: ktimer_t where
  "ex_timer = \<lparr>to_head = False, timer_name = 1, timer_cb = 1, timer_cb_arg = 7, match = 0, remain = 0, init_count = 2,
     round_ticks = 0, timer_obj_type = RHINO_TIMER_OBJ_TYPE, timer_state = TIMER_DEACTIVE, timer_alloc_flag = K_OBJ_STATIC_ALLOC\<rparr>"

definition ex_sys :: timer_sys where
  "ex_sys = \<lparr>timers = (\<lambda>_. ex_timer\<lparr>timer_obj_type := RHINO_OBJ_TYPE_NONE\<rparr>)(64 := ex_timer), g_timer_head = [], g_timer_count = 0,
     timer_errs = [], called = []\<rparr>"

definition ex_start :: k_timer_queue_cb where
  "ex_start = \<lparr>cb_timer = 64, cb_num = TIMER_CMD_START, cb_first = 0, cb_u = 0\<rparr>"

definition ex_run :: timer_run where
  "ex_run = \<lparr>now = 0, cmds = [ex_start], deadline = None, tsys = ex_sys\<rparr>"

lemma ex_run_reach: "timer_reach late ex_run"
proof -
  define r0 where "r0 = \<lparr>now = 0, cmds = [], deadline = None,
    tsys = ex_sys\<lparr>timers := \<lambda>_. ex_timer\<lparr>timer_obj_type := RHINO_OBJ_TYPE_NONE\<rparr>\<rparr>\<rparr>"
  have "timer_reach late r0"
    by (rule timer_reach.start) (simp add: timer_begin_def r0_def ex_sys_def)
  moreover have "timer_step late r0 (r0\<lparr>tsys := ex_sys\<rparr>)"
    by (rule timer_step.create [where t = 64 and name = 1 and cb = 1 and first = 2 and rounds = 0 and arg = 7])
      (simp_all add: timer_create_def upd_timer_def Let_def r0_def ex_sys_def ex_timer_def)
  moreover have "timer_step late (r0\<lparr>tsys := ex_sys\<rparr>) ex_run"
    using timer_step.send [of ex_start "r0\<lparr>tsys := ex_sys\<rparr>" late] by (simp add: r0_def ex_run_def ex_start_def cmd_ok_def)
  ultimately show ?thesis by (blast intro: timer_reach.step)
qed

lemma ex_started:
  "timer_task_resume False RHINO_SUCCESS ex_start 0 ex_sys =
    Some (Some 2, ex_sys\<lparr>timers := (timers ex_sys)(64 := ex_timer\<lparr>match := 2, remain := 2, to_head := True, timer_state := TIMER_ACTIVE\<rparr>),
      g_timer_head := [64]\<rparr>)"
  by (simp add: timer_task_resume_def timer_cmd_proc_def cmd_proc_def upd_timer_def timer_list_pri_insert_def ex_sys_def
      ex_start_def ex_timer_def timer_task_poll.simps Let_def sint_unat)

lemma ex_called:
  "\<exists>r. timer_reach False r \<and> called (tsys r) = [(64, 7, 2, 2)]"
proof -
  define ts where "ts = ex_sys\<lparr>timers := (timers ex_sys)(64 := ex_timer\<lparr>match := 2, remain := 2, to_head := True, timer_state := TIMER_ACTIVE\<rparr>),
      g_timer_head := [64]\<rparr>"
  define ru where "ru n = \<lparr>now = n, cmds = [], deadline = Some 2, tsys = ts\<rparr>" for n :: sys_time_t
  have "timer_step False ex_run (ru 0)"
    using timer_step.recv [of ex_run ex_start "[]" "Some 2" ts False] ex_started by (simp add: ex_run_def ts_def ru_def)
  moreover have "timer_step False (ru 0) (ru 1)" "timer_step False (ru 1) (ru 2)"
    using timer_step.tick [of False "ru 0"] timer_step.tick [of False "ru 1"] by (simp_all add: ru_def waiting_def)
  ultimately have "timer_reach False (ru 2)" using ex_run_reach by (blast intro: timer_reach.step)
  moreover obtain w ts' where r: "timer_task_resume True RHINO_BLK_TIMEOUT ex_start 2 ts = Some (w, ts')" "called ts' = [(64, 7, 2, 2)]"
    by (simp add: timer_task_resume_def ts_def ex_sys_def ex_timer_def timer_cb_proc_def timer_cb_walk.simps timer_cb_one_def Let_def
        timer_list_rm_def upd_timer_def succ_in_def timer_task_poll.simps)
  then have "timer_step False (ru 2) ((ru 2)\<lparr>deadline := map_option ((+) 2) w, tsys := ts'\<rparr>)"
    using timer_step.timeout [of "ru 2" 2 ex_start w ts' False] by (simp add: ru_def)
  ultimately have "timer_reach False ((ru 2)\<lparr>deadline := map_option ((+) 2) w, tsys := ts'\<rparr>)" by (blast intro: timer_reach.step)
  then show ?thesis using r(2) by (intro exI) auto
qed

section \<open>Properties\<close>

text \<open>
  C12: Timers are called on time. In a run in which the timer task is never late, every call made so far
  was made at the time its timer was set to. No timer of the list is overdue, and the task
  does not let time pass while one is due. In every step a timer of the list stays as it
  is, or its time has come and its function is called and it is set to the next round or taken off the
  list, or the step carries out a command for this timer.
\<close>

theorem timers_on_time:
  assumes "timer_reach False r"
  shows "list_all (\<lambda>(t, arg, m, time). m = time) (called (tsys r)) \<and>
    (\<forall>t. t \<in> set (g_timer_head (tsys r)) \<longrightarrow>
      unat (match (timers (tsys r) t) - now r) < 2 ^ 63 \<and> (waiting r \<longrightarrow> match (timers (tsys r) t) \<noteq> now r) \<and>
      (\<forall>r'. timer_step False r r' \<longrightarrow> kept_or_called (now r) t (tsys r) (tsys r') \<or>
        (\<exists>c. cmds r = c # cmds r' \<and> cb_timer c = t)))"
proof (intro conjI allI impI)
  have ok: "run_ok r" and on: "on_time r" using timer_reach_ok [OF assms] timer_reach_on_time [OF assms] by simp_all
  show "list_all (\<lambda>(t, arg, m, time). m = time) (called (tsys r))" using on by (auto simp: on_time_def list_all_iff)
  fix t assume t: "t \<in> set (g_timer_head (tsys r))"
  have tm: "timely (now r) (tsys r)" using on by (simp add: on_time_def)
  then show "unat (match (timers (tsys r) t) - now r) < 2 ^ 63" using t by (simp add: timely_def)
  show "match (timers (tsys r) t) \<noteq> now r" if "waiting r"
  proof -
    obtain h hs where h: "g_timer_head (tsys r) = h # hs" using t by (cases "g_timer_head (tsys r)") auto
    then have "match (timers (tsys r) h) - now r \<noteq> 0" using on that by (auto simp: on_time_def waiting_def first_match_def)
    then have "unat (match (timers (tsys r) h) - now r) \<noteq> 0" by (simp add: unat_eq_0)
    then have "unat (match (timers (tsys r) t) - now r) \<noteq> 0"
      using tm t sorted_hd_min [of "\<lambda>t. unat (match (timers (tsys r) t) - now r)" "g_timer_head (tsys r)" t] h by (simp add: timely_def)
    then show ?thesis by auto
  qed
  fix r' assume "timer_step False r r'"
  then show "kept_or_called (now r) t (tsys r) (tsys r') \<or> (\<exists>c. cmds r = c # cmds r' \<and> cb_timer c = t)"
  proof cases
    case (create G lcb x name cb first rounds arg s s' ts)
    then have "touches x (tsys r) ts" using timer_create_ok ok by (auto simp: run_ok_def)
    then show ?thesis using create t by (auto simp: touches_def kept_or_called_def)
  next
    case (recv c cs w ts)
    then show ?thesis
      using resume_on_time(2) [of r RHINO_SUCCESS c "deadline r \<noteq> None" w ts t] ok on t by (auto simp: run_ok_def)
  next
    case (timeout d c w ts)
    then show ?thesis using resume_on_time(2) [of r RHINO_BLK_TIMEOUT c True w ts t] ok on t by (simp add: run_ok_def)
  qed (use t in \<open>simp_all add: kept_or_called_def\<close>)
qed

theorem timers_on_time_witness:
  "\<exists>r. timer_reach False r \<and> called (tsys r) = [(64, 7, 2, 2)] \<and> list_all (\<lambda>(t, arg, m, time). m = time) (called (tsys r))"
proof -
  obtain r where r: "timer_reach False r" "called (tsys r) = [(64, 7, 2, 2)]" using ex_called by blast
  then show ?thesis using timers_on_time [OF r(1)] by blast
qed



text \<open>
  C36: A timer that is overdue is passed over. If the task is late, so that the first timer of the list is
  overdue when a command to start another timer is carried out, then the new timer is put in front
  of it, the overdue timer is not called, and the task waits for the full time of the new timer.
\<close>

theorem overdue_timer_passed_over:
  assumes "timer_ok ts" and "g_timer_head ts = t # h" and "sint (match (timers ts t) - n) < 0"
    and "cb_timer cb = x" and "cb_num cb = TIMER_CMD_START"
    and "timer_obj_type (timers ts x) = RHINO_TIMER_OBJ_TYPE" and "timer_state (timers ts x) = TIMER_DEACTIVE"
  shows "\<exists>ts'. timer_task_resume True RHINO_SUCCESS cb n ts = Some (Some (init_count (timers ts x)), ts') \<and>
    g_timer_head ts' = x # t # h \<and> called ts' = called ts"
proof -
  define k where "k = timers ts x"
  note i = timer_okD(2) [OF assms(1), of x, folded k_def]
  have nl: "x \<notin> set (g_timer_head ts)" and init: "0 < init_count k" "init_count k < MAX_TIMER_TICKS"
    using one_ok_states [OF i] assms(6,7) by (simp_all add: k_def)
  have "\<not> unat (match (timers ts t) - n) < 9223372036854775808" using assms(3) by (simp add: sint_unat split: if_splits)
  then have gt: "init_count k < match (timers ts t) - n" using init(2) by (simp add: word_less_nat_alt)
  have pos: "0 < sint (init_count k)" using init by (auto simp: sint_pos_iff word_less_nat_alt)
  note e = cmd_start_eq [of "ts\<lparr>g_timer_count := n\<rparr>" cb x]
  define ts' where "ts' = ts\<lparr>g_timer_count := n, timers := (timers ts)(x := k\<lparr>match := n + init_count k,
      remain := init_count k, to_head := True, timer_state := TIMER_ACTIVE\<rparr>), g_timer_head := x # t # h\<rparr>"
  have c: "timer_cmd_proc cb (ts\<lparr>g_timer_count := n\<rparr>) = ts'"
    using e assms(1,2,4,5,6) nl gt by (simp add: timer_cmd_proc_def k_def ts'_def)
  have "timer_cb_proc ts' = Some ts'" using pos by (simp add: timer_cb_proc_def timer_cb_walk.simps ts'_def)
  moreover have "timer_task_poll n ts' = Some (Some (init_count k), ts')" 
    using pos by (subst timer_task_poll.simps) (simp add: ts'_def Let_def)
  ultimately have "timer_task_resume True RHINO_SUCCESS cb n ts = Some (Some (init_count k), ts')"
    by (simp add: timer_task_resume_def c)
  then show ?thesis by (auto simp: k_def ts'_def)
qed

theorem overdue_timer_passed_over_witness:
  "\<exists>ts'. timer_task_resume True RHINO_SUCCESS ex_start 9 (ex_sys\<lparr>timers := (timers ex_sys)(128 :=
      ex_timer\<lparr>to_head := True, timer_state := TIMER_ACTIVE, match := 5\<rparr>), g_timer_head := [128]\<rparr>) = Some (Some 2, ts') \<and> called ts' = []"
proof -
  define ts where "ts = ex_sys\<lparr>timers := (timers ex_sys)(128 := ex_timer\<lparr>to_head := True, timer_state := TIMER_ACTIVE, match := 5\<rparr>),
    g_timer_head := [128]\<rparr>"
  have "timer_ok ts" by (auto simp: timer_ok_def one_ok_def ts_def ex_sys_def ex_timer_def)
  moreover have "sint (match (timers ts 128) - 9) < 0" by (simp add: ts_def sint_unat)
  ultimately have "\<exists>ts'. timer_task_resume True RHINO_SUCCESS ex_start 9 ts = Some (Some (init_count (timers ts 64)), ts') \<and>
      g_timer_head ts' = [64, 128] \<and> called ts' = called ts"
    by (intro overdue_timer_passed_over) (simp_all add: ts_def ex_start_def ex_sys_def ex_timer_def)
  then show ?thesis by (auto simp: ts_def ex_sys_def ex_timer_def)
qed



end
