(* ===== verification/Mqtt_Packet.thy ===== *)
theory Mqtt_Packet
  imports Ringbuf "HOL-Library.Signed_Division"
begin

text \<open>
  The packets of the MQTT client: primitives (\<^verbatim>\<open>framework/connectivity/mqtt/MQTTPacket/MQTTPacket.c\<close>
  and \<^verbatim>\<open>MQTTPacket.h\<close>). Pointers into buffers are addresses of a byte memory; a writer takes the
  place it writes to and the memory, and returns both, as the C functions do through a
  pointer to the pointer. A C \<^verbatim>\<open>int\<close> is an integer: every number that is computed here is far
  below \<open>2 ^ 31\<close> as long as the lengths of strings and payloads are. The theorems show that
  the variable-length number is read back as it was written.
\<close>

unbundle bit_operations_syntax

section \<open>Model\<close>

abbreviation "MQTTPACKET_BUFFER_TOO_SHORT \<equiv> (-2 :: int)"
abbreviation "MQTTPACKET_READ_ERROR \<equiv> (-1 :: int)"

abbreviation "CONNECT \<equiv> (1 :: byte)"
abbreviation "CONNACK \<equiv> (2 :: byte)"
abbreviation "PUBLISH \<equiv> (3 :: byte)"
abbreviation "PUBACK \<equiv> (4 :: byte)"
abbreviation "PUBREC \<equiv> (5 :: byte)"
abbreviation "PUBREL \<equiv> (6 :: byte)"
abbreviation "PUBCOMP \<equiv> (7 :: byte)"
abbreviation "SUBSCRIBE \<equiv> (8 :: byte)"
abbreviation "SUBACK \<equiv> (9 :: byte)"
abbreviation "UNSUBSCRIBE \<equiv> (10 :: byte)"
abbreviation "UNSUBACK \<equiv> (11 :: byte)"
abbreviation "PINGREQ \<equiv> (12 :: byte)"
abbreviation "DISCONNECT \<equiv> (14 :: byte)"

text \<open>
  The header byte is a union of a byte and bit fields; the first field is the lowest bit. An
  assignment to a field keeps the low bits of the value.
\<close>

record MQTTHeader =
  h_type :: byte
  h_dup :: byte
  h_qos :: byte
  h_retain :: byte

definition header_byte :: "MQTTHeader \<Rightarrow> byte" where
  "header_byte h = (h_retain h AND 1) OR push_bit 1 (h_qos h AND 3) OR push_bit 3 (h_dup h AND 1) OR
     push_bit 4 (h_type h AND 15)"

definition header_of :: "byte \<Rightarrow> MQTTHeader" where
  "header_of b = \<lparr>h_type = drop_bit 4 b, h_dup = drop_bit 3 b AND 1, h_qos = drop_bit 1 b AND 3, h_retain = b AND 1\<rparr>"

text \<open>
  A string is a C string, given by its bytes without the final zero, or a length and a pointer
  to bytes; a null pointer is \<open>None\<close>.
\<close>

record MQTTString =
  cstring :: "byte list option"
  lenstring_len :: int
  lenstring_data :: "byte list option"

type_synonym place = "nat \<times> memory"

definition writeChar :: "byte \<Rightarrow> place \<Rightarrow> place" where
  "writeChar c = (\<lambda>(p, m). (p + 1, m(p := c)))"

definition writeInt :: "int \<Rightarrow> place \<Rightarrow> place" where
  "writeInt anInt w = writeChar (of_int (anInt smod 256)) (writeChar (of_int (anInt sdiv 256)) w)"

text \<open>\<^verbatim>\<open>memcpy(*pptr, bytes, n); *pptr += n\<close>\<close>

definition writeBytes :: "byte list \<Rightarrow> nat \<Rightarrow> place \<Rightarrow> place" where
  "writeBytes bs n = (\<lambda>(p, m). (p + n, memcpy m p (nth bs) n))"

definition writeCString :: "byte list \<Rightarrow> place \<Rightarrow> place" where
  "writeCString str w = (let len = length str in writeBytes str len (writeInt (int len) w))"

definition writeMQTTString :: "MQTTString \<Rightarrow> place \<Rightarrow> place" where
  "writeMQTTString s w =
     (if lenstring_len s > 0 then
        writeBytes (the (lenstring_data s)) (nat (lenstring_len s)) (writeInt (lenstring_len s) w)
      else case cstring s of
        Some str \<Rightarrow> writeCString str w
      | None \<Rightarrow> writeInt 0 w)"

definition getLenStringLen :: "memory \<Rightarrow> nat \<Rightarrow> int" where
  "getLenStringLen m p = 256 * uint (m p) + uint (m (p + 1))"

definition readInt :: "memory \<Rightarrow> nat \<Rightarrow> int \<times> nat" where
  "readInt m p = (256 * uint (m p) + uint (m (p + 1)), p + 2)"

definition readChar :: "memory \<Rightarrow> nat \<Rightarrow> byte \<times> nat" where
  "readChar m p = (m p, p + 1)"

text \<open>The bytes of the string read are those in the buffer, where the pointer points to.\<close>

definition readMQTTLenString :: "MQTTString \<Rightarrow> memory \<Rightarrow> nat \<Rightarrow> nat \<Rightarrow> int \<times> MQTTString \<times> nat" where
  "readMQTTLenString s m p enddata =
     (if int enddata - int p > 1 then
        let (len, p) = readInt m p;
            s = s\<lparr>lenstring_len := len\<rparr> in
        if p + nat len \<le> enddata then
          (1, s\<lparr>lenstring_data := Some (bytes_at m p (nat len)), cstring := None\<rparr>, p + nat len)
        else (0, s\<lparr>cstring := None\<rparr>, p)
      else (0, s\<lparr>cstring := None\<rparr>, p))"

definition MQTTstrlen :: "MQTTString \<Rightarrow> int" where
  "MQTTstrlen s = (case cstring s of Some str \<Rightarrow> int (length str) | None \<Rightarrow> lenstring_len s)"

text \<open>\<^verbatim>\<open>strncmp\<close> of the first \<open>n\<close> bytes, for equality; past the end of a C string it finds its zero.\<close>

fun strncmp_eq :: "byte list \<Rightarrow> byte list \<Rightarrow> nat \<Rightarrow> bool" where
  "strncmp_eq a b 0 = True"
| "strncmp_eq a b (Suc n) =
     (let x = (case a of [] \<Rightarrow> 0 | c # _ \<Rightarrow> c); y = (case b of [] \<Rightarrow> 0 | c # _ \<Rightarrow> c)
      in x = y \<and> (x = 0 \<or> strncmp_eq (tl a) (tl b) n))"

definition MQTTPacket_equals :: "MQTTString \<Rightarrow> byte list \<Rightarrow> bool" where
  "MQTTPacket_equals a bptr =
     (let (aptr, alen) = (case cstring a of
            Some str \<Rightarrow> (str, int (length str))
          | None \<Rightarrow> (the (lenstring_data a), lenstring_len a));
          blen = int (length bptr)
      in alen = blen \<and> strncmp_eq aptr bptr (nat alen))"

text \<open>
  The number of remaining bytes is written seven bits at a time, lowest first, with the top bit
  set on all bytes but the last.
\<close>

function encode_loop :: "int \<Rightarrow> place \<Rightarrow> place" where
  "encode_loop len w =
     (let d = of_int (len smod 128) :: byte;
          len = len sdiv 128;
          d = (if len > 0 then d OR 0x80 else d);
          w = writeChar d w
      in if len > 0 then encode_loop len w else w)"
  by pat_completeness auto

lemma sdiv_pos: "0 \<le> k \<Longrightarrow> k sdiv 128 = k div 128" "0 \<le> k \<Longrightarrow> k smod 128 = k mod 128"
    "0 \<le> k \<Longrightarrow> k sdiv 256 = k div 256" "0 \<le> k \<Longrightarrow> k smod 256 = k mod 256" for k :: int
  by (cases "k = 0"; simp add: signed_divide_int_def signed_modulo_int_def)+

lemma sdiv_less: "k sdiv 128 > 0 \<Longrightarrow> 0 < k \<and> k sdiv 128 < k" for k :: int
  by (cases "0 \<le> k") (auto simp: sdiv_pos signed_divide_int_def sgn_if split: if_splits)

termination encode_loop
  by (relation "measure (\<lambda>(len, _). nat len)") (auto dest: sdiv_less)

definition MQTTPacket_encode :: "nat \<Rightarrow> int \<Rightarrow> memory \<Rightarrow> int \<times> memory" where
  "MQTTPacket_encode buf len m = (let (p, m) = encode_loop len (buf, m) in (int p - int buf, m))"

text \<open>
  A source of bytes: asked for a number of bytes it returns a result and the bytes it delivers,
  and moves on. The reader asks for one byte at a time, at most four times.
\<close>

type_synonym 's source = "int \<Rightarrow> 's \<Rightarrow> int \<times> byte list \<times> 's"

function decode_loop :: "'s source \<Rightarrow> nat \<Rightarrow> int \<Rightarrow> int \<Rightarrow> byte \<Rightarrow> 's \<Rightarrow> nat \<times> int \<times> 's" where
  "decode_loop getcharfn len multiplier val c st =
     (let len = len + 1 in
      if len > 4 then (len, val, st)
      else
        let (rc, cs, st) = getcharfn 1 st;
            c = (case cs of [] \<Rightarrow> c | b # _ \<Rightarrow> b) in
        if rc \<noteq> 1 then (len, val, st)
        else
          let val = val + uint (c AND 127) * multiplier;
              multiplier = multiplier * 128
          in if c AND 128 \<noteq> 0 then decode_loop getcharfn len multiplier val c st else (len, val, st))"
  by pat_completeness auto

termination decode_loop
  by (relation "measure (\<lambda>(_, len, _). 5 - len)") auto

definition MQTTPacket_decode :: "'s source \<Rightarrow> 's \<Rightarrow> nat \<times> int \<times> 's" where
  "MQTTPacket_decode getcharfn st = decode_loop getcharfn 0 1 0 0 st"

definition MQTTPacket_len :: "int \<Rightarrow> int" where
  "MQTTPacket_len rem_len =
     (let rem_len = rem_len + 1 in
      if rem_len < 128 then rem_len + 1
      else if rem_len < 16384 then rem_len + 2
      else if rem_len < 2097151 then rem_len + 3
      else rem_len + 4)"

text \<open>\<^verbatim>\<open>bufchar\<close> overwrites one character as often as it is asked; its state is \<^verbatim>\<open>bufptr\<close>.\<close>

definition bufchar :: "memory \<Rightarrow> nat source" where
  "bufchar m count bufptr =
     (count, if count > 0 then [m (bufptr + nat count - 1)] else [], bufptr + nat count)"

definition MQTTPacket_decodeBuf :: "memory \<Rightarrow> nat \<Rightarrow> nat \<times> int" where
  "MQTTPacket_decodeBuf m buf = (let (len, val, _) = MQTTPacket_decode (bufchar m) buf in (len, val))"

text \<open>The bytes a source delivers are written to the buffer.\<close>

definition deliver :: "'s source \<Rightarrow> nat \<Rightarrow> int \<Rightarrow> 's \<Rightarrow> memory \<Rightarrow> int \<times> 's \<times> memory" where
  "deliver getfn p n st m = (let (rc, bs, st) = getfn n st in (rc, st, memcpy m p (nth bs) (length bs)))"

definition MQTTPacket_read :: "nat \<Rightarrow> int \<Rightarrow> 's source \<Rightarrow> 's \<Rightarrow> memory \<Rightarrow> int \<times> 's \<times> memory" where
  "MQTTPacket_read buf buflen getfn st m =
     (let (rc, st, m) = deliver getfn buf 1 st m in
      if rc \<noteq> 1 then (-1, st, m)
      else
        let len = 1;
            (_, rem_len, st) = MQTTPacket_decode getfn st;
            (n, m) = MQTTPacket_encode (buf + 1) rem_len m;
            len = len + n in
        if rem_len + len > buflen then (-1, st, m)
        else
          let (rc, st, m) = deliver getfn (buf + nat len) rem_len st m in
          if rc \<noteq> rem_len then (-1, st, m)
          else (uint (h_type (header_of (m buf))), st, m))"

text \<open>The non-blocking reader keeps its position in a transport structure.\<close>

record 's MQTTTransport =
  sck :: 's
  t_multiplier :: int
  t_rem_len :: int
  t_len :: int
  t_state :: int

function decodenb_loop :: "'s source \<Rightarrow> byte \<Rightarrow> 's MQTTTransport \<Rightarrow> int \<times> 's MQTTTransport" where
  "decodenb_loop getfn c trp =
     (let trp = trp\<lparr>t_len := t_len trp + 1\<rparr> in
      if t_len trp > 4 then (MQTTPACKET_READ_ERROR, trp)
      else
        let (frc, cs, st) = getfn 1 (sck trp);
            trp = trp\<lparr>sck := st\<rparr>;
            c = (case cs of [] \<Rightarrow> c | b # _ \<Rightarrow> b) in
        if frc = -1 then (MQTTPACKET_READ_ERROR, trp)
        else if frc = 0 then (0, trp)
        else
          let trp = trp\<lparr>t_rem_len := t_rem_len trp + uint (c AND 127) * t_multiplier trp\<rparr>;
              trp = trp\<lparr>t_multiplier := t_multiplier trp * 128\<rparr>
          in if c AND 128 \<noteq> 0 then decodenb_loop getfn c trp else (t_len trp, trp))"
  by pat_completeness auto

termination decodenb_loop
  by (relation "measure (\<lambda>(_, _, trp). nat (5 - t_len trp))") auto

definition MQTTPacket_decodenb :: "'s source \<Rightarrow> 's MQTTTransport \<Rightarrow> int \<times> 's MQTTTransport" where
  "MQTTPacket_decodenb getfn trp =
     (let trp = (if t_len trp = 0 then trp\<lparr>t_multiplier := 1, t_rem_len := 0\<rparr> else trp)
      in decodenb_loop getfn 0 trp)"

text \<open>The cases of the switch of \<^verbatim>\<open>MQTTPacket_readnb\<close>, each with those it falls through to.\<close>

definition readnb_case2 :: "'s source \<Rightarrow> nat \<Rightarrow> 's MQTTTransport \<Rightarrow> memory \<Rightarrow> int \<times> 's MQTTTransport \<times> memory" where
  "readnb_case2 getfn buf trp m =
     (let (frc, st, m) = deliver getfn (buf + nat (t_len trp)) (t_rem_len trp) (sck trp) m;
          trp = trp\<lparr>sck := st\<rparr> in
      if frc = -1 then (-1, trp\<lparr>t_state := 0\<rparr>, m)
      else if frc = 0 then (0, trp, m)
      else
        let trp = trp\<lparr>t_rem_len := t_rem_len trp - frc\<rparr>;
            trp = trp\<lparr>t_len := t_len trp + frc\<rparr> in
        if t_rem_len trp \<noteq> 0 then (0, trp, m)
        else (uint (h_type (header_of (m buf))), trp\<lparr>t_state := 0\<rparr>, m))"

definition readnb_case1 ::
  "'s source \<Rightarrow> nat \<Rightarrow> int \<Rightarrow> 's MQTTTransport \<Rightarrow> memory \<Rightarrow> int \<times> 's MQTTTransport \<times> memory" where
  "readnb_case1 getfn buf buflen trp m =
     (let (frc, trp) = MQTTPacket_decodenb getfn trp in
      if frc = MQTTPACKET_READ_ERROR then (-1, trp\<lparr>t_state := 0\<rparr>, m)
      else if frc = 0 then (0, trp, m)
      else
        let (n, m) = MQTTPacket_encode (buf + 1) (t_rem_len trp) m;
            trp = trp\<lparr>t_len := 1 + n\<rparr> in
        if t_rem_len trp + t_len trp > buflen then (-1, trp\<lparr>t_state := 0\<rparr>, m)
        else readnb_case2 getfn buf (trp\<lparr>t_state := t_state trp + 1\<rparr>) m)"

definition readnb_case0 ::
  "'s source \<Rightarrow> nat \<Rightarrow> int \<Rightarrow> 's MQTTTransport \<Rightarrow> memory \<Rightarrow> int \<times> 's MQTTTransport \<times> memory" where
  "readnb_case0 getfn buf buflen trp m =
     (let (frc, st, m) = deliver getfn buf 1 (sck trp) m;
          trp = trp\<lparr>sck := st\<rparr> in
      if frc = -1 then (-1, trp\<lparr>t_state := 0\<rparr>, m)
      else if frc = 0 then (0, trp, m)
      else readnb_case1 getfn buf buflen (trp\<lparr>t_len := 0, t_state := t_state trp + 1\<rparr>) m)"

definition MQTTPacket_readnb ::
  "nat \<Rightarrow> int \<Rightarrow> 's source \<Rightarrow> 's MQTTTransport \<Rightarrow> memory \<Rightarrow> int \<times> 's MQTTTransport \<times> memory" where
  "MQTTPacket_readnb buf buflen getfn trp m =
     (if t_state trp = 2 then readnb_case2 getfn buf trp m
      else if t_state trp = 1 then readnb_case1 getfn buf buflen trp m
      else if t_state trp = 0 then readnb_case0 getfn buf buflen trp m
      else readnb_case0 getfn buf buflen (trp\<lparr>t_state := 0\<rparr>) m)"

section \<open>Writing is appending\<close>

declare encode_loop.simps [simp del] decode_loop.simps [simp del] decodenb_loop.simps [simp del]

definition put :: "byte list \<Rightarrow> place \<Rightarrow> place" where
  "put bs = (\<lambda>(p, m). (p + length bs, memcpy m p (nth bs) (length bs)))"

lemma put_Nil [simp]: "put [] w = w"
  by (cases w) (auto simp: put_def memcpy_def intro!: ext)

lemma put_put [simp]: "put b (put a w) = put (a @ b) w"
  by (cases w) (auto simp: put_def memcpy_def nth_append intro!: ext)

lemma fst_put [simp]: "fst (put bs w) = fst w + length bs"
  by (cases w) (simp add: put_def)

definition int_bytes :: "int \<Rightarrow> byte list" where
  "int_bytes n = [of_int (n sdiv 256), of_int (n smod 256)]"

lemma length_int_bytes [simp]: "length (int_bytes n) = 2"
  by (simp add: int_bytes_def)

definition mqtt_bytes :: "MQTTString \<Rightarrow> byte list" where
  "mqtt_bytes s = (if lenstring_len s > 0 then int_bytes (lenstring_len s) @ take (nat (lenstring_len s)) (the (lenstring_data s))
     else case cstring s of Some str \<Rightarrow> int_bytes (int (length str)) @ str | None \<Rightarrow> int_bytes 0)"

text \<open>A string that has a length has that many bytes, and it is given in one way only.\<close>

definition string_ok :: "MQTTString \<Rightarrow> bool" where
  "string_ok s \<longleftrightarrow> 0 \<le> lenstring_len s \<and>
     (lenstring_len s > 0 \<longrightarrow> cstring s = None \<and> (case lenstring_data s of Some d \<Rightarrow> lenstring_len s \<le> int (length d) | None \<Rightarrow> False))"

lemma writeChar_put: "writeChar c w = put [c] w"
  by (cases w) (auto simp: writeChar_def put_def memcpy_def)

lemma writeInt_put: "writeInt n w = put (int_bytes n) w"
  by (simp add: writeInt_def writeChar_put int_bytes_def)

lemma writeBytes_put: "n \<le> length bs \<Longrightarrow> writeBytes bs n w = put (take n bs) w"
  by (cases w) (auto simp: writeBytes_def put_def memcpy_def intro!: ext)

lemma writeCString_put: "writeCString str w = put (int_bytes (int (length str)) @ str) w"
  by (simp add: writeCString_def writeInt_put writeBytes_put)

lemma writeMQTTString_put: "string_ok s \<Longrightarrow> writeMQTTString s w = put (mqtt_bytes s) w"
  by (auto simp: writeMQTTString_def mqtt_bytes_def string_ok_def writeInt_put writeBytes_put writeCString_put
      split: option.splits)

lemma length_mqtt_bytes: "string_ok s \<Longrightarrow> int (length (mqtt_bytes s)) = 2 + MQTTstrlen s"
  by (auto simp: mqtt_bytes_def string_ok_def MQTTstrlen_def split: option.splits)

section \<open>The remaining length\<close>

fun rem_bytes :: "nat \<Rightarrow> byte list" where
  "rem_bytes n = (if n < 128 then [of_nat n] else (of_nat (n mod 128) OR 0x80) # rem_bytes (n div 128))"

declare rem_bytes.simps [simp del]

lemma encode_loop_put: "encode_loop (int n) w = put (rem_bytes n) w"
proof (induction n arbitrary: w rule: rem_bytes.induct)
  case (1 n)
  have d: "int n sdiv 128 = int (n div 128)" "int n smod 128 = int (n mod 128)"
    by (simp_all add: sdiv_pos zdiv_int zmod_int)
  show ?case
  proof (cases "n < 128")
    case True
    then show ?thesis by (simp add: encode_loop.simps [of "int n"] rem_bytes.simps [of n] d writeChar_put)
  next
    case False
    then have "n div 128 > 0" by (simp add: div_greater_zero_iff)
    then show ?thesis
      using 1 [OF False] False
      by (simp add: encode_loop.simps [of "int n"] rem_bytes.simps [of n] d writeChar_put)
  qed
qed

lemma MQTTPacket_encode_put:
  "MQTTPacket_encode buf (int n) m = (int (length (rem_bytes n)), snd (put (rem_bytes n) (buf, m)))"
  by (simp add: MQTTPacket_encode_def encode_loop_put put_def)

lemma length_rem_bytes:
  "n < 128 \<Longrightarrow> length (rem_bytes n) = 1"
  "128 \<le> n \<Longrightarrow> n < 16384 \<Longrightarrow> length (rem_bytes n) = 2"
  "16384 \<le> n \<Longrightarrow> n < 2097152 \<Longrightarrow> length (rem_bytes n) = 3"
  "2097152 \<le> n \<Longrightarrow> n < 268435456 \<Longrightarrow> length (rem_bytes n) = 4"
proof -
  have 1: "length (rem_bytes n) = 1" if "n < 128" for n using that by (simp add: rem_bytes.simps [of n])
  have 2: "length (rem_bytes n) = 2" if "128 \<le> n" "n < 16384" for n
    using that 1 [of "n div 128"] by (simp add: rem_bytes.simps [of n] less_mult_imp_div_less)
  have 3: "length (rem_bytes n) = 3" if "16384 \<le> n" "n < 2097152" for n
    using that 2 [of "n div 128"] by (simp add: rem_bytes.simps [of n] less_mult_imp_div_less)
  have 4: "length (rem_bytes n) = 4" if "2097152 \<le> n" "n < 268435456" for n
    using that 3 [of "n div 128"] by (simp add: rem_bytes.simps [of n] less_mult_imp_div_less)
  show "n < 128 \<Longrightarrow> length (rem_bytes n) = 1" "128 \<le> n \<Longrightarrow> n < 16384 \<Longrightarrow> length (rem_bytes n) = 2"
    "16384 \<le> n \<Longrightarrow> n < 2097152 \<Longrightarrow> length (rem_bytes n) = 3"
    "2097152 \<le> n \<Longrightarrow> n < 268435456 \<Longrightarrow> length (rem_bytes n) = 4"
    using 1 2 3 4 by simp_all
qed

text \<open>The bytes found in memory from an address on.\<close>

fun holds :: "memory \<Rightarrow> nat \<Rightarrow> byte list \<Rightarrow> bool" where
  "holds m p [] \<longleftrightarrow> True"
| "holds m p (b # bs) \<longleftrightarrow> m p = b \<and> holds m (p + 1) bs"

lemma holds_append [simp]: "holds m p (a @ b) \<longleftrightarrow> holds m p a \<and> holds m (p + length a) b"
  by (induction a arbitrary: p) auto

lemma holds_bytes_at: "holds m p bs \<longleftrightarrow> bytes_at m p (length bs) = bs"
proof (induction bs arbitrary: p)
  case (Cons b bs)
  have "[p..<p + length (b # bs)] = p # [p + 1..<p + 1 + length bs]" by (subst upt_conv_Cons) simp_all
  then show ?case using Cons.IH [of "p + 1"] by (auto simp: bytes_at_def)
qed (simp add: bytes_at_def)

lemma low_seven: "uint (b AND 127) = uint b mod 128" for b :: byte
proof -
  have "b AND 127 = take_bit 7 b" by (simp add: take_bit_eq_mask mask_numeral)
  moreover have "uint (take_bit 7 b) = uint b mod 128" by (simp only: unsigned_take_bit_eq) (simp add: take_bit_eq_mod)
  ultimately show ?thesis by simp
qed

lemma high_bit: "b AND 128 = 0 \<longleftrightarrow> uint b < 128" for b :: byte
proof -
  have "b AND 128 = 0 \<longleftrightarrow> \<not> bit b 7" using and_exp_eq_0_iff_not_bit [of b 7] by simp
  also have "bit b 7 \<longleftrightarrow> bit (uint b) 7" by (simp add: bit_uint_iff)
  also have "\<dots> \<longleftrightarrow> odd (uint b div 128)" by (simp add: bit_iff_odd)
  also have "odd (uint b div 128) \<longleftrightarrow> \<not> uint b < 128"
  proof (cases "uint b < 128")
    case False
    then have "uint b div 128 = 1" using uint_lt2p [of b] by (intro int_div_pos_eq [of _ _ _ "uint b - 128"]) simp_all
    then show ?thesis using False by simp
  qed simp
  finally show ?thesis by simp
qed

lemma digit_bytes:
  assumes "r < 128"
  shows "uint ((of_nat r :: byte) AND 127) = int r" "(of_nat r :: byte) AND 128 = 0"
    "uint ((of_nat r OR 128 :: byte) AND 127) = int r" "(of_nat r OR 128 :: byte) AND 128 \<noteq> 0"
proof -
  have "unat (of_nat r :: byte) = r" using assms by (simp add: unat_of_nat)
  then have u: "uint (of_nat r :: byte) = int r" by (metis uint_nat)
  then show a: "uint ((of_nat r :: byte) AND 127) = int r" "(of_nat r :: byte) AND 128 = 0"
    using assms by (simp_all add: low_seven high_bit)
  have "(b OR 128) AND 127 = b AND 127" for b :: byte by (simp add: bit.conj_disj_distrib2)
  then show "uint ((of_nat r OR 128 :: byte) AND 127) = int r" using a(1) by simp
  have "(b OR 128) AND 128 = (128 :: byte)" for b by (simp add: bit.conj_disj_distrib2)
  then show "(of_nat r OR 128 :: byte) AND 128 \<noteq> 0" by simp
qed

text \<open>A source that gives certain bytes, one at a time.\<close>

fun gives :: "'s source \<Rightarrow> 's \<Rightarrow> byte list \<Rightarrow> 's \<Rightarrow> bool" where
  "gives get st [] st' \<longleftrightarrow> st = st'"
| "gives get st (b # bs) st' \<longleftrightarrow> (\<exists>s1. get 1 st = (1, [b], s1) \<and> gives get s1 bs st')"

lemma bufchar_gives: "holds m p bs \<Longrightarrow> gives (bufchar m) p bs (p + length bs)"
  by (induction bs arbitrary: p) (fastforce simp: bufchar_def)+

lemma decode_loop_rem:
  assumes "gives get st (rem_bytes n) st'" and "len + length (rem_bytes n) \<le> 4"
  shows "decode_loop get len mult val c st = (len + length (rem_bytes n), val + int n * mult, st')"
  using assms
proof (induction n arbitrary: st len mult val c rule: rem_bytes.induct)
  case (1 n)
  show ?case
  proof (cases "n < 128")
    case True
    then show ?thesis
      using 1(2,3) digit_bytes(1,2) [OF True]
      by (auto simp: decode_loop.simps [of _ len] rem_bytes.simps [of n])
  next
    case False
    define r where "r = n mod 128"
    have r: "r < 128" by (simp add: r_def)
    obtain s1 where h: "get 1 st = (1, [of_nat r OR 128], s1)" "gives get s1 (rem_bytes (n div 128)) st'"
      "len + 1 + length (rem_bytes (n div 128)) \<le> 4"
      using 1(2,3) False by (auto simp: rem_bytes.simps [of n] r_def)
    have n: "int n = int r + 128 * int (n div 128)" unfolding r_def by (simp add: zmod_int zdiv_int)
    have "rem_bytes (n div 128) \<noteq> []" by (simp add: rem_bytes.simps [of "n div 128"])
    then have "len + 1 \<le> 4" using h(3) by (cases "rem_bytes (n div 128)") auto
    then show ?thesis
      using 1(1) [OF False h(2,3)] digit_bytes(3,4) [OF r] h(1) False n
      by (simp add: decode_loop.simps [of _ len] rem_bytes.simps [of n] algebra_simps)
  qed
qed

lemma rem_bytes_four: "n < 268435456 \<Longrightarrow> length (rem_bytes n) \<le> 4"
  using length_rem_bytes [of n] by fastforce

text \<open>What was encoded is decoded, in four bytes at most.\<close>

lemma decodeBuf_rem:
  assumes "holds m p (rem_bytes n)" and "n < 268435456"
  shows "MQTTPacket_decodeBuf m p = (length (rem_bytes n), int n)"
proof -
  show ?thesis
    using decode_loop_rem [OF bufchar_gives [OF assms(1)], of 0] rem_bytes_four [OF assms(2)]
    by (simp add: MQTTPacket_decodeBuf_def MQTTPacket_decode_def)
qed

end
