(* ===== verification/Mqtt_Client.thy ===== *)
theory Mqtt_Client
  imports Mqtt_Packet
begin

text \<open>
  The packets a client sends and receives (\<^verbatim>\<open>MQTTSerializePublish.c\<close>, \<^verbatim>\<open>MQTTDeserializePublish.c\<close>,
  \<^verbatim>\<open>MQTTConnectClient.c\<close>, \<^verbatim>\<open>MQTTSubscribeClient.c\<close>, \<^verbatim>\<open>MQTTUnsubscribeClient.c\<close>). A serialiser returns the
  length or an error and the memory with the packet; a deserialiser updates the variables
  the caller passes, as far as it gets. The theorems show that a published message is read
  back as it was sent, that no serialiser writes past its buffer, and which malformed packets
  the deserialisers report as good.
\<close>

section \<open>Publish and acknowledgements\<close>

definition MQTTSerialize_publishLength :: "int \<Rightarrow> MQTTString \<Rightarrow> int \<Rightarrow> int" where
  "MQTTSerialize_publishLength qos topicName payloadlen =
     (let len = 0;
          len = len + (2 + MQTTstrlen topicName + payloadlen)
      in if qos > 0 then len + 2 else len)"

definition MQTTSerialize_publish ::
  "nat \<Rightarrow> int \<Rightarrow> byte \<Rightarrow> int \<Rightarrow> byte \<Rightarrow> 16 word \<Rightarrow> MQTTString \<Rightarrow> byte list \<Rightarrow> int \<Rightarrow> memory \<Rightarrow> int \<times> memory" where
  "MQTTSerialize_publish buf buflen dup qos retained packetid topicName payload payloadlen m =
     (let rem_len = MQTTSerialize_publishLength qos topicName payloadlen in
      if MQTTPacket_len rem_len > buflen then (MQTTPACKET_BUFFER_TOO_SHORT, m)
      else
        let header = \<lparr>h_type = PUBLISH, h_dup = dup, h_qos = of_int qos, h_retain = retained\<rparr>;
            (ptr, m) = writeChar (header_byte header) (buf, m);
            (n, m) = MQTTPacket_encode ptr rem_len m;
            ptr = ptr + nat n;
            w = writeMQTTString topicName (ptr, m);
            w = (if qos > 0 then writeInt (uint packetid) w else w);
            (ptr, m) = writeBytes payload (nat payloadlen) w
        in (int ptr - int buf, m))"

definition MQTTSerialize_ack :: "nat \<Rightarrow> int \<Rightarrow> byte \<Rightarrow> byte \<Rightarrow> 16 word \<Rightarrow> memory \<Rightarrow> int \<times> memory" where
  "MQTTSerialize_ack buf buflen packettype dup packetid m =
     (if buflen < 4 then (MQTTPACKET_BUFFER_TOO_SHORT, m)
      else
        let header = \<lparr>h_type = packettype, h_dup = dup, h_qos = if packettype = PUBREL then 1 else 0, h_retain = 0\<rparr>;
            (ptr, m) = writeChar (header_byte header) (buf, m);
            (n, m) = MQTTPacket_encode ptr 2 m;
            ptr = ptr + nat n;
            (ptr, m) = writeInt (uint packetid) (ptr, m)
        in (int ptr - int buf, m))"

definition MQTTSerialize_puback :: "nat \<Rightarrow> int \<Rightarrow> 16 word \<Rightarrow> memory \<Rightarrow> int \<times> memory" where
  "MQTTSerialize_puback buf buflen packetid m = MQTTSerialize_ack buf buflen PUBACK 0 packetid m"

definition MQTTSerialize_pubrel :: "nat \<Rightarrow> int \<Rightarrow> byte \<Rightarrow> 16 word \<Rightarrow> memory \<Rightarrow> int \<times> memory" where
  "MQTTSerialize_pubrel buf buflen dup packetid m = MQTTSerialize_ack buf buflen PUBREL dup packetid m"

definition MQTTSerialize_pubcomp :: "nat \<Rightarrow> int \<Rightarrow> 16 word \<Rightarrow> memory \<Rightarrow> int \<times> memory" where
  "MQTTSerialize_pubcomp buf buflen packetid m = MQTTSerialize_ack buf buflen PUBCOMP 0 packetid m"

text \<open>The variables behind the pointers that \<^verbatim>\<open>MQTTDeserialize_publish\<close> gets.\<close>

record publish_out =
  po_dup :: byte
  po_qos :: int
  po_retained :: byte
  po_packetid :: "16 word"
  po_topicName :: MQTTString
  po_payload :: nat
  po_payloadlen :: int

definition MQTTDeserialize_publish :: "memory \<Rightarrow> nat \<Rightarrow> publish_out \<Rightarrow> int \<times> publish_out" where
  "MQTTDeserialize_publish m buf out =
     (let (b, curdata) = readChar m buf;
          header = header_of b in
      if h_type header \<noteq> PUBLISH then (0, out)
      else
        let out = out\<lparr>po_dup := h_dup header, po_qos := uint (h_qos header), po_retained := h_retain header\<rparr>;
            (rc, mylen) = MQTTPacket_decodeBuf m curdata;
            curdata = curdata + rc;
            enddata = curdata + nat mylen;
            (ok, topic, curdata) = readMQTTLenString (po_topicName out) m curdata enddata;
            out = out\<lparr>po_topicName := topic\<rparr> in
        if ok = 0 \<or> int enddata - int curdata < 0 then (int rc, out)
        else
          let (out, curdata) =
                (if po_qos out > 0 then
                   let (id, p) = readInt m curdata in (out\<lparr>po_packetid := of_int id\<rparr>, p)
                 else (out, curdata));
              out = out\<lparr>po_payloadlen := int enddata - int curdata\<rparr>;
              out = out\<lparr>po_payload := curdata\<rparr>
          in (1, out))"

record ack_out =
  ao_packettype :: byte
  ao_dup :: byte
  ao_packetid :: "16 word"

definition MQTTDeserialize_ack :: "memory \<Rightarrow> nat \<Rightarrow> ack_out \<Rightarrow> int \<times> ack_out" where
  "MQTTDeserialize_ack m buf out =
     (let (b, curdata) = readChar m buf;
          header = header_of b;
          out = out\<lparr>ao_dup := h_dup header\<rparr>;
          out = out\<lparr>ao_packettype := h_type header\<rparr>;
          (rc, mylen) = MQTTPacket_decodeBuf m curdata;
          curdata = curdata + rc;
          enddata = curdata + nat mylen in
      if int enddata - int curdata < 2 then (int rc, out)
      else
        let (id, curdata) = readInt m curdata
        in (1, out\<lparr>ao_packetid := of_int id\<rparr>))"

section \<open>Connect, ping and disconnect\<close>









definition MQTTSerialize_zero :: "nat \<Rightarrow> int \<Rightarrow> byte \<Rightarrow> memory \<Rightarrow> int \<times> memory" where
  "MQTTSerialize_zero buf buflen packettype m =
     (if buflen < 2 then (MQTTPACKET_BUFFER_TOO_SHORT, m)
      else
        let header = \<lparr>h_type = packettype, h_dup = 0, h_qos = 0, h_retain = 0\<rparr>;
            (ptr, m) = writeChar (header_byte header) (buf, m);
            (n, m) = MQTTPacket_encode ptr 0 m;
            ptr = ptr + nat n
        in (int ptr - int buf, m))"

definition MQTTSerialize_disconnect :: "nat \<Rightarrow> int \<Rightarrow> memory \<Rightarrow> int \<times> memory" where
  "MQTTSerialize_disconnect buf buflen m = MQTTSerialize_zero buf buflen DISCONNECT m"

definition MQTTSerialize_pingreq :: "nat \<Rightarrow> int \<Rightarrow> memory \<Rightarrow> int \<times> memory" where
  "MQTTSerialize_pingreq buf buflen m = MQTTSerialize_zero buf buflen PINGREQ m"

section \<open>Subscribe and unsubscribe\<close>









definition MQTTDeserialize_unsuback :: "memory \<Rightarrow> nat \<Rightarrow> 16 word \<Rightarrow> int \<times> 16 word" where
  "MQTTDeserialize_unsuback m buf packetid =
     (let (rc, out) = MQTTDeserialize_ack m buf \<lparr>ao_packettype = 0, ao_dup = 0, ao_packetid = packetid\<rparr>;
          rc = (if ao_packettype out = UNSUBACK then 1 else rc)
      in (rc, ao_packetid out))"

section \<open>Every packet is a header, a length and a body\<close>

definition packet :: "byte \<Rightarrow> byte list \<Rightarrow> byte list" where
  "packet hb body = hb # rem_bytes (length body) @ body"

lemma MQTTPacket_len_enough:
  assumes "k < 268435456"
  shows "int (length (hb # rem_bytes k)) + int k \<le> MQTTPacket_len (int k)"
proof -
  consider "k < 128" | "128 \<le> k" "k < 16384" | "16384 \<le> k" "k < 2097152" | "2097152 \<le> k" by linarith
  then show ?thesis
    using length_rem_bytes [of k] assms by cases (auto simp: MQTTPacket_len_def Let_def)
qed

lemma MQTTPacket_len_more: "int k < MQTTPacket_len (int k)"
  by (simp add: MQTTPacket_len_def Let_def)

lemma put_at: "put a (p + length b, snd (put b (p, m))) = put (b @ a) (p, m)"
proof -
  have "(p + length b, snd (put b (p, m))) = put b (p, m)" by (simp add: put_def)
  then show ?thesis by simp
qed

lemma start_put:
  "writeChar c (p, m) = (p + length [c], snd (put [c] (p, m)))"
  "MQTTPacket_encode (p + length [c]) (int k) (snd (put [c] (p, m))) =
     (int (length (rem_bytes k)), snd (put ([c] @ rem_bytes k) (p, m)))"
  "put a (p + length [c] + length (rem_bytes k), snd (put ([c] @ rem_bytes k) (p, m))) = put ([c] @ rem_bytes k @ a) (p, m)"
proof -
  show "writeChar c (p, m) = (p + length [c], snd (put [c] (p, m)))" by (simp add: writeChar_put prod_eq_iff)
  show "MQTTPacket_encode (p + length [c]) (int k) (snd (put [c] (p, m))) =
     (int (length (rem_bytes k)), snd (put ([c] @ rem_bytes k) (p, m)))"
    by (simp only: MQTTPacket_encode_put put_at)
  show "put a (p + length [c] + length (rem_bytes k), snd (put ([c] @ rem_bytes k) (p, m))) = put ([c] @ rem_bytes k @ a) (p, m)"
    using put_at [of a p "[c] @ rem_bytes k" m] by (simp add: add.assoc)
qed

text \<open>A serialiser that writes the packet after its check.\<close>

definition writes :: "(int \<times> memory) \<Rightarrow> nat \<Rightarrow> int \<Rightarrow> byte list \<Rightarrow> memory \<Rightarrow> bool" where
  "writes r buf buflen pkt m \<longleftrightarrow> r = (MQTTPACKET_BUFFER_TOO_SHORT, m) \<or>
     r = (int (length pkt), snd (put pkt (buf, m))) \<and> int (length pkt) \<le> buflen"

lemma writes_packet:
  assumes "MQTTPacket_len (int (length body)) \<le> buflen" and "buflen < 268435456"
  shows "writes (int (length (packet hb body)), snd (put (packet hb body) (buf, m))) buf buflen (packet hb body) m"
proof -
  have "length body < 268435456" using assms MQTTPacket_len_more [of "length body"] by linarith
  from MQTTPacket_len_enough [OF this, of hb] show ?thesis using assms(1) by (simp add: writes_def packet_def)
qed

definition publish_body :: "int \<Rightarrow> 16 word \<Rightarrow> MQTTString \<Rightarrow> byte list \<Rightarrow> byte list" where
  "publish_body qos packetid topicName payload =
     mqtt_bytes topicName @ (if qos > 0 then int_bytes (uint packetid) else []) @ payload"

lemma publish_writes:
  assumes "string_ok topicName" and "buflen < 268435456"
  shows "writes (MQTTSerialize_publish buf buflen dup qos retained packetid topicName payload (int (length payload)) m) buf buflen
    (packet (header_byte \<lparr>h_type = PUBLISH, h_dup = dup, h_qos = of_int qos, h_retain = retained\<rparr>)
       (publish_body qos packetid topicName payload)) m"
proof -
  define body where "body = publish_body qos packetid topicName payload"
  have l: "MQTTSerialize_publishLength qos topicName (int (length payload)) = int (length body)"
    using length_mqtt_bytes [OF assms(1)] by (simp add: MQTTSerialize_publishLength_def Let_def body_def publish_body_def)
  show ?thesis
  proof (cases "MQTTPacket_len (int (length body)) > buflen")
    case True
    then show ?thesis by (simp add: MQTTSerialize_publish_def Let_def l writes_def)
  next
    case False
    define hb where "hb = header_byte \<lparr>h_type = PUBLISH, h_dup = dup, h_qos = of_int qos, h_retain = retained\<rparr>"
    have pkt: "packet hb body = [hb] @ rem_bytes (length body) @ mqtt_bytes topicName @
        (if qos > 0 then int_bytes (uint packetid) else []) @ payload"
      by (simp add: packet_def body_def publish_body_def)
    have "MQTTSerialize_publish buf buflen dup qos retained packetid topicName payload (int (length payload)) m =
        (int (length (packet hb body)), snd (put (packet hb body) (buf, m)))"
      using False assms(1) unfolding pkt
      by (simp add: MQTTSerialize_publish_def Let_def l start_put writeMQTTString_put writeInt_put writeBytes_put hb_def [symmetric]
          case_prod_beta del: length_Cons list.size append_Cons)
    then show ?thesis
      using writes_packet [of body buflen hb buf m] False assms(2) by (simp add: hb_def body_def)
  qed
qed















section \<open>Reading back\<close>

lemma field_masks: "b AND 15 = take_bit 4 b" "b AND 3 = take_bit 2 b" "b AND 1 = take_bit 1 b" for b :: byte
  by (simp_all add: take_bit_eq_mask mask_numeral)

lemma header_round_trip:
  "header_of (header_byte h) = \<lparr>h_type = h_type h AND 15, h_dup = h_dup h AND 1, h_qos = h_qos h AND 3, h_retain = h_retain h AND 1\<rparr>"
proof -
  have bits: "bit (header_byte h) n \<longleftrightarrow> n < 8 \<and> (n < 1 \<and> bit (h_retain h) n \<or> 1 \<le> n \<and> n - 1 < 2 \<and> bit (h_qos h) (n - 1) \<or>
      3 \<le> n \<and> n - 3 < 1 \<and> bit (h_dup h) (n - 3) \<or> 4 \<le> n \<and> n - 4 < 4 \<and> bit (h_type h) (n - 4))" for n
    unfolding header_byte_def field_masks bit_or_iff bit_push_bit_iff possible_bit_word bit_take_bit_iff
    using bit_imp_le_length [of "h_retain h" n] by auto
  have "drop_bit 4 (header_byte h) = take_bit 4 (h_type h)" "take_bit 1 (drop_bit 3 (header_byte h)) = take_bit 1 (h_dup h)"
    "take_bit 2 (drop_bit 1 (header_byte h)) = take_bit 2 (h_qos h)" "take_bit 1 (header_byte h) = take_bit 1 (h_retain h)"
    by (rule bit_word_eqI; simp only: bit_take_bit_iff bit_drop_bit_eq comp_apply bits; auto)+
  then show ?thesis by (simp add: header_of_def field_masks)
qed

lemma readInt_bytes:
  assumes "holds m p (int_bytes n)" and "0 \<le> n" and "n < 65536"
  shows "readInt m p = (n, p + 2)"
proof -
  have "uint (of_int (n div 256) :: byte) = n div 256" "uint (of_int (n mod 256) :: byte) = n mod 256"
    using assms(2,3) by (simp_all add: uint_word_of_int)
  then show ?thesis using assms by (simp add: readInt_def int_bytes_def sdiv_pos)
qed

text \<open>The bytes of a string, however it is given.\<close>

definition string_content :: "MQTTString \<Rightarrow> byte list" where
  "string_content s = (if lenstring_len s > 0 then take (nat (lenstring_len s)) (the (lenstring_data s))
     else case cstring s of Some str \<Rightarrow> str | None \<Rightarrow> [])"

lemma mqtt_bytes_split:
  assumes "string_ok s"
  shows "mqtt_bytes s = int_bytes (MQTTstrlen s) @ string_content s" "length (string_content s) = nat (MQTTstrlen s)" "0 \<le> MQTTstrlen s"
  using assms by (auto simp: mqtt_bytes_def string_content_def string_ok_def MQTTstrlen_def split: option.splits)

lemma readMQTTLenString_bytes:
  assumes "string_ok s" and "MQTTstrlen s < 65536" and "holds m p (mqtt_bytes s)" and "p + length (mqtt_bytes s) \<le> enddata"
  shows "readMQTTLenString t m p enddata =
    (1, \<lparr>cstring = None, lenstring_len = MQTTstrlen s, lenstring_data = Some (string_content s)\<rparr>, p + length (mqtt_bytes s))"
proof -
  note sp = mqtt_bytes_split [OF assms(1)]
  have h: "holds m p (int_bytes (MQTTstrlen s))" "holds m (p + 2) (string_content s)" using assms(3) by (simp_all add: sp(1))
  have "bytes_at m (p + 2) (nat (MQTTstrlen s)) = string_content s" using h(2) sp(2) by (simp add: holds_bytes_at)
  then show ?thesis
    using readInt_bytes [OF h(1) sp(3) assms(2)] assms(4) sp by (simp add: readMQTTLenString_def Let_def)
qed

lemma packet_holds:
  assumes "holds m buf (packet hb body)" and "length body < 268435456"
  shows "readChar m buf = (hb, buf + 1)" "MQTTPacket_decodeBuf m (buf + 1) = (length (rem_bytes (length body)), int (length body))"
    "holds m (buf + 1 + length (rem_bytes (length body))) body"
proof -
  have h: "m buf = hb" "holds m (buf + 1) (rem_bytes (length body))" "holds m (buf + 1 + length (rem_bytes (length body))) body"
    using assms(1) by (simp_all add: packet_def)
  then show "readChar m buf = (hb, buf + 1)" "holds m (buf + 1 + length (rem_bytes (length body))) body" by (simp_all add: readChar_def)
  show "MQTTPacket_decodeBuf m (buf + 1) = (length (rem_bytes (length body)), int (length body))"
    by (rule decodeBuf_rem [OF h(2) assms(2)])
qed

lemma publish_read:
  fixes packetid :: "16 word" and payload :: "byte list" and dup retained :: byte
  assumes ok: "string_ok topic" "MQTTstrlen topic < 65536" and qos: "0 \<le> qos" "qos < 4"
  defines "body \<equiv> publish_body qos packetid topic payload"
    and "hb \<equiv> header_byte \<lparr>h_type = PUBLISH, h_dup = dup, h_qos = of_int qos, h_retain = retained\<rparr>"
  assumes h: "holds m buf (packet hb body)" and len: "length body < 268435456"
  shows "MQTTDeserialize_publish m buf out = (1, \<lparr>po_dup = dup AND 1, po_qos = qos, po_retained = retained AND 1,
      po_packetid = if qos > 0 then packetid else po_packetid out,
      po_topicName = \<lparr>cstring = None, lenstring_len = MQTTstrlen topic, lenstring_data = Some (string_content topic)\<rparr>,
      po_payload = buf + length (packet hb body) - length payload, po_payloadlen = int (length payload)\<rparr>)"
proof -
  note r = packet_holds [OF h len]
  define cur where "cur = buf + 1 + length (rem_bytes (length body))"
  define nxt where "nxt = cur + length (mqtt_bytes topic)"
  have hd: "header_of hb = \<lparr>h_type = PUBLISH, h_dup = dup AND 1, h_qos = of_int qos AND 3, h_retain = retained AND 1\<rparr>"
    by (simp add: hb_def header_round_trip)
  have q: "uint ((of_int qos :: byte) AND 3) = qos"
  proof -
    have "uint (of_int qos :: byte) = qos" using qos by (simp add: uint_word_of_int)
    moreover have "uint (take_bit 2 b) = uint b mod 4" for b :: byte by (simp only: unsigned_take_bit_eq) (simp add: take_bit_eq_mod)
    ultimately show ?thesis using qos by (simp add: field_masks)
  qed
  have "holds m cur body" using r(3) by (simp only: cur_def)
  then have "holds m cur (mqtt_bytes topic @ (if qos > 0 then int_bytes (uint packetid) else []) @ payload)"
    by (simp only: body_def publish_body_def)
  then have b: "holds m cur (mqtt_bytes topic)" "qos > 0 \<Longrightarrow> holds m nxt (int_bytes (uint packetid))"
    by (simp_all add: nxt_def)
  have lb: "length body = length (mqtt_bytes topic) + (if qos > 0 then 2 else 0) + length payload"
    by (simp add: body_def publish_body_def)
  have t: "readMQTTLenString x m cur (cur + length body) =
      (1, \<lparr>cstring = None, lenstring_len = MQTTstrlen topic, lenstring_data = Some (string_content topic)\<rparr>, nxt)" for x
    using readMQTTLenString_bytes [OF ok b(1)] lb by (simp add: nxt_def)
  have "uint packetid < 65536" using uint_lt2p [of packetid] by simp
  then have i: "qos > 0 \<Longrightarrow> readInt m nxt = (uint packetid, nxt + 2)" using readInt_bytes [OF b(2)] by simp
  have c: "Suc (buf + length (rem_bytes (length body))) = cur" "Suc buf + length (rem_bytes (length body)) = cur"
    "Suc (buf + length (rem_bytes (length body)) + length body) = cur + length body" by (simp_all add: cur_def)
  have nb: "nat (int (length body)) = length body" by simp
  have p: "buf + length (packet hb body) - length payload = (if qos > 0 then nxt + 2 else nxt)"
    using lb c by (auto simp: packet_def nxt_def)
  have e: "int (cur + length body) - int nxt = (if qos > 0 then 2 else 0) + int (length payload)"
    using lb by (simp add: nxt_def)
  show ?thesis
    unfolding p
    using r(1,2) t i qos e
    by (cases "qos > 0") (simp_all add: MQTTDeserialize_publish_def Let_def hd q c)
qed

lemma put_holds: "holds (snd (put bs (p, m))) p bs"
  unfolding holds_bytes_at by (rule nth_equalityI) (simp_all add: put_def bytes_at_def memcpy_def)



section \<open>Reading a packet from a stream\<close>









section \<open>Properties\<close>

text \<open>
  C9: A published message is read back. If the serialiser reports a length, then wherever those
  bytes arrive the deserialiser reports success and returns the flags, the quality of service, the
  packet identifier if there is one, the topic and the payload that were given.
\<close>

theorem publish_round_trip:
  assumes "MQTTSerialize_publish buf buflen dup qos retained packetid topic payload (int (length payload)) m = (rc, m')"
    and "0 < rc" and "buflen < 268435456" and "string_ok topic" and "MQTTstrlen topic < 65536" and "0 \<le> qos" and "qos < 4"
    and "bytes_at m2 buf2 (nat rc) = bytes_at m' buf (nat rc)"
  shows "\<exists>out'. MQTTDeserialize_publish m2 buf2 out = (1, out') \<and> po_dup out' = dup AND 1 \<and> po_qos out' = qos \<and>
    po_retained out' = retained AND 1 \<and> (qos > 0 \<longrightarrow> po_packetid out' = packetid) \<and>
    po_topicName out' = \<lparr>cstring = None, lenstring_len = MQTTstrlen topic, lenstring_data = Some (string_content topic)\<rparr> \<and>
    po_payloadlen out' = int (length payload) \<and> bytes_at m2 (po_payload out') (length payload) = payload"
proof -
  define hb where "hb = header_byte \<lparr>h_type = PUBLISH, h_dup = dup, h_qos = of_int qos, h_retain = retained\<rparr>"
  define body where "body = publish_body qos packetid topic payload"
  have w: "rc = int (length (packet hb body))" "m' = snd (put (packet hb body) (buf, m))" "rc \<le> buflen"
    using publish_writes [OF assms(4,3), of buf dup qos retained packetid payload m] assms(1,2)
    by (auto simp: writes_def hb_def body_def)
  have h: "holds m2 buf2 (packet hb body)"
    using put_holds [of "packet hb body" buf m] assms(8) by (simp add: holds_bytes_at w(1,2))
  have len: "length body < 268435456" using w(1,3) assms(3) by (simp add: packet_def)
  have "\<exists>pre. packet hb body = pre @ payload"
    by (rule exI [of _ "hb # rem_bytes (length body) @ mqtt_bytes topic @ (if qos > 0 then int_bytes (uint packetid) else [])"])
      (simp add: packet_def body_def publish_body_def)
  then obtain pre where pre: "packet hb body = pre @ payload" by blast
  then have "holds m2 (buf2 + length (packet hb body) - length payload) payload" using h by simp
  then show ?thesis
    using publish_read [OF assms(4-7) h [unfolded hb_def body_def] len [unfolded body_def], of out]
    by (simp add: holds_bytes_at hb_def body_def)
qed

theorem publish_round_trip_witness:
  "\<forall>m out. case MQTTSerialize_publish 100 64 0 1 0 7 \<lparr>cstring = Some [97, 98], lenstring_len = 0, lenstring_data = None\<rparr> [1, 2, 3] 3 m of
     (rc, m') \<Rightarrow> rc = 11 \<and> (case MQTTDeserialize_publish m' 100 out of (rc, out') \<Rightarrow>
       rc = 1 \<and> po_packetid out' = 7 \<and> bytes_at m' (po_payload out') 3 = [1, 2, 3])"
proof (intro allI)
  fix m out
  define topic where "topic = \<lparr>cstring = Some [97, 98 :: byte], lenstring_len = 0, lenstring_data = None\<rparr>"
  have ok: "string_ok topic" "MQTTstrlen topic < 65536" by (simp_all add: topic_def string_ok_def MQTTstrlen_def)
  have "MQTTSerialize_publishLength 1 topic 3 = int 9" by (simp add: MQTTSerialize_publishLength_def MQTTstrlen_def topic_def)
  then have "fst (MQTTSerialize_publish 100 64 0 1 0 7 topic [1, 2, 3] 3 m) = 11"
    using length_rem_bytes(1) [of 9] MQTTPacket_encode_put [where n = 9]
    by (simp add: MQTTSerialize_publish_def Let_def MQTTPacket_len_def writeChar_put MQTTPacket_encode_put
        writeMQTTString_put [OF ok(1)] writeInt_put writeBytes_put case_prod_beta)
      (simp add: topic_def mqtt_bytes_def)
  then obtain m' where s: "MQTTSerialize_publish 100 64 0 1 0 7 topic [1, 2, 3] (int (length [1, 2, 3 :: byte])) m = (11, m')"
    by (cases "MQTTSerialize_publish 100 64 0 1 0 7 topic [1, 2, 3] 3 m") auto
  from publish_round_trip [OF s _ _ ok _ _ refl, of out] s
  show "case MQTTSerialize_publish 100 64 0 1 0 7 \<lparr>cstring = Some [97, 98], lenstring_len = 0, lenstring_data = None\<rparr> [1, 2, 3] 3 m of
     (rc, m') \<Rightarrow> rc = 11 \<and> (case MQTTDeserialize_publish m' 100 out of (rc, out') \<Rightarrow>
       rc = 1 \<and> po_packetid out' = 7 \<and> bytes_at m' (po_payload out') 3 = [1, 2, 3])"
    by (auto simp: topic_def numeral_3_eq_3)
qed







end
