(* ===== verification/Spec2Isabelle.thy ===== *)
theory Spec2Isabelle
  imports Klist Behaviour Kfifo Mblk Ringbuf_Api Timer Mqtt_Client
begin

text \<open>The kernel of AliOS Things.\<close>

section \<open>Properties of every run\<close>



text \<open>
  C2: Outside interrupts and with the scheduler not locked, the task that runs (or, when a
  context switch is pending, the task switched to) is ready, and no ready task has a higher
  priority. A smaller number is a higher priority.
\<close>

theorem run_highest_priority:
  assumes "run s" and "g_intrpt_nested_level s = 0" and "g_sched_lock s = 0"
  defines "cur \<equiv> if cpu_switch s then g_preferred_ready_task s else g_active_task s"
  shows "st s cur = K_RDY \<and> (\<forall>t. st s t = K_RDY \<longrightarrow> pr s cur \<le> pr s t)"
proof -
  note d = sysinvD [OF run_sysinv(1) [OF assms(1)]]
  have "cur = best s" using d(3) assms(2,3) by (simp add: sched_ok_def cur_def)
  then show ?thesis using best_ready(3,5) [OF kinvD(1) [OF d(1)]] by simp
qed

theorem run_highest_priority_witness:
  "st on_sem 768 = K_RDY \<and> pr on_sem 768 \<le> pr on_sem 256"
proof -
  have "g_intrpt_nested_level on_sem = 0" "g_sched_lock on_sem = 0" "\<not> cpu_switch on_sem" "g_active_task on_sem = 768"
    "st on_sem 256 = K_RDY"
    by (simp_all add: on_sem_eq low_runs_def demo_defs)
  then show ?thesis using run_highest_priority [OF run_waiting(1)] by simp
qed

text \<open>
  C4: No wake-up is lost. A task that waits for a semaphore, an event group, a message queue
  or a buffer queue waits for something that is not there: the semaphore's count is zero, the
  flags do not meet its condition, the queue is empty.
\<close>

theorem run_no_lost_wakeup:
  assumes "run s" and "pended (st s t)"
  shows "\<not> avail s (bo s t) (tasks s t)"
  using sysinvD(5) [OF run_sysinv(1) [OF assms(1)]] assms(2) by (simp add: no_lost_def)

theorem run_no_lost_wakeup_witness: "sem_count (sems on_sem 1024) = 0"
proof -
  have "pended (st on_sem 512)" "bo on_sem 512 = 1024" "obj_type (blks on_sem 1024) = RHINO_SEM_OBJ_TYPE"
    by (simp_all add: on_sem_eq low_runs_def demo_defs)
  then show ?thesis using run_no_lost_wakeup [OF run_waiting(1), of 512] by (simp add: avail_def)
qed

text \<open>
  C3: Priority inheritance is exact. The priority of every task is the highest of its own
  (base) priority and the priorities of the tasks that wait for a mutex it holds, along
  chains of waiting owners as well.
\<close>

theorem run_priority_inheritance:
  assumes "run s" and "live (st s t)"
  shows "pr s t = Min (insert (b_prio (tasks s t)) (pr s ` {u. pended (st s u) \<and> bo s u \<in> set (held s t)}))"
  using kinvD(3) [OF sysinvD(1) [OF run_sysinv(1) [OF assms(1)]]] assms(2)
  by (simp add: pi_ok_def need_is_Min waiters_def)

theorem run_priority_inheritance_witness: "pr on_mutex 768 = 10 \<and> b_prio (tasks on_mutex 768) = 20"
proof -
  have f: "live (st on_mutex 768)" "held on_mutex 768 = [1280]" "b_prio (tasks on_mutex 768) = 20"
    by (simp_all add: on_mutex_eq demo_defs)
  have "{u. pended (st on_mutex u) \<and> bo on_mutex u = 1280} = {512}"
    by (auto simp: on_mutex_eq demo_defs zero_task_def split: if_splits)
  moreover have "pr on_mutex 512 = 10" by (simp add: on_mutex_eq demo_defs)
  ultimately show ?thesis using run_priority_inheritance [OF run_waiting(3) f(1)] f by simp
qed

text \<open>
  C5: Mutual exclusion. A mutex in the list of held mutexes of a task that has not been
  deleted is owned by that task, and no other such task has it in its list; a task that waits
  for a mutex waits for another task, one that has not been deleted and holds the mutex.
\<close>

theorem run_mutual_exclusion:
  assumes "run s"
  shows "(\<forall>t m. live (st s t) \<and> m \<in> set (held s t) \<longrightarrow> owner s m = t) \<and>
    (\<forall>t. pended (st s t) \<and> is_mutex s (bo s t) \<longrightarrow>
       owner s (bo s t) \<noteq> t \<and> live (st s (owner s (bo s t))) \<and> bo s t \<in> set (held s (owner s (bo s t))))"
  using kinvD(2) [OF sysinvD(1) [OF run_sysinv(1) [OF assms]]] unfolding mutex_ok_def by blast

theorem run_mutual_exclusion_witness: "owner on_mutex 1280 = 768 \<and> 1280 \<in> set (held on_mutex 768)"
proof -
  have "pended (st on_mutex 512)" "bo on_mutex 512 = 1280" "is_mutex on_mutex 1280" "held on_mutex 768 = [1280]"
    "live (st on_mutex 768)"
    by (simp_all add: on_mutex_eq demo_defs is_mutex_def)
  then show ?thesis using run_mutual_exclusion [OF run_waiting(3)] by (metis list.set_intros(1))
qed

text \<open>
  C6: The lists agree with the states of the tasks. The ring of a priority holds the ready
  tasks of that priority, the list of an object the tasks blocked on it, each once; the
  lists of objects with the priority policy are sorted; the first set bit of the priority
  bitmap, kept in \<^verbatim>\<open>highest_pri\<close>, is the priority of a ready task.
\<close>

theorem run_lists:
  assumes "run s"
  shows "(\<forall>p t. t \<in> set (ring s p) \<longleftrightarrow> st s t = K_RDY \<and> pr s t = p) \<and> (\<forall>p. distinct (ring s p)) \<and>
    (\<forall>b t. t \<in> set (bl s b) \<longleftrightarrow> pended (st s t) \<and> bo s t = b) \<and> (\<forall>b. distinct (bl s b)) \<and>
    (\<forall>b. blk_policy (blks s b) = BLK_POLICY_PRI \<longrightarrow> sorted (map (pr s) (bl s b))) \<and>
    krhino_find_first_bit (task_bit_map (g_ready_queue s)) = Some (highest_pri (g_ready_queue s)) \<and>
    ring s (highest_pri (g_ready_queue s)) \<noteq> []"
proof -
  have c: "core_ok s" using kinvD(1) [OF sysinvD(1) [OF run_sysinv(1) [OF assms]]] .
  note o = core_okD [OF c] and b = best_ready(2) [OF c]
  have "krhino_find_first_bit (task_bit_map (g_ready_queue s)) = Some (highest_pri (g_ready_queue s))"
    using o(1) b by (simp add: krhino_find_first_bit_Some rq_ok_def)
  then show ?thesis using o(2,3) b by (simp add: ready_ok_def blk_ok_def)
qed

theorem run_lists_witness: "set (bl on_sem 1024) = {512} \<and> set (ring on_sem 20) = {768}"
proof -
  have "st on_sem u = K_RDY \<and> pr on_sem u = 20 \<longleftrightarrow> u = 768" "pended (st on_sem u) \<and> bo on_sem u = 1024 \<longleftrightarrow> u = 512" for u
    by (auto simp: on_sem_eq low_runs_def demo_defs zero_task_def)
  then show ?thesis using run_lists [OF run_waiting(1)] by auto
qed

text \<open>
  C25: Critical sections are balanced. Every call leaves the interrupt mask as it found it,
  on every path, errors and blocking included; the one exception is the attempt to delete
  a task that runs at the idle priority.
\<close>

theorem call_restores_mask:
  assumes "\<not> deletes_idle c s"
  shows "irq_off (snd (syscall c s)) = irq_off s"
  using keepD(3) [OF syscall_keep [OF assms]] .

theorem call_restores_mask_witness:
  "irq_off (snd (syscall (Sem_api (Sem_give 1024)) on_sem)) = irq_off on_sem"
  using call_restores_mask [of "Sem_api (Sem_give 1024)" on_sem] by (simp add: deletes_idle_def)

text \<open>
  C40: The exception. Deleting a task at the idle priority from a task is refused with the
  right error, but the call returns from inside its critical section: interrupts stay
  disabled, and nothing else of the state has changed.
\<close>

theorem del_idle_leaves_interrupts_off:
  assumes "g_intrpt_nested_level s = 0" and "t \<noteq> NULL" and "prio (tasks s t) = RHINO_IDLE_PRI"
  shows "krhino_task_del t s = (RHINO_TASK_DEL_NOT_ALLOWED, s\<lparr>irq_off := True\<rparr>)"
  using assms by (simp add: krhino_task_del_def RHINO_CRITICAL_ENTER_def Let_def)

theorem del_idle_leaves_interrupts_off_witness:
  "krhino_task_del 256 demo = (RHINO_TASK_DEL_NOT_ALLOWED, demo\<lparr>irq_off := True\<rparr>) \<and> \<not> irq_off demo"
proof -
  have "prio (tasks demo 256) = RHINO_IDLE_PRI" "\<not> irq_off demo" by (simp_all add: demo_defs)
  then show ?thesis
    using del_idle_leaves_interrupts_off [OF waiting_facts(1), of 256] by simp
qed

end
